(* ===== verification/Prelude.thy ===== *)
theory Prelude
  imports Complex_Main "HOL-Library.Word" "HOL-Library.List_Lexorder" "HOL-Library.Char_ord"
begin

text \<open>
  Shared vocabulary of the development: the exceptions the Python modules raise, results that
  are either an exception or a value, insertion-ordered dictionaries as association lists, the
  byte type, and the list lemmas the components share. The collection \<open>dict_simps\<close> carries the
  lookup and update laws of dictionaries; \<open>result_simps\<close> those of the result type.
\<close>

named_theorems dict_simps
named_theorems result_simps

section \<open>Exceptions and results\<close>

text \<open>
  One constructor per exception class the modelled modules raise. The message text of an
  exception is not part of the model.
\<close>

datatype exn =
    ValueError | KeyError | IndexError | TypeError | AttributeError | ZeroDivisionError | RuntimeError
  | LayerError | QueueEmpty | FileNotFound | LeafUnavailable | IntegrityError
  | ManifestUnavailable | OtherError

type_synonym 'a result = "exn + 'a"

definition rbind :: "'a result \<Rightarrow> ('a \<Rightarrow> 'b result) \<Rightarrow> 'b result" where
  "rbind r f = (case r of Inl e \<Rightarrow> Inl e | Inr x \<Rightarrow> f x)"

lemma rbind_Inl [simp, result_simps]: "rbind (Inl e) f = Inl e"
  by (simp add: rbind_def)

lemma rbind_Inr [simp, result_simps]: "rbind (Inr x) f = f x"
  by (simp add: rbind_def)

lemma rbind_eq_Inr [result_simps]:
  "rbind r f = Inr y \<longleftrightarrow> (\<exists>x. r = Inr x \<and> f x = Inr y)"
  by (cases r) auto

text \<open>Mapping a fallible function over a list stops at the first exception.\<close>

fun rmap :: "('a \<Rightarrow> 'b result) \<Rightarrow> 'a list \<Rightarrow> 'b list result" where
  "rmap f [] = Inr []"
| "rmap f (x # xs) = rbind (f x) (\<lambda>y. rbind (rmap f xs) (\<lambda>ys. Inr (y # ys)))"

lemma rmap_Inr [result_simps]: "rmap (\<lambda>x. Inr (f x)) xs = Inr (map f xs)"
  by (induction xs) auto

lemma rmap_all_Inr: "(\<And>x. x \<in> set xs \<Longrightarrow> g x = Inr (f x)) \<Longrightarrow> rmap g xs = Inr (map f xs)"
  by (induction xs) auto

lemma rmap_length: "rmap f xs = Inr ys \<Longrightarrow> length ys = length xs"
  by (induction xs arbitrary: ys) (auto simp: rbind_eq_Inr)

lemma rmap_cong [fundef_cong]:
  "xs = ys \<Longrightarrow> (\<And>x. x \<in> set ys \<Longrightarrow> f x = g x) \<Longrightarrow> rmap f xs = rmap g ys"
proof (induction ys arbitrary: xs)
  case (Cons y ys)
  then have "rmap f ys = rmap g ys" by (meson list.set_intros(2))
  with Cons.prems show ?case by simp
qed simp

lemma rmap_exists:
  "(\<And>x. x \<in> set xs \<Longrightarrow> \<exists>y. f x = Inr y) \<Longrightarrow> \<exists>ys. rmap f xs = Inr ys"
proof (induction xs)
  case (Cons x xs)
  then obtain y ys where "f x = Inr y" "rmap f xs = Inr ys" by (metis list.set_intros)
  then show ?case by simp
qed simp

lemma rmap_list_all2: "rmap f xs = Inr ys \<Longrightarrow> list_all2 (\<lambda>x y. f x = Inr y) xs ys"
  by (induction xs arbitrary: ys) (auto simp: rbind_eq_Inr)

lemma rmap_member: "rmap f xs = Inr ys \<Longrightarrow> y \<in> set ys \<Longrightarrow> \<exists>x \<in> set xs. f x = Inr y"
  by (induction xs arbitrary: ys) (auto simp: rbind_eq_Inr)

lemma rmap_value: "rmap f xs = Inr ys \<Longrightarrow> x \<in> set xs \<Longrightarrow> \<exists>y \<in> set ys. f x = Inr y"
  by (induction xs arbitrary: ys) (auto simp: rbind_eq_Inr)

lemma rmap_map_eq:
  "rmap f xs = Inr ys \<Longrightarrow> (\<And>x y. x \<in> set xs \<Longrightarrow> f x = Inr y \<Longrightarrow> g y = h x) \<Longrightarrow> map g ys = map h xs"
  by (induction xs arbitrary: ys) (auto simp: rbind_eq_Inr)

lemma rmap_rmap:
  "rmap f xs = Inr ys \<Longrightarrow> (\<And>x y. x \<in> set xs \<Longrightarrow> f x = Inr y \<Longrightarrow> g y = Inr (h x)) \<Longrightarrow>
     rmap g ys = Inr (map h xs)"
  by (induction xs arbitrary: ys) (auto simp: rbind_eq_Inr)

lemma rbindE: "rbind m f = Inr y \<Longrightarrow> (\<And>x. m = Inr x \<Longrightarrow> f x = Inr y \<Longrightarrow> P) \<Longrightarrow> P"
  by (cases m) simp_all

lemma rmap_from_all2: "list_all2 (\<lambda>x y. f x = Inr y) xs ys \<Longrightarrow> rmap f xs = Inr ys"
  by (induction rule: list_all2_induct) auto

text \<open>A loop whose body may raise: the state is threaded until the first exception.\<close>

fun rfold :: "('a \<Rightarrow> 's \<Rightarrow> 's result) \<Rightarrow> 'a list \<Rightarrow> 's \<Rightarrow> 's result" where
  "rfold f [] s = Inr s"
| "rfold f (x # xs) s = rbind (f x s) (rfold f xs)"

lemma rfold_error:
  assumes "\<exists>x \<in> set xs. \<forall>s. f x s = Inl e" "\<And>x s. x \<in> set xs \<Longrightarrow> f x s = Inl e \<or> (\<exists>s'. f x s = Inr s')"
  shows "rfold f xs s = Inl e"
  using assms
proof (induction xs arbitrary: s)
  case (Cons x xs)
  show ?case
  proof (cases "f x s")
    case (Inl e')
    then show ?thesis using Cons.prems(2) [of x s] by auto
  next
    case (Inr s')
    then have "\<exists>y \<in> set xs. \<forall>s. f y s = Inl e" using Cons.prems(1) by (metis set_ConsD sum.distinct(1))
    with Cons.IH [of s'] Cons.prems(2) Inr show ?thesis by simp
  qed
qed simp

lemma concat_blocks_eq:
  assumes "concat bs = concat cs" "length bs = length cs" "\<forall>b \<in> set bs. length b = k" "\<forall>c \<in> set cs. length c = k"
  shows "bs = cs"
  using assms(2,1,3,4) by (induction bs cs rule: list_induct2) auto

lemma rfold_append:
  "(\<And>x out. x \<in> set xs \<Longrightarrow> f x out = Inr (out @ g x)) \<Longrightarrow>
     rfold f xs out = Inr (out @ concat (map g xs))"
  by (induction xs arbitrary: out) auto

lemma rfold_invariant:
  assumes "rfold f xs s = Inr s'" "I 0 s"
    and "\<And>x s s' n. x \<in> set xs \<Longrightarrow> I n s \<Longrightarrow> f x s = Inr s' \<Longrightarrow> I (Suc n) s'"
  shows "I (length xs) s'"
proof -
  have "I (n + length ys) s'" if "rfold f ys s = Inr s'" "I n s" "set ys \<subseteq> set xs" for ys s n
    using that
  proof (induction ys arbitrary: s n)
    case (Cons y ys)
    then obtain s1 where "f y s = Inr s1" "rfold f ys s1 = Inr s'" by (auto simp: rbind_eq_Inr)
    with Cons.IH [of s1 "Suc n"] Cons.prems assms(3) show ?case by auto
  qed simp
  from this [OF assms(1,2)] show ?thesis by simp
qed

lemma rmap_snoc: "rmap f xs = Inr ys \<Longrightarrow> f x = Inr y \<Longrightarrow> rmap f (xs @ [x]) = Inr (ys @ [y])"
  by (induction xs arbitrary: ys) (auto simp: rbind_eq_Inr)

section \<open>Dictionaries\<close>

text \<open>
  A Python dict keeps insertion order; assigning to a present key keeps its place. Keys are
  distinct by construction, which \<open>dwf\<close> states.
\<close>

type_synonym ('k, 'v) dict = "('k \<times> 'v) list"

definition dget :: "('k, 'v) dict \<Rightarrow> 'k \<Rightarrow> 'v option" where
  "dget d k = map_of d k"

fun dset :: "('k, 'v) dict \<Rightarrow> 'k \<Rightarrow> 'v \<Rightarrow> ('k, 'v) dict" where
  "dset [] k v = [(k, v)]"
| "dset ((a, b) # d) k v = (if a = k then (a, v) # d else (a, b) # dset d k v)"

definition dkeys :: "('k, 'v) dict \<Rightarrow> 'k list" where
  "dkeys d = map fst d"

definition dwf :: "('k, 'v) dict \<Rightarrow> bool" where
  "dwf d \<longleftrightarrow> distinct (map fst d)"

definition dgetdef :: "('k, 'v) dict \<Rightarrow> 'k \<Rightarrow> 'v \<Rightarrow> 'v" where
  "dgetdef d k v = (case dget d k of None \<Rightarrow> v | Some x \<Rightarrow> x)"

definition ddel :: "('k, 'v) dict \<Rightarrow> 'k \<Rightarrow> ('k, 'v) dict" where
  "ddel d k = filter (\<lambda>p. fst p \<noteq> k) d"

lemma dget_Nil [simp, dict_simps]: "dget [] k = None"
  by (simp add: dget_def)

lemma dget_Cons [simp, dict_simps]: "dget ((a, b) # d) k = (if a = k then Some b else dget d k)"
  by (simp add: dget_def)

lemma dget_dset [simp, dict_simps]: "dget (dset d k v) k' = (if k = k' then Some v else dget d k')"
  by (induction d k v rule: dset.induct) auto

lemma set_dkeys_dset [dict_simps]: "set (dkeys (dset d k v)) = insert k (set (dkeys d))"
  by (induction d k v rule: dset.induct) (auto simp: dkeys_def)

lemma dwf_dset [simp, dict_simps]: "dwf d \<Longrightarrow> dwf (dset d k v)"
proof (induction d k v rule: dset.induct)
  case (2 a b d k v)
  then show ?case
    using set_dkeys_dset [of d k v] by (auto simp: dwf_def dkeys_def)
qed (simp add: dwf_def)

lemma dget_None_iff [dict_simps]: "dget d k = None \<longleftrightarrow> k \<notin> set (dkeys d)"
  by (simp add: dget_def dkeys_def map_of_eq_None_iff)

lemma dget_Some_in: "dget d k = Some v \<Longrightarrow> (k, v) \<in> set d"
  unfolding dget_def by (rule map_of_SomeD)

lemma dget_in_dwf: "dwf d \<Longrightarrow> (k, v) \<in> set d \<Longrightarrow> dget d k = Some v"
  unfolding dget_def dwf_def by (rule map_of_is_SomeI)

lemma dget_filter_keys: "dget (filter (\<lambda>p. P (fst p)) d) k = (if P k then dget d k else None)"
  by (induction d) auto

lemma dget_ddel [simp, dict_simps]: "dget (ddel d k) k' = (if k = k' then None else dget d k')"
  unfolding ddel_def by (subst dget_filter_keys) auto

lemma dwf_Nil [simp]: "dwf []"
  by (simp add: dwf_def)

lemma dget_map_pairs: "dget (map (\<lambda>x. (x, f x)) xs) k = (if k \<in> set xs then Some (f k) else None)"
  by (induction xs) auto

lemma dkeys_map_pairs [simp]: "dkeys (map (\<lambda>x. (x, f x)) xs) = xs"
  by (simp add: dkeys_def comp_def)

lemma dwf_map_pairs: "distinct xs \<Longrightarrow> dwf (map (\<lambda>x. (x, f x)) xs)"
  by (simp add: dwf_def comp_def)

lemma dset_map_pairs:
  "distinct xs \<Longrightarrow> k \<in> set xs \<Longrightarrow>
     dset (map (\<lambda>x. (x, f x)) xs) k v = map (\<lambda>x. (x, if x = k then v else f x)) xs"
  by (induction xs) auto

section \<open>Bytes and lists\<close>

type_synonym byte = "8 word"
type_synonym bytes = "byte list"

lemma byte_induct_range: "(\<forall>n < 256. P (word_of_nat n :: byte)) \<Longrightarrow> P b"
proof -
  assume "\<forall>n < 256. P (word_of_nat n :: byte)"
  moreover have "unat b < 256" using unsigned_less [of b] by simp
  ultimately have "P (word_of_nat (unat b))" by blast
  then show ?thesis by simp
qed

lemma nth_eq_distinct: "distinct xs \<Longrightarrow> i < length xs \<Longrightarrow> j < length xs \<Longrightarrow> xs ! i = xs ! j \<Longrightarrow> i = j"
  by (simp add: nth_eq_iff_index_eq)

lemma fold_inv:
  "P s \<Longrightarrow> (\<And>x s. x \<in> set xs \<Longrightarrow> P s \<Longrightarrow> P (f x s)) \<Longrightarrow> P (fold f xs s)"
  by (induction xs arbitrary: s) auto

text \<open>The Python slice \<open>xs[:k]\<close>; a negative bound counts from the end.\<close>

definition py_take :: "int \<Rightarrow> 'a list \<Rightarrow> 'a list" where
  "py_take k xs = (if k < 0 then take (nat (int (length xs) + k)) xs else take (nat k) xs)"

text \<open>Consecutive blocks of k elements, the last one possibly shorter.\<close>

function chunks :: "nat \<Rightarrow> 'a list \<Rightarrow> 'a list list" where
  "chunks k xs = (if xs = [] \<or> k = 0 then [] else take k xs # chunks k (drop k xs))"
  by pat_completeness auto
termination by (relation "measure (\<lambda>(k, xs). length xs)") auto

declare chunks.simps [simp del]

lemma chunks_Nil [simp]: "chunks k [] = []"
  by (simp add: chunks.simps)

lemma concat_chunks: "0 < k \<Longrightarrow> concat (chunks k xs) = xs"
proof (induction k xs rule: chunks.induct)
  case (1 k xs)
  then show ?case by (subst chunks.simps) auto
qed

lemma chunks_block_length:
  "0 < k \<Longrightarrow> k dvd length xs \<Longrightarrow> b \<in> set (chunks k xs) \<Longrightarrow> length b = k"
proof (induction k xs rule: chunks.induct)
  case (1 k xs)
  from "1.prems" have ne: "xs \<noteq> []" by auto
  then have le: "k \<le> length xs" using "1.prems"(2) by (auto intro: dvd_imp_le)
  from "1.prems"(3) ne "1.prems"(1) have "b = take k xs \<or> b \<in> set (chunks k (drop k xs))"
    by (subst (asm) chunks.simps) auto
  then show ?case using "1" ne le by auto
qed

end
