(* ===== verification/GF256.thy ===== *)
theory GF256
  imports Prelude
begin

unbundle bit_operations_syntax

text \<open>
  The arithmetic of GF(2^8) as \<open>src/automation/holographic_ida.py\<close> computes it: the exponential
  and logarithm tables filled by \<open>_init_tables\<close> (generator 3, modulus 0x11b), and the table
  look-ups \<open>_mul\<close> and \<open>_inv\<close>. The tables hold Python integers; field elements are bytes. The
  lemmas show that the table look-ups make the bytes a field, with XOR as addition; the type
  \<open>gf\<close> instantiates the library's \<open>field\<close> class with exactly these operations.
\<close>

section \<open>The tables\<close>

text \<open>One round of the first loop of \<open>_init_tables\<close>: store, then multiply by the generator.\<close>

definition times2 :: "int \<Rightarrow> int" where
  "times2 x = push_bit 1 x XOR (if x AND 0x80 \<noteq> 0 then 0x11B else 0)"

definition times3 :: "int \<Rightarrow> int" where
  "times3 x = x XOR times2 x"

definition table_step :: "nat \<Rightarrow> int \<times> int list \<times> int list \<Rightarrow> int \<times> int list \<times> int list" where
  "table_step i = (\<lambda>(x, ex, lg). (times3 x, ex[i := x], lg[nat x := int i]))"

definition init_tables :: "int list \<times> int list" where
  "init_tables =
     (let (x, ex, lg) = fold table_step [0..<255] (1, replicate 512 0, replicate 256 0)
      in (fold (\<lambda>i ex. ex[i := ex ! (i - 255)]) [255..<512] ex, lg))"

definition EXP :: "int list" where
  "EXP = fst init_tables"

definition LOG :: "int list" where
  "LOG = snd init_tables"

section \<open>Multiplication and inverse\<close>

definition gf_mul :: "byte \<Rightarrow> byte \<Rightarrow> byte" where
  "gf_mul a b =
     (if a = 0 \<or> b = 0 then 0
      else word_of_int (EXP ! nat (LOG ! unat a + LOG ! unat b)))"

definition gf_inv :: "byte \<Rightarrow> byte result" where
  "gf_inv a =
     (if a = 0 then Inl ZeroDivisionError
      else Inr (word_of_int (EXP ! nat (255 - LOG ! unat a))))"

section \<open>The powers of the generator\<close>

definition gpow :: "nat \<Rightarrow> int" where
  "gpow n = (times3 ^^ n) 1"

lemma gpow_0 [simp]: "gpow 0 = 1"
  by (simp add: gpow_def)

lemma gpow_Suc: "gpow (Suc n) = times3 (gpow n)"
  by (simp add: gpow_def)

text \<open>The two finite checks everything rests on: the kernel of \<open>times3\<close> and the order of 3.\<close>

lemma times3_range_check:
  "list_all (\<lambda>x. 0 \<le> times3 x \<and> times3 x < 256 \<and> (times3 x = 0 \<longrightarrow> x = 0)) [0..255]"
  by code_simp

fun orbit_ok :: "nat \<Rightarrow> int \<Rightarrow> bool" where
  "orbit_ok 0 x = (x = 1)"
| "orbit_ok (Suc n) x = (x \<noteq> 1 \<and> orbit_ok n (times3 x))"

lemma orbit_check: "orbit_ok 254 3"
  by code_simp


lemma times3_bounds: "0 \<le> x \<Longrightarrow> x < 256 \<Longrightarrow> 0 \<le> times3 x \<and> times3 x < 256"
  and times3_kernel: "0 \<le> x \<Longrightarrow> x < 256 \<Longrightarrow> times3 x = 0 \<Longrightarrow> x = 0"
  using times3_range_check unfolding list_all_iff set_upto by fastforce+

text \<open>Multiplication by the generator is linear over XOR.\<close>

lemma and_128_bit: "x AND 0x80 \<noteq> 0 \<longleftrightarrow> bit x 7" for x :: int
  using and_exp_eq_0_iff_not_bit [of x 7] by simp

lemma xor_cancel: "a XOR (a XOR b) = b" for a b :: int
  by (simp flip: xor.assoc)

lemma times2_xor: "times2 (x XOR y) = times2 x XOR times2 y"
  unfolding times2_def and_128_bit
  by (cases "bit x 7"; cases "bit y 7")
    (simp_all add: push_bit_xor bit_xor_iff xor.assoc xor.commute xor.left_commute xor_cancel)

lemma times3_xor: "times3 (x XOR y) = times3 x XOR times3 y"
  by (simp add: times3_def times2_xor xor.assoc xor.left_commute)

lemma times3_0 [simp]: "times3 0 = 0"
  by (simp add: times3_def times2_def)

lemma times3_pow_xor: "(times3 ^^ n) (x XOR y) = (times3 ^^ n) x XOR (times3 ^^ n) y"
  by (induction n) (auto simp: times3_xor)

lemma times3_pow_0 [simp]: "(times3 ^^ n) 0 = 0"
  by (induction n) auto

lemma times3_pow_gpow: "(times3 ^^ n) (gpow m) = gpow (n + m)"
  by (simp add: gpow_def funpow_add)

lemma times3_inj:
  assumes "0 \<le> x" "x < 256" "0 \<le> y" "y < 256" "times3 x = times3 y"
  shows "x = y"
proof -
  have "x XOR y < 2 ^ 8" by (rule XOR_upper) (use assms(1-4) in simp_all)
  moreover have "0 \<le> x XOR y" using assms(1,3) by simp
  moreover have "times3 (x XOR y) = 0" using assms(5) by (simp add: times3_xor)
  ultimately have "x XOR y = 0" using times3_kernel [of "x XOR y"] by simp
  then show ?thesis using xor_cancel [of x y] by simp
qed

lemma gpow_bounds: "0 < gpow n \<and> gpow n < 256"
proof (induction n)
  case (Suc n)
  then show ?case
    using times3_bounds [of "gpow n"] times3_kernel [of "gpow n"] by (fastforce simp: gpow_Suc)
qed simp

lemma gpow_cancel: "gpow (n + i) = gpow (n + j) \<Longrightarrow> gpow i = gpow j"
proof (induction n)
  case (Suc n)
  then have "times3 (gpow (n + i)) = times3 (gpow (n + j))" by (simp add: gpow_Suc)
  then have "gpow (n + i) = gpow (n + j)"
    using gpow_bounds [of "n + i"] gpow_bounds [of "n + j"] times3_inj by simp
  then show ?case by (rule Suc.IH)
qed simp

lemma orbit_ok_iff:
  "orbit_ok n (gpow m) \<longleftrightarrow> (\<forall>d. m \<le> d \<and> d < m + n \<longrightarrow> gpow d \<noteq> 1) \<and> gpow (m + n) = 1"
proof (induction n arbitrary: m)
  case (Suc n)
  have "orbit_ok (Suc n) (gpow m) \<longleftrightarrow> gpow m \<noteq> 1 \<and> orbit_ok n (gpow (Suc m))"
    by (simp add: gpow_Suc)
  also have "\<dots> \<longleftrightarrow> gpow m \<noteq> 1 \<and>
      (\<forall>d. Suc m \<le> d \<and> d < Suc m + n \<longrightarrow> gpow d \<noteq> 1) \<and> gpow (Suc m + n) = 1"
    by (simp add: Suc.IH)
  also have "\<dots> \<longleftrightarrow> (\<forall>d. m \<le> d \<and> d < m + Suc n \<longrightarrow> gpow d \<noteq> 1) \<and> gpow (m + Suc n) = 1"
    by (auto simp: Suc_le_eq) (metis le_neq_implies_less le_add1 less_Suc_eq_le)
  finally show ?case .
qed auto

lemma gpow_1: "gpow 1 = 3"
  by (simp add: gpow_def times3_def times2_def)

lemma gpow_orbit: "(\<forall>d. 1 \<le> d \<and> d < 1 + 254 \<longrightarrow> gpow d \<noteq> 1) \<and> gpow (1 + 254) = 1"
  by (rule orbit_ok_iff [THEN iffD1]) (simp only: gpow_1 orbit_check)

lemma gpow_order: "0 < d \<Longrightarrow> d < 255 \<Longrightarrow> gpow d \<noteq> 1"
  using gpow_orbit by (simp del: One_nat_def)

lemma gpow_255: "gpow 255 = 1"
  using gpow_orbit by simp

lemma gpow_period: "gpow (n + 255) = gpow n"
  by (metis add.right_neutral gpow_0 gpow_255 times3_pow_gpow)

lemma gpow_inj: "i < 255 \<Longrightarrow> j < 255 \<Longrightarrow> gpow i = gpow j \<Longrightarrow> i = j"
proof (induction i j rule: linorder_wlog)
  case (le i j)
  then have "gpow (i + 0) = gpow (i + (j - i))" by simp
  then have "gpow 0 = gpow (j - i)" by (rule gpow_cancel)
  then have "\<not> (0 < j - i \<and> j - i < 255)" using gpow_order by (metis gpow_0)
  with le show ?case by arith
qed metis

lemma gpow_image: "gpow ` {..<255} = {1..<256}"
proof (rule card_subset_eq)
  show "finite {1..<256::int}" by simp
  show "gpow ` {..<255} \<subseteq> {1..<256}"
  proof
    fix y
    assume "y \<in> gpow ` {..<255}"
    then obtain i where "y = gpow i" by blast
    then show "y \<in> {1..<256}" using gpow_bounds [of i] by simp
  qed
  have "inj_on gpow {..<255}"
  proof (rule inj_onI)
    fix i j
    assume "i \<in> {..<255::nat}" "j \<in> {..<255::nat}" "gpow i = gpow j"
    then show "i = j" using gpow_inj [of i j] by simp
  qed
  then show "card (gpow ` {..<255}) = card {1..<256::int}" by (simp add: card_image)
qed

section \<open>What the tables hold\<close>

lemma fold_table_step:
  assumes "length ex0 = 512" "length lg0 = 256"
  shows "n \<le> 255 \<Longrightarrow> fold table_step [0..<n] (1, ex0, lg0) = (x, ex, lg) \<Longrightarrow>
         x = gpow n \<and> length ex = 512 \<and> length lg = 256 \<and>
         (\<forall>i < n. ex ! i = gpow i \<and> lg ! nat (gpow i) = int i)"
proof (induction n arbitrary: x ex lg)
  case 0
  then show ?case using assms by simp
next
  case (Suc n)
  obtain y ex' lg' where st: "fold table_step [0..<n] (1, ex0, lg0) = (y, ex', lg')"
    by (metis prod_cases3)
  have "n \<le> 255" using Suc.prems(1) by simp
  note IH = Suc.IH [OF this st]
  have "fold table_step [0..<Suc n] (1, ex0, lg0) = table_step n (y, ex', lg')"
    by (simp only: upt_Suc_append le0 fold_append comp_def st fold_simps)
  with Suc.prems(2) have "table_step n (y, ex', lg') = (x, ex, lg)" by (simp only:)
  then have eqs: "x = times3 y" "ex = ex'[n := y]" "lg = lg'[nat y := int n]"
    by (simp_all add: table_step_def)
  have keep: "lg ! nat (gpow i) = int i" if "i < n" for i
  proof -
    have "gpow n \<noteq> gpow i" using gpow_inj [of n i] that Suc.prems(1) by auto
    then have "nat (gpow n) \<noteq> nat (gpow i)"
      using gpow_bounds [of n] gpow_bounds [of i] by (simp add: eq_nat_nat_iff)
    then show ?thesis using eqs(3) IH that by simp
  qed
  have new: "lg ! nat (gpow n) = int n"
    using eqs(3) IH gpow_bounds [of n] by (simp add: nat_less_iff)
  have "ex ! i = gpow i" if "i < Suc n" for i
    using eqs(2) IH that Suc.prems(1) by (cases "i = n") simp_all
  with keep new show ?case
    using eqs IH by (simp add: gpow_Suc less_Suc_eq)
qed

lemma fold_wrap:
  assumes "length ex = 512" "\<forall>i < 255. ex ! i = gpow i" "255 \<le> m" "m \<le> 512"
  shows "length (fold (\<lambda>i ex. ex[i := ex ! (i - 255)]) [255..<m] ex) = 512 \<and>
         (\<forall>i < m. fold (\<lambda>i ex. ex[i := ex ! (i - 255)]) [255..<m] ex ! i = gpow i)"
  using assms(3,4)
proof (induction m rule: dec_induct)
  case base
  then show ?case using assms(1,2) by simp
next
  case (step m)
  have "gpow (m - 255) = gpow m" using gpow_period [of "m - 255"] step(1) by simp
  with step show ?case by (auto simp: nth_list_update less_Suc_eq)
qed

lemma EXP_nth: "i < 512 \<Longrightarrow> EXP ! i = gpow i"
  and LOG_nth: "i < 255 \<Longrightarrow> LOG ! nat (gpow i) = int i"
proof -
  obtain x ex lg where st: "fold table_step [0..<255] (1, replicate 512 0, replicate 256 0) = (x, ex, lg)"
    by (metis prod_cases3)
  have "x = gpow 255 \<and> length ex = 512 \<and> length lg = 256 \<and>
         (\<forall>i < 255. ex ! i = gpow i \<and> lg ! nat (gpow i) = int i)"
    by (rule fold_table_step [OF _ _ _ st]) simp_all
  then have f: "length ex = 512" "\<forall>i < 255. ex ! i = gpow i" "\<forall>i < 255. lg ! nat (gpow i) = int i"
    by blast+
  have w: "\<forall>i < 512. fold (\<lambda>i ex. ex[i := ex ! (i - 255)]) [255..<512] ex ! i = gpow i"
    using fold_wrap [OF f(1,2), of 512] by (auto simp del: upt_rec_numeral)
  have "EXP = fold (\<lambda>i ex. ex[i := ex ! (i - 255)]) [255..<512] ex" and "LOG = lg"
    unfolding EXP_def LOG_def init_tables_def by (simp_all only: st Let_def prod.case fst_conv snd_conv)
  then show "i < 512 \<Longrightarrow> EXP ! i = gpow i" and "i < 255 \<Longrightarrow> LOG ! nat (gpow i) = int i"
    using f(3) w by (auto simp del: upt_rec_numeral)
qed

section \<open>The look-ups are field operations\<close>

lemma byte_gpow: "a \<noteq> 0 \<Longrightarrow> \<exists>i < 255. uint a = gpow i" for a :: byte
proof -
  assume "a \<noteq> 0"
  then have "uint a \<noteq> 0" by (simp add: unsigned_eq_0_iff)
  then have "0 < uint a" using uint_ge_0 [of a] by (simp only: less_le) simp
  moreover have "uint a < 256" using uint_bounded [of a] by simp
  ultimately have "uint a \<in> {1..<256}" by simp
  then show ?thesis using gpow_image by (metis imageE lessThan_iff)
qed

lemma uint_word_gpow [simp]: "uint (word_of_int (gpow n) :: byte) = gpow n"
  using gpow_bounds [of n] by (simp add: uint_word_of_int)

lemma gf_mul_gpow: "uint a = gpow i \<Longrightarrow> uint b = gpow j \<Longrightarrow> uint (gf_mul a b) = gpow (i + j)"
proof -
  assume ij: "uint a = gpow i" "uint b = gpow j"
  then have nz: "a \<noteq> 0" "b \<noteq> 0" using gpow_bounds by (metis less_irrefl unsigned_0)+
  obtain i' j' where i': "i' < 255" "uint a = gpow i'" and j': "j' < 255" "uint b = gpow j'"
    using byte_gpow nz by blast
  have "LOG ! unat a = int i'" "LOG ! unat b = int j'"
    using LOG_nth [OF i'(1)] LOG_nth [OF j'(1)] i'(2) j'(2) by (metis unat_eq_nat_uint)+
  then have "uint (gf_mul a b) = gpow (i' + j')"
    using nz i' j' by (simp add: gf_mul_def EXP_nth nat_add_distrib)
  also have "\<dots> = gpow (i + j)"
    using ij i' j' by (metis add.commute times3_pow_gpow)
  finally show ?thesis .
qed

lemma gf_mul_0 [simp]: "gf_mul a 0 = 0" "gf_mul 0 a = 0"
  by (simp_all add: gf_mul_def)

lemma gf_mul_linear: "uint b = gpow j \<Longrightarrow> uint (gf_mul a b) = (times3 ^^ j) (uint a)"
proof (cases "a = 0")
  case False
  assume j: "uint b = gpow j"
  obtain i where i: "uint a = gpow i" using byte_gpow False by blast
  show ?thesis using gf_mul_gpow [OF i j] i by (simp add: times3_pow_gpow add.commute)
qed simp

lemma gf_mul_eq_0: "gf_mul a b = 0 \<longleftrightarrow> a = 0 \<or> b = 0"
proof -
  have "gf_mul a b \<noteq> 0" if "a \<noteq> 0" "b \<noteq> 0"
    using byte_gpow [OF that(1)] byte_gpow [OF that(2)] gf_mul_gpow gpow_bounds
    by (metis less_irrefl unsigned_0)
  then show ?thesis by auto
qed

lemma gf_mul_commute: "gf_mul a b = gf_mul b a"
  by (simp add: gf_mul_def add.commute)

lemma gf_mul_assoc: "gf_mul (gf_mul a b) c = gf_mul a (gf_mul b c)"
proof (cases "a = 0 \<or> b = 0 \<or> c = 0")
  case False
  then obtain i j k where "uint a = gpow i" "uint b = gpow j" "uint c = gpow k"
    using byte_gpow by metis
  then have "uint (gf_mul (gf_mul a b) c) = uint (gf_mul a (gf_mul b c))"
    by (simp add: gf_mul_gpow [where i = "i + j" and j = k] gf_mul_gpow [where i = i and j = "j + k"]
        gf_mul_gpow [where i = i and j = j] gf_mul_gpow [where i = j and j = k] add.assoc)
  then show ?thesis by (rule word_uint_eq_iff [THEN iffD2])
qed auto

lemma gf_mul_1 [simp]: "gf_mul 1 a = a"
proof (cases "a = 0")
  case False
  then obtain i where "uint a = gpow i" using byte_gpow by blast
  then have "uint (gf_mul 1 a) = uint a" using gf_mul_gpow [of 1 0 a i] by simp
  then show ?thesis by (rule word_uint_eq_iff [THEN iffD2])
qed simp

lemma gf_mul_xor: "gf_mul (a XOR b) c = gf_mul a c XOR gf_mul b c"
proof (cases "c = 0")
  case False
  then obtain j where j: "uint c = gpow j" using byte_gpow by blast
  have "uint (gf_mul (a XOR b) c) = uint (gf_mul a c XOR gf_mul b c)"
    by (simp add: gf_mul_linear [OF j] times3_pow_xor unsigned_xor_eq)
  then show ?thesis by (rule word_uint_eq_iff [THEN iffD2])
qed simp

lemma gf_inv_correct: "a \<noteq> 0 \<Longrightarrow> \<exists>b. gf_inv a = Inr b \<and> gf_mul b a = 1"
proof -
  assume nz: "a \<noteq> 0"
  then obtain i where i: "i < 255" "uint a = gpow i" using byte_gpow by blast
  then have "LOG ! unat a = int i" using LOG_nth by (metis unat_eq_nat_uint)
  moreover have "nat (255 - int i) = 255 - i" using i(1) by simp
  ultimately have inv: "gf_inv a = Inr (word_of_int (gpow (255 - i)))"
    using nz i(1) by (simp add: gf_inv_def EXP_nth)
  have "uint (gf_mul (word_of_int (gpow (255 - i))) a) = gpow (255 - i + i)"
    by (rule gf_mul_gpow) (use i in simp_all)
  then have "gf_mul (word_of_int (gpow (255 - i))) a = 1"
    using i(1) by (simp add: gpow_255 word_uint_eq_iff)
  with inv show ?thesis by blast
qed

section \<open>The field type\<close>

text \<open>
  \<open>gf\<close> is the type of bytes with the field operations of the module: XOR as addition (every
  element is its own negative), \<open>gf_mul\<close> as multiplication and \<open>gf_inv\<close> as inverse.
\<close>

typedef gf = "UNIV :: byte set" morphisms byte_of gf_of
  by simp

setup_lifting type_definition_gf

definition inv_or_0 :: "byte \<Rightarrow> byte" where
  "inv_or_0 a = (case gf_inv a of Inl _ \<Rightarrow> 0 | Inr b \<Rightarrow> b)"

lemma inv_or_0_left: "a \<noteq> 0 \<Longrightarrow> gf_mul (inv_or_0 a) a = 1"
  using gf_inv_correct [of a] by (auto simp: inv_or_0_def)

instantiation gf :: field
begin

lift_definition zero_gf :: gf is 0 .
lift_definition one_gf :: gf is 1 .
lift_definition plus_gf :: "gf \<Rightarrow> gf \<Rightarrow> gf" is "\<lambda>a b. a XOR b" .
lift_definition minus_gf :: "gf \<Rightarrow> gf \<Rightarrow> gf" is "\<lambda>a b. a XOR b" .
lift_definition uminus_gf :: "gf \<Rightarrow> gf" is "\<lambda>a. a" .
lift_definition times_gf :: "gf \<Rightarrow> gf \<Rightarrow> gf" is gf_mul .
lift_definition inverse_gf :: "gf \<Rightarrow> gf" is inv_or_0 .
lift_definition divide_gf :: "gf \<Rightarrow> gf \<Rightarrow> gf" is "\<lambda>a b. gf_mul a (inv_or_0 b)" .

instance
proof
  fix a b c :: gf
  show "a * b * c = a * (b * c)" by transfer (rule gf_mul_assoc)
  show "a * b = b * a" by transfer (rule gf_mul_commute)
  show "1 * a = a" by transfer simp
  show "a + b + c = a + (b + c)" by transfer (rule xor.assoc)
  show "a + b = b + a" by transfer (rule xor.commute)
  show "0 + a = a" by transfer simp
  show "- a + a = 0" by transfer simp
  show "a - b = a + - b" by transfer simp
  show "(a + b) * c = a * c + b * c" by transfer (rule gf_mul_xor)
  show "(0::gf) \<noteq> 1" by transfer simp
  show "a \<noteq> 0 \<Longrightarrow> inverse a * a = 1" by transfer (rule inv_or_0_left)
  show "a div b = a * inverse b" by transfer simp
  show "inverse (0::gf) = 0" by transfer (simp add: inv_or_0_def gf_inv_def)
qed

end

lemma gf_of_inject [simp]: "gf_of a = gf_of b \<longleftrightarrow> a = b"
  by (simp add: gf_of_inject)

lemma byte_of_gf_of [simp]: "byte_of (gf_of a) = a"
  by (simp add: gf_of_inverse)

lemma gf_of_byte_of [simp]: "gf_of (byte_of x) = x"
  by (simp add: byte_of_inverse)

lemma gf_of_hom:
  "gf_of 0 = 0" "gf_of 1 = 1" "gf_of (a XOR b) = gf_of a + gf_of b"
  "gf_of (gf_mul a b) = gf_of a * gf_of b"
  by (simp_all add: zero_gf.abs_eq one_gf.abs_eq plus_gf.abs_eq times_gf.abs_eq)

lemma gf_of_eq_0 [simp]: "gf_of a = 0 \<longleftrightarrow> a = 0"
  by (simp flip: gf_of_hom(1))

lemma gf_inv_hom: "a \<noteq> 0 \<Longrightarrow> gf_inv a = Inr (byte_of (inverse (gf_of a)))"
  using gf_inv_correct [of a] by (auto simp: inverse_gf.abs_eq inv_or_0_def)

lemma gf_self_add [simp]: "x + x = (0::gf)"
  by transfer simp

lemma gf_minus_eq: "x - y = (x + y :: gf)"
  by transfer simp

section \<open>The table product is the AES product\<close>

text \<open>
  The reference product: carry-less multiplication modulo \<open>0x11b\<close>, by doubling on eight bits.
\<close>

definition xtime :: "byte \<Rightarrow> byte" where
  "xtime a = push_bit 1 a XOR (if bit a 7 then 0x1B else 0)"

definition aes_mul :: "byte \<Rightarrow> byte \<Rightarrow> byte" where
  "aes_mul a b = fold (\<lambda>i acc. if bit b i then acc XOR (xtime ^^ i) a else acc) [0..<8] 0"

definition bit_sum :: "byte \<Rightarrow> byte" where
  "bit_sum b = fold (\<lambda>i acc. if bit b i then acc XOR push_bit i 1 else acc) [0..<8] 0"

lemma xtime_check: "list_all (\<lambda>n. uint (xtime (word_of_nat n)) = times2 (int n)) [0..<256]"
  by code_simp

lemma xtime_push_bit_check:
  "list_all (\<lambda>i. push_bit (Suc i) 1 = xtime (push_bit i (1::byte))) [0..<7]"
  by code_simp

lemma list_all_byteD:
  assumes "list_all (\<lambda>n. P (word_of_nat n :: byte)) [0..<256]" shows "P b"
proof (rule byte_induct_range)
  show "\<forall>n<256. P (word_of_nat n)"
    using assms unfolding list_all_iff set_upt by (simp add: atLeast0LessThan)
qed

lemma uint_xtime: "uint (xtime a) = times2 (uint a)"
proof (rule list_all_byteD [of "\<lambda>a. uint (xtime a) = times2 (uint a)"])
  have "int n = uint (word_of_nat n :: byte)" if "n < 256" for n
    using that by (simp add: unsigned_of_nat take_bit_eq_mod)
  with xtime_check show "list_all (\<lambda>n. uint (xtime (word_of_nat n)) = times2 (uint (word_of_nat n :: byte))) [0..<256]"
    by (simp add: list_all_iff del: upt_rec_numeral)
qed

lemma bit_sum_prefix:
  "fold (\<lambda>i acc. if bit b i then acc XOR push_bit i 1 else acc) [0..<m] 0 = take_bit m (b::byte)"
proof (induction m)
  case (Suc m)
  have "take_bit (Suc m) b = (if bit b m then take_bit m b XOR push_bit m 1 else take_bit m b)"
    by (rule bit_eqI)
      (auto simp: bit_take_bit_iff bit_xor_iff bit_exp_iff less_Suc_eq)
  with Suc show ?case by simp
qed simp

lemma bit_sum: "bit_sum b = b"
  unfolding bit_sum_def bit_sum_prefix by (rule take_bit_word_eq_self) simp

lemma gf_mul_2: "gf_mul a 2 = xtime a"
proof -
  have "uint (gf_mul a 3) = times3 (uint a)"
    using gf_mul_linear [of 3 1 a] gpow_1 by simp
  then have "uint (gf_mul a 3 XOR a) = times2 (uint a)"
    by (simp add: unsigned_xor_eq times3_def xor.assoc xor.commute xor.left_commute)
  moreover have "gf_mul a 2 = gf_mul a 3 XOR a"
  proof -
    have "(2::byte) = 3 XOR 1" by simp
    then show ?thesis by (metis gf_mul_xor gf_mul_commute gf_mul_1)
  qed
  ultimately show ?thesis by (metis uint_xtime word_uint_eq_iff)
qed

lemma gf_mul_push_bit: "i < 8 \<Longrightarrow> gf_mul a (push_bit i 1) = (xtime ^^ i) a"
proof (induction i)
  case 0
  then show ?case by (simp add: gf_mul_commute [of a])
next
  case (Suc i)
  have "push_bit (Suc i) 1 = xtime (push_bit i (1::byte))"
    using Suc.prems xtime_push_bit_check by (simp add: list_all_iff del: upt_rec_numeral)
  then have "gf_mul a (push_bit (Suc i) 1) = gf_mul (gf_mul a (push_bit i 1)) 2"
    by (simp add: gf_mul_2 [symmetric] gf_mul_assoc)
  with Suc show ?case by (simp add: gf_mul_2)
qed

lemma gf_mul_bits:
  "\<forall>i \<in> set is. i < 8 \<Longrightarrow>
     gf_mul a (fold (\<lambda>i acc. if bit b i then acc XOR push_bit i 1 else acc) is acc)
     = fold (\<lambda>i acc. if bit b i then acc XOR (xtime ^^ i) a else acc) is (gf_mul a acc)"
proof (induction "is" arbitrary: acc)
  case (Cons i "is")
  have "gf_mul a (acc XOR push_bit i 1) = gf_mul a acc XOR (xtime ^^ i) a"
    using Cons.prems gf_mul_push_bit [of i a] by (metis gf_mul_xor gf_mul_commute list.set_intros(1))
  with Cons show ?case by simp
qed simp

lemma gf_mul_aes: "gf_mul a b = aes_mul a b"
proof -
  have "gf_mul a (bit_sum b) = aes_mul a b"
    unfolding bit_sum_def aes_mul_def by (subst gf_mul_bits) simp_all
  then show ?thesis by (simp add: bit_sum)
qed

end
