(* ===== verification/Poly_Interpolation.thy ===== *)
theory Poly_Interpolation
  imports Prelude
begin

text \<open>
  Polynomials over a field as coefficient lists, lowest degree first, the way the dispersal code
  keeps a data block. The theory proves what any interpolation code relies on: a polynomial with
  fewer coefficients than it has distinct roots is zero, so two coefficient lists of length k that
  agree at k distinct points are equal.
\<close>

fun peval :: "'a::field list \<Rightarrow> 'a \<Rightarrow> 'a" where
  "peval [] x = 0"
| "peval (c # cs) x = c + x * peval cs x"

text \<open>Synthetic division by \<open>x - a\<close>.\<close>

fun synth :: "'a::field \<Rightarrow> 'a list \<Rightarrow> 'a list" where
  "synth a [] = []"
| "synth a [c] = []"
| "synth a (c # d # cs) = peval (d # cs) a # synth a (d # cs)"

lemma length_synth [simp]: "length (synth a p) = length p - 1"
  by (induction a p rule: synth.induct) auto

lemma peval_synth: "peval p x = peval p a + (x - a) * peval (synth a p) x"
proof (induction a p rule: synth.induct)
  case (3 a c d cs)
  have "peval (c # d # cs) x = c + x * (peval (d # cs) a + (x - a) * peval (synth a (d # cs)) x)"
    using "3" by simp
  also have "\<dots> = c + a * peval (d # cs) a
      + (x - a) * (peval (d # cs) a + x * peval (synth a (d # cs)) x)"
    by (simp only: algebra_simps)
  also have "\<dots> = peval (c # d # cs) a + (x - a) * peval (synth a (c # d # cs)) x"
    by (simp only: synth.simps peval.simps)
  finally show ?case .
qed simp_all

lemma synth_zero: "peval p a = 0 \<Longrightarrow> \<forall>c \<in> set (synth a p). c = 0 \<Longrightarrow> \<forall>c \<in> set p. c = 0"
  by (induction a p rule: synth.induct) auto

lemma roots_bound:
  assumes "distinct rs" "length p \<le> length rs" "\<forall>r \<in> set rs. peval p r = 0"
  shows "\<forall>c \<in> set p. c = 0"
  using assms
proof (induction rs arbitrary: p)
  case (Cons r rs)
  have "peval (synth r p) s = 0" if "s \<in> set rs" for s
  proof -
    have "s \<noteq> r" using that Cons.prems(1) by auto
    moreover have "(s - r) * peval (synth r p) s = 0"
      using peval_synth [of p s r] Cons.prems(3) that by simp
    ultimately show ?thesis by simp
  qed
  then have "\<forall>c \<in> set (synth r p). c = 0"
    using Cons.prems(1,2) by (intro Cons.IH) auto
  then show ?case by (rule synth_zero [rotated]) (use Cons.prems(3) in simp)
qed simp

lemma peval_minus:
  "length p = length q \<Longrightarrow> peval (map2 (-) p q) x = peval p x - peval q x"
proof (induction p q rule: list_induct2)
  case (Cons a p b q)
  have "peval (map2 (-) (a # p) (b # q)) x = (a - b) + x * (peval p x - peval q x)"
    using Cons.IH by simp
  then show ?case by (simp add: algebra_simps)
qed simp

theorem coeffs_unique:
  assumes "length p = length q" "length p \<le> length xs" "distinct xs"
    and "\<forall>x \<in> set xs. peval p x = peval q x"
  shows "p = q"
proof -
  have "\<forall>c \<in> set (map2 (-) p q). c = 0"
    by (rule roots_bound [of xs]) (use assms in \<open>auto simp: peval_minus\<close>)
  with assms(1) show ?thesis
    by (induction p q rule: list_induct2) auto
qed

lemma peval_append: "peval (p @ q) x = peval p x + x ^ length p * peval q x"
  by (induction p) (auto simp: algebra_simps)

lemma peval_replicate_0 [simp]: "peval (replicate n 0) x = 0"
  by (induction n) auto

lemma peval_update:
  "i < length p \<Longrightarrow> peval (p[i := c]) x = peval p x + (c - p ! i) * x ^ i"
proof (induction p arbitrary: i)
  case (Cons a p)
  show ?case
  proof (cases i)
    case (Suc j)
    with Cons have "peval ((a # p)[i := c]) x = a + x * (peval p x + (c - p ! j) * x ^ j)"
      by simp
    with Suc show ?thesis by (simp add: algebra_simps)
  qed simp
qed simp

lemma peval_sum: "peval p x = (\<Sum>i<length p. p ! i * x ^ i)"
proof (induction p)
  case (Cons a p)
  then show ?case
    by (simp del: sum.lessThan_Suc add: sum_distrib_left sum.lessThan_Suc_shift ac_simps)
qed simp

end
