(* ===== verification/Py_Text.thy ===== *)
theory Py_Text
  imports Prelude
begin

text \<open>
  Text the way the modules build it: decimal numerals as \<open>str(int)\<close> prints them, hexadecimal
  digests, UTF-8 encoding, prefixes. Strings are lists of 8-bit characters, so text outside
  Latin-1 is not represented. The lemmas that matter later are the injectivity ones: different
  indices, digests and names give different keys.
\<close>

section \<open>Decimal numerals\<close>

definition digit_char :: "nat \<Rightarrow> char" where
  "digit_char d = char_of (48 + d)"

fun nat_str :: "nat \<Rightarrow> string" where
  "nat_str n = (if n < 10 then [digit_char n] else nat_str (n div 10) @ [digit_char (n mod 10)])"

declare nat_str.simps [simp del]

definition int_str :: "int \<Rightarrow> string" where
  "int_str i = (if i < 0 then CHR ''-'' # nat_str (nat (- i)) else nat_str (nat i))"

definition is_digit :: "char \<Rightarrow> bool" where
  "is_digit c \<longleftrightarrow> 48 \<le> (of_char c :: nat) \<and> (of_char c :: nat) \<le> 57"

definition digit_val :: "char \<Rightarrow> nat" where
  "digit_val c = of_char c - 48"

definition str_nat :: "string \<Rightarrow> nat" where
  "str_nat s = foldl (\<lambda>a c. 10 * a + digit_val c) 0 s"

lemma digit_val_char [simp]: "d < 10 \<Longrightarrow> digit_val (digit_char d) = d"
  by (simp add: digit_val_def digit_char_def)

lemma is_digit_char [simp]: "d < 10 \<Longrightarrow> is_digit (digit_char d)"
  by (simp add: is_digit_def digit_char_def)

lemma str_nat_str [simp]: "str_nat (nat_str n) = n"
proof (induction n rule: nat_str.induct)
  case (1 n)
  then show ?case by (subst nat_str.simps) (simp add: str_nat_def)
qed

lemma nat_str_inj [simp]: "nat_str m = nat_str n \<longleftrightarrow> m = n"
  by (metis str_nat_str)

lemma nat_str_digits: "c \<in> set (nat_str n) \<Longrightarrow> is_digit c"
proof (induction n rule: nat_str.induct)
  case (1 n)
  then show ?case by (subst (asm) (2) nat_str.simps) (auto split: if_splits)
qed

lemma nat_str_nonempty [simp]: "nat_str n \<noteq> []"
  by (subst nat_str.simps) simp

lemma nat_str_hd: "hd (nat_str n) = digit_char 0 \<Longrightarrow> n = 0"
proof (induction n rule: nat_str.induct)
  case (1 n)
  show ?case
  proof (cases "n < 10")
    case True
    then have "digit_char n = digit_char 0" using "1.prems" by (subst (asm) nat_str.simps) simp
    then have "digit_val (digit_char n) = digit_val (digit_char 0)" by simp
    then show ?thesis using True by simp
  next
    case False
    then have "hd (nat_str n) = hd (nat_str (n div 10))" by (subst nat_str.simps) (simp add: hd_append)
    with "1" False have "n div 10 = 0" by simp
    with False show ?thesis by simp
  qed
qed

lemma nat_str_0: "nat_str 0 = ''0''"
  by (subst nat_str.simps) (simp add: digit_char_def char_of_def bit_iff_odd)

lemma int_str_inj [simp]: "int_str i = int_str j \<longleftrightarrow> i = j"
proof -
  have "\<not> is_digit (CHR ''-'')" by (simp add: is_digit_def)
  then have "CHR ''-'' # s \<noteq> nat_str n" for s n
    using nat_str_digits [of "CHR ''-''" n] by (metis list.set_intros(1))
  then show ?thesis by (auto simp: int_str_def dest: sym split: if_splits)
qed

section \<open>Hexadecimal digests\<close>

definition hex_digit :: "nat \<Rightarrow> char" where
  "hex_digit n = (if n < 10 then digit_char n else char_of (87 + n))"

definition hex_val :: "char \<Rightarrow> nat option" where
  "hex_val c =
     (let n = of_char c in
      if 48 \<le> n \<and> n \<le> 57 then Some (n - 48)
      else if 97 \<le> n \<and> n \<le> 102 then Some (n - 87)
      else if 65 \<le> n \<and> n \<le> 70 then Some (n - 55)
      else None)"

lemma hex_val_digit [simp]: "n < 16 \<Longrightarrow> hex_val (hex_digit n) = Some n"
  by (auto simp: hex_val_def hex_digit_def digit_char_def Let_def)

definition byte_hex :: "byte \<Rightarrow> string" where
  "byte_hex b = [hex_digit (unat b div 16), hex_digit (unat b mod 16)]"

definition hex :: "bytes \<Rightarrow> string" where
  "hex bs = concat (map byte_hex bs)"

lemma unat_byte_less: "unat (b :: byte) < 256"
proof -
  have "unat b < 2 ^ LENGTH(8)" by (rule unsigned_less)
  then show ?thesis by simp
qed

lemma byte_hex_inj: "byte_hex a = byte_hex b \<Longrightarrow> a = b"
proof -
  assume *: "byte_hex a = byte_hex b"
  have a: "unat a < 256" and b: "unat b < 256"
    using unsigned_less [of a] unsigned_less [of b] by simp_all
  then have "unat a div 16 < 16" "unat b div 16 < 16" by simp_all
  with * have "unat a div 16 = unat b div 16" "unat a mod 16 = unat b mod 16"
    by (auto simp: byte_hex_def) (metis hex_val_digit option.inject, metis hex_val_digit mod_less_divisor option.inject zero_less_numeral)
  then have "unat a = unat b" by (metis div_mod_decomp)
  then show ?thesis by (rule word_unat_eq_iff [THEN iffD2])
qed

lemma hex_inj [simp]: "hex a = hex b \<longleftrightarrow> a = b"
proof
  show "hex a = hex b \<Longrightarrow> a = b"
  proof (induction a arbitrary: b)
    case Nil
    then show ?case by (cases b) (auto simp: hex_def byte_hex_def)
  next
    case (Cons x a)
    then obtain y b' where b: "b = y # b'" by (cases b) (auto simp: hex_def byte_hex_def)
    with Cons.prems have "byte_hex x = byte_hex y" "hex a = hex b'"
      by (auto simp: hex_def byte_hex_def)
    with Cons.IH b show ?case using byte_hex_inj by blast
  qed
qed simp

lemma hex_chars: "c \<in> set (hex bs) \<Longrightarrow> hex_val c \<noteq> None"
proof -
  assume "c \<in> set (hex bs)"
  then obtain b where "c \<in> set (byte_hex b)" by (auto simp: hex_def)
  then have "c = hex_digit (unat b div 16) \<or> c = hex_digit (unat b mod 16)"
    by (simp add: byte_hex_def)
  moreover have "unat b div 16 < 16" using unat_byte_less [of b] by simp
  ultimately show ?thesis by auto
qed

text \<open>\<open>hashlib.sha256(b).hexdigest()\<close>, with the hash itself a parameter.\<close>

definition hexdigest :: "(bytes \<Rightarrow> bytes) \<Rightarrow> bytes \<Rightarrow> string" where
  "hexdigest sha b = hex (sha b)"

section \<open>UTF-8\<close>

definition utf8_char :: "char \<Rightarrow> bytes" where
  "utf8_char c =
     (let n = of_char c in
      if n < 128 then [word_of_nat n] else [word_of_nat (192 + n div 64), word_of_nat (128 + n mod 64)])"

definition utf8 :: "string \<Rightarrow> bytes" where
  "utf8 s = concat (map utf8_char s)"

fun utf8_decode :: "bytes \<Rightarrow> string option" where
  "utf8_decode [] = Some []"
| "utf8_decode (a # bs) =
     (if unat a < 128 then map_option ((#) (char_of (unat a))) (utf8_decode bs)
      else case bs of
        [] \<Rightarrow> None
      | b # bs' \<Rightarrow>
          if (unat a = 194 \<or> unat a = 195) \<and> 128 \<le> unat b \<and> unat b < 192
          then map_option ((#) (char_of ((unat a - 192) * 64 + (unat b - 128)))) (utf8_decode bs')
          else None)"

lemma of_char_less: "of_char c < (256::nat)"
  by (metis of_char_mod_256 mod_less_divisor zero_less_numeral)

lemma unat_small: "n < 256 \<Longrightarrow> unat (word_of_nat n :: byte) = n"
  by (simp add: unsigned_of_nat take_bit_eq_mod)

lemma utf8_decode_char: "utf8_decode (utf8_char c @ bs) = map_option ((#) c) (utf8_decode bs)"
proof (cases "(of_char c :: nat) < 128")
  case True
  then show ?thesis by (simp add: utf8_char_def unat_small)
next
  case False
  define n where "n = (of_char c :: nat)"
  define a where "a = (word_of_nat (192 + n div 64) :: byte)"
  define b where "b = (word_of_nat (128 + n mod 64) :: byte)"
  have n: "n < 256" "\<not> n < 128" using of_char_less False by (simp_all add: n_def)
  then have "2 \<le> n div 64" "n div 64 < 4"
    by (simp_all add: less_eq_div_iff_mult_less_eq div_less_iff_less_mult)
  then have d: "n div 64 = 2 \<or> n div 64 = 3" by linarith
  have a: "unat a = 192 + n div 64" unfolding a_def by (rule unat_small) (use d in auto)
  have m: "n mod 64 < 64" by simp
  have b: "unat b = 128 + n mod 64" unfolding b_def by (rule unat_small) (use m in linarith)
  have c: "char_of ((unat a - 192) * 64 + (unat b - 128)) = c" unfolding a b by (simp add: n_def)
  have cond: "(unat a = 194 \<or> unat a = 195) \<and> 128 \<le> unat b \<and> unat b < 192" "\<not> unat a < 128"
    unfolding a b using d m by auto
  have "utf8_char c = [a, b]" using n(2) by (simp add: utf8_char_def Let_def a_def b_def n_def [symmetric])
  then have "utf8_decode (utf8_char c @ bs) = utf8_decode (a # b # bs)" by simp
  also have "\<dots> = map_option ((#) (char_of ((unat a - 192) * 64 + (unat b - 128)))) (utf8_decode bs)"
    using cond by (simp only: utf8_decode.simps list.case if_True if_False simp_thms)
  finally show ?thesis unfolding c .
qed

lemma utf8_decode_utf8 [simp]: "utf8_decode (utf8 s @ bs) = map_option (\<lambda>t. s @ t) (utf8_decode bs)"
proof (induction s)
  case Nil
  then show ?case by (simp add: utf8_def option.map_ident)
next
  case (Cons c s)
  then show ?case by (simp add: utf8_def utf8_decode_char option.map_comp comp_def)
qed

lemma utf8_decode_utf8_all [simp]: "utf8_decode (utf8 s) = Some s"
  using utf8_decode_utf8 [of s "[]"] by simp

lemma utf8_inj [simp]: "utf8 s = utf8 t \<longleftrightarrow> s = t"
  by (metis option.inject utf8_decode_utf8_all)

section \<open>Prefixes\<close>

definition startswith :: "string \<Rightarrow> string \<Rightarrow> bool" where
  "startswith s p \<longleftrightarrow> take (length p) s = p"

lemma startswith_append [simp]: "startswith (p @ s) p"
  by (simp add: startswith_def)

end
