(* ===== verification/Holographic_IDA.thy ===== *)
theory Holographic_IDA
  imports GF256 Poly_Interpolation Py_Text
begin

unbundle bit_operations_syntax

text \<open>
  \<open>automation/holographic_ida.py\<close>: Rabin's information dispersal over GF(256). A leaf is cut into
  blocks of k bytes, each the coefficients of a polynomial, and fragment x holds the values of the
  polynomials at x. The theory proves that any k fragments give the leaf back, byte for byte.
  Evaluation points are bytes, the symbols of the field; the hash function is a parameter \<open>sha\<close>.
\<close>

section \<open>The code\<close>

definition eval_poly :: "bytes \<Rightarrow> byte \<Rightarrow> byte" where
  "eval_poly coeffs x = fold (\<lambda>c acc. gf_mul acc x XOR c) (rev coeffs) 0"

definition poly_mul_row :: "nat \<Rightarrow> byte \<Rightarrow> bytes \<Rightarrow> bytes \<Rightarrow> bytes" where
  "poly_mul_row i ai b out =
     fold (\<lambda>(j, bj) out. out[i + j := out ! (i + j) XOR gf_mul ai bj]) (enumerate 0 b) out"

definition poly_mul :: "bytes \<Rightarrow> bytes \<Rightarrow> bytes" where
  "poly_mul a b =
     fold (\<lambda>(i, ai) out. if ai = 0 then out else poly_mul_row i ai b out) (enumerate 0 a)
       (replicate (length a + length b - 1) 0)"

definition lagrange_step :: "bytes \<Rightarrow> nat \<Rightarrow> nat \<Rightarrow> bytes \<times> byte \<Rightarrow> bytes \<times> byte" where
  "lagrange_step xs i j = (\<lambda>(num, denom).
     if j = i then (num, denom)
     else (poly_mul num [xs ! j, 1], gf_mul denom (xs ! i XOR xs ! j)))"

definition add_scaled :: "byte \<Rightarrow> bytes \<Rightarrow> bytes \<Rightarrow> bytes" where
  "add_scaled scale num coeffs =
     fold (\<lambda>d coeffs. coeffs[d := coeffs ! d XOR gf_mul (num ! d) scale]) [0..<length num] coeffs"

definition interpolate_step :: "bytes \<Rightarrow> bytes \<Rightarrow> nat \<Rightarrow> bytes \<Rightarrow> bytes result" where
  "interpolate_step xs ys i coeffs =
     (let (num, denom) = fold (lagrange_step xs i) [0..<length xs] ([1], 1) in
      if length ys \<le> i then Inl IndexError
      else rbind (gf_inv denom) (\<lambda>inv. Inr (add_scaled (gf_mul (ys ! i) inv) num coeffs)))"

definition interpolate_coeffs :: "bytes \<Rightarrow> bytes \<Rightarrow> bytes result" where
  "interpolate_coeffs xs ys =
     rfold (interpolate_step xs ys) [0..<length xs] (replicate (length xs) 0)"

record Dispersal =
  d_k :: int
  d_n :: int
  d_orig_len :: int
  d_xs :: "byte list"
  d_fragments :: "(byte, bytes) dict"

definition merkle_root :: "(bytes \<Rightarrow> bytes) \<Rightarrow> bytes \<Rightarrow> string" where
  "merkle_root sha leaf = ''sha256:'' @ hexdigest sha leaf"

definition append_fragment :: "byte \<Rightarrow> byte \<Rightarrow> (byte, bytes) dict \<Rightarrow> (byte, bytes) dict" where
  "append_fragment x v frags = dset frags x (dgetdef frags x [] @ [v])"

definition dispersal_points :: "int \<Rightarrow> byte list option \<Rightarrow> byte list" where
  "dispersal_points n xs = (case xs of Some ps \<Rightarrow> ps | None \<Rightarrow> map word_of_nat [1..<nat (n + 1)])"

definition disperse :: "bytes \<Rightarrow> int \<Rightarrow> int \<Rightarrow> byte list option \<Rightarrow> Dispersal result" where
  "disperse leaf k n xs =
     (if \<not> (1 \<le> k \<and> k \<le> n \<and> n \<le> 255) then Inl ValueError
      else
        let points = dispersal_points n xs in
        if int (length points) \<noteq> n \<or> int (card (set points)) \<noteq> n \<or> (\<exists>p \<in> set points. p = 0)
        then Inl ValueError
        else
          let pad = (- int (length leaf)) mod k;
              data = leaf @ replicate (nat pad) 0;
              frags = fold (\<lambda>block frags. fold (\<lambda>x. append_fragment x (eval_poly block x)) points frags)
                        (chunks (nat k) data) (map (\<lambda>x. (x, [])) points)
          in Inr \<lparr>d_k = k, d_n = n, d_orig_len = int (length leaf), d_xs = points,
                  d_fragments = frags\<rparr>)"

definition fragment_byte :: "(byte, bytes) dict \<Rightarrow> nat \<Rightarrow> byte \<Rightarrow> byte result" where
  "fragment_byte fragments pos x =
     (let f = dgetdef fragments x [] in if pos < length f then Inr (f ! pos) else Inl IndexError)"

definition reconstruct :: "(byte, bytes) dict \<Rightarrow> int \<Rightarrow> int \<Rightarrow> bytes result" where
  "reconstruct fragments k orig_len =
     (let xs = sort (dkeys fragments) in
      if int (length xs) < k then Inl ValueError
      else
        let xs = py_take k xs in
        case xs of
          [] \<Rightarrow> Inl IndexError
        | x0 # _ \<Rightarrow>
            rbind (rfold
               (\<lambda>pos out. rbind (rmap (fragment_byte fragments pos) xs)
                  (\<lambda>ys. rbind (interpolate_coeffs xs ys) (\<lambda>c. Inr (out @ c))))
               [0..<length (dgetdef fragments x0 [])] [])
              (\<lambda>out. Inr (py_take orig_len out)))"

section \<open>Polynomial routines compute in the field\<close>

text \<open>A byte list read as a coefficient list over the field.\<close>

definition gfs :: "bytes \<Rightarrow> gf list" where
  "gfs bs = map gf_of bs"

lemma gfs_simps [simp]:
  "gfs [] = []" "gfs (b # bs) = gf_of b # gfs bs" "length (gfs bs) = length bs"
  "gfs bs = gfs cs \<longleftrightarrow> bs = cs"
  by (auto simp: gfs_def inj_map_eq_map inj_def)

lemma gfs_nth [simp]: "i < length bs \<Longrightarrow> gfs bs ! i = gf_of (bs ! i)"
  by (simp add: gfs_def)

lemma gfs_update: "gfs (bs[i := b]) = (gfs bs)[i := gf_of b]"
  by (simp add: gfs_def map_update)

lemma gfs_zeros [simp]: "gfs (replicate n 0) = replicate n 0"
  by (simp add: gfs_def gf_of_hom)

lemma eval_poly_peval: "gf_of (eval_poly cs x) = peval (gfs cs) (gf_of x)"
  by (induction cs) (simp_all add: eval_poly_def gf_of_hom ac_simps)

lemma peval_xor_update:
  assumes "i < length out"
  shows "peval (gfs (out[i := out ! i XOR v])) x = peval (gfs out) x + gf_of v * x ^ i"
proof -
  have "(gf_of (out ! i) + gf_of v) - gf_of (out ! i) = gf_of v" by simp
  then show ?thesis
    using assms by (simp add: gfs_update peval_update gf_of_hom)
qed

lemma poly_mul_row_spec:
  assumes "i + j + length b \<le> length out"
  shows "peval (gfs (fold (\<lambda>(j, bj) out. out[i + j := out ! (i + j) XOR gf_mul ai bj]) (enumerate j b) out)) x
           = peval (gfs out) x + gf_of ai * x ^ (i + j) * peval (gfs b) x
         \<and> length (fold (\<lambda>(j, bj) out. out[i + j := out ! (i + j) XOR gf_mul ai bj]) (enumerate j b) out)
           = length out"
  using assms
proof (induction b arbitrary: j out)
  case (Cons c b)
  let ?out = "out[i + j := out ! (i + j) XOR gf_mul ai c]"
  have "peval (gfs ?out) x = peval (gfs out) x + gf_of (gf_mul ai c) * x ^ (i + j)"
    using Cons.prems by (intro peval_xor_update) simp
  with Cons.IH [of "Suc j" ?out] Cons.prems show ?case
    by (simp add: gf_of_hom algebra_simps)
qed simp

lemma poly_mul_row:
  assumes "i + length b \<le> length out"
  shows "peval (gfs (poly_mul_row i ai b out)) x = peval (gfs out) x + gf_of ai * x ^ i * peval (gfs b) x"
    and "length (poly_mul_row i ai b out) = length out"
  using poly_mul_row_spec [of i 0 b out ai x] assms by (simp_all add: poly_mul_row_def)

lemma poly_mul_fold:
  assumes "b \<noteq> []" "i + length a + length b \<le> Suc (length out)"
  shows "peval (gfs (fold (\<lambda>(i, ai) out. if ai = 0 then out else poly_mul_row i ai b out) (enumerate i a) out)) x
           = peval (gfs out) x + x ^ i * peval (gfs a) x * peval (gfs b) x
       \<and> length (fold (\<lambda>(i, ai) out. if ai = 0 then out else poly_mul_row i ai b out) (enumerate i a) out)
           = length out"
  using assms(2)
proof (induction a arbitrary: i out)
  case (Cons c a)
  let ?out = "if c = 0 then out else poly_mul_row i c b out"
  have "length ?out = length out"
    and "peval (gfs ?out) x = peval (gfs out) x + gf_of c * x ^ i * peval (gfs b) x"
    using Cons.prems assms(1) by (auto simp: poly_mul_row gf_of_hom)
  with Cons.IH [of "Suc i" ?out] Cons.prems show ?case
    by (simp add: algebra_simps)
qed simp

lemma poly_mul:
  assumes "a \<noteq> []" "b \<noteq> []"
  shows "peval (gfs (poly_mul a b)) x = peval (gfs a) x * peval (gfs b) x"
    and "length (poly_mul a b) = length a + length b - 1"
  using poly_mul_fold [of b 0 a "replicate (length a + length b - 1) 0" x] assms
  by (simp_all add: poly_mul_def Suc_le_eq)

section \<open>Interpolation recovers the coefficients\<close>

lemma lagrange_step_pair [simp]:
  "lagrange_step xs i j (num, denom) =
     (if j = i then (num, denom) else (poly_mul num [xs ! j, 1], gf_mul denom (xs ! i XOR xs ! j)))"
  by (simp add: lagrange_step_def)

lemma lagrange_fold:
  assumes "num \<noteq> []"
    and "fold (lagrange_step xs i) js (num, denom) = (num', denom')"
  shows "length num' = length num + length (filter (\<lambda>j. j \<noteq> i) js)
       \<and> gf_of denom' = gf_of denom * prod_list (map (\<lambda>j. gf_of (xs ! i) + gf_of (xs ! j)) (filter (\<lambda>j. j \<noteq> i) js))
       \<and> (\<forall>x. peval (gfs num') x
              = peval (gfs num) x * prod_list (map (\<lambda>j. x + gf_of (xs ! j)) (filter (\<lambda>j. j \<noteq> i) js)))"
  using assms
proof (induction js arbitrary: num denom)
  case (Cons j js)
  show ?case
  proof (cases "j = i")
    case True
    with Cons show ?thesis by simp
  next
    case False
    let ?num = "poly_mul num [xs ! j, 1]"
    have len: "length ?num = length num + 1"
      using Cons.prems(1) by (simp add: poly_mul)
    then have ne: "?num \<noteq> []" by auto
    have ev: "peval (gfs ?num) x = peval (gfs num) x * (x + gf_of (xs ! j))" for x
      using Cons.prems(1) by (simp add: poly_mul gf_of_hom add.commute)
    have "fold (lagrange_step xs i) js (?num, gf_mul denom (xs ! i XOR xs ! j)) = (num', denom')"
      using Cons.prems(2) False by simp
    from Cons.IH [OF ne this] len ev False show ?thesis
      by (simp add: gf_of_hom mult.assoc)
  qed
qed simp

lemma add_scaled_fold:
  assumes "\<forall>d \<in> set ds. d < length coeffs"
  shows "length (fold (\<lambda>d coeffs. coeffs[d := coeffs ! d XOR gf_mul (num ! d) s]) ds coeffs) = length coeffs
       \<and> peval (gfs (fold (\<lambda>d coeffs. coeffs[d := coeffs ! d XOR gf_mul (num ! d) s]) ds coeffs)) x
           = peval (gfs coeffs) x + (\<Sum>d\<leftarrow>ds. gf_of (num ! d) * x ^ d) * gf_of s"
  using assms
proof (induction ds arbitrary: coeffs)
  case (Cons d ds)
  let ?c = "coeffs[d := coeffs ! d XOR gf_mul (num ! d) s]"
  have "peval (gfs ?c) x = peval (gfs coeffs) x + gf_of (gf_mul (num ! d) s) * x ^ d"
    using Cons.prems by (intro peval_xor_update) simp
  with Cons.IH [of ?c] Cons.prems show ?case
    by (simp add: gf_of_hom algebra_simps)
qed simp

lemma add_scaled:
  assumes "length num \<le> length coeffs"
  shows "length (add_scaled s num coeffs) = length coeffs"
    and "peval (gfs (add_scaled s num coeffs)) x = peval (gfs coeffs) x + peval (gfs num) x * gf_of s"
proof -
  have "peval (gfs num) x = (\<Sum>d\<leftarrow>[0..<length num]. gf_of (num ! d) * x ^ d)"
    by (simp add: peval_sum interv_sum_list_conv_sum_set_nat atLeast0LessThan)
  then show "length (add_scaled s num coeffs) = length coeffs"
    and "peval (gfs (add_scaled s num coeffs)) x = peval (gfs coeffs) x + peval (gfs num) x * gf_of s"
    using add_scaled_fold [of "[0..<length num]" coeffs num s x] assms
    by (auto simp: add_scaled_def)
qed

text \<open>The Lagrange basis value of index i at the point x.\<close>

definition lbasis :: "bytes \<Rightarrow> nat \<Rightarrow> gf \<Rightarrow> gf" where
  "lbasis xs i x = prod_list (map (\<lambda>j. x + gf_of (xs ! j)) (filter (\<lambda>j. j \<noteq> i) [0..<length xs]))"

lemma lbasis_zero: "m < length xs \<Longrightarrow> m \<noteq> i \<Longrightarrow> lbasis xs i (gf_of (xs ! m)) = 0"
  unfolding lbasis_def by (subst prod_list_zero_iff) (force simp: image_iff)

lemma lbasis_nonzero:
  assumes "distinct xs" "i < length xs"
  shows "lbasis xs i (gf_of (xs ! i)) \<noteq> 0"
proof -
  have "gf_of (xs ! i) + gf_of (xs ! j) \<noteq> 0" if "j < length xs" "j \<noteq> i" for j
    using that assms by (simp flip: gf_minus_eq add: nth_eq_iff_index_eq)
  then show ?thesis
    unfolding lbasis_def by (subst prod_list_zero_iff) (force simp: image_iff)
qed

lemma length_filter_all_other: "n \<le> i \<Longrightarrow> length (filter (\<lambda>j. j \<noteq> i) [0..<n]) = n"
  by (induction n) auto

lemma length_filter_other: "i < n \<Longrightarrow> length (filter (\<lambda>j. j \<noteq> i) [0..<n]) = n - 1"
proof (induction n)
  case (Suc n)
  then show ?case by (cases "i = n") (auto simp: length_filter_all_other)
qed simp

lemma interpolate_step:
  assumes "distinct xs" "i < length xs" "length ys = length xs" "length coeffs = length xs"
  shows "\<exists>coeffs'. interpolate_step xs ys i coeffs = Inr coeffs' \<and> length coeffs' = length xs
       \<and> (\<forall>x. peval (gfs coeffs') x = peval (gfs coeffs) x
              + lbasis xs i x * (gf_of (ys ! i) / lbasis xs i (gf_of (xs ! i))))"
proof -
  obtain num denom where f: "fold (lagrange_step xs i) [0..<length xs] ([1], 1) = (num, denom)"
    by (metis surj_pair)
  have "length (filter (\<lambda>j. j \<noteq> i) [0..<length xs]) = length xs - 1"
    using assms(2) by (rule length_filter_other)
  with lagrange_fold [OF _ f] assms(2)
  have L: "length num = length xs" "gf_of denom = lbasis xs i (gf_of (xs ! i))"
      "\<And>x. peval (gfs num) x = lbasis xs i x"
    by (simp_all add: lbasis_def gf_of_hom)
  have "denom \<noteq> 0" using lbasis_nonzero [OF assms(1,2)] L(2) gf_of_eq_0 [of denom] by simp
  then have "interpolate_step xs ys i coeffs
      = Inr (add_scaled (gf_mul (ys ! i) (byte_of (inverse (gf_of denom)))) num coeffs)"
    using assms(2,3) by (simp add: interpolate_step_def f gf_inv_hom)
  then show ?thesis
    using assms(4) L by (simp add: add_scaled gf_of_hom divide_inverse)
qed

lemma interpolate_fold:
  assumes "distinct xs" "length ys = length xs"
    and "\<forall>i \<in> set is. i < length xs" "length coeffs = length xs"
  shows "\<exists>coeffs'. rfold (interpolate_step xs ys) is coeffs = Inr coeffs' \<and> length coeffs' = length xs
       \<and> (\<forall>x. peval (gfs coeffs') x = peval (gfs coeffs) x
              + (\<Sum>i\<leftarrow>is. lbasis xs i x * (gf_of (ys ! i) / lbasis xs i (gf_of (xs ! i)))))"
  using assms(3,4)
proof (induction "is" arbitrary: coeffs)
  case (Cons i "is")
  obtain c1 where c1: "interpolate_step xs ys i coeffs = Inr c1" "length c1 = length xs"
    "\<And>x. peval (gfs c1) x = peval (gfs coeffs) x
              + lbasis xs i x * (gf_of (ys ! i) / lbasis xs i (gf_of (xs ! i)))"
    using interpolate_step [OF assms(1), of i ys coeffs] assms(2) Cons.prems by auto
  from Cons.IH [of c1] Cons.prems c1 show ?case
    by (auto simp: add.assoc)
qed simp

lemma interpolate_coeffs_points:
  assumes "distinct xs" "length ys = length xs"
  shows "\<exists>cs. interpolate_coeffs xs ys = Inr cs \<and> length cs = length xs
       \<and> (\<forall>m < length xs. peval (gfs cs) (gf_of (xs ! m)) = gf_of (ys ! m))"
proof -
  obtain cs where cs: "interpolate_coeffs xs ys = Inr cs" "length cs = length xs"
    "\<And>x. peval (gfs cs) x = (\<Sum>i\<leftarrow>[0..<length xs]. lbasis xs i x * (gf_of (ys ! i) / lbasis xs i (gf_of (xs ! i))))"
    using interpolate_fold [OF assms, of "[0..<length xs]" "replicate (length xs) 0"]
    by (auto simp: interpolate_coeffs_def)
  have "peval (gfs cs) (gf_of (xs ! m)) = gf_of (ys ! m)" if m: "m < length xs" for m
  proof -
    have "peval (gfs cs) (gf_of (xs ! m)) = (\<Sum>i\<in>{..<length xs}. if i = m then gf_of (ys ! m) else 0)"
      unfolding cs(3) interv_sum_list_conv_sum_set_nat atLeast0LessThan
      by (rule sum.cong) (auto simp: lbasis_zero [OF m] lbasis_nonzero [OF assms(1) m])
    also have "\<dots> = gf_of (ys ! m)" using m by simp
    finally show ?thesis .
  qed
  with cs show ?thesis by blast
qed

lemma interpolate_coeffs_eval:
  assumes "distinct xs" "length block = length xs"
  shows "interpolate_coeffs xs (map (eval_poly block) xs) = Inr block"
proof -
  obtain cs where cs: "interpolate_coeffs xs (map (eval_poly block) xs) = Inr cs"
    "length cs = length xs"
    "\<forall>m < length xs. peval (gfs cs) (gf_of (xs ! m)) = gf_of (eval_poly block (xs ! m))"
    using interpolate_coeffs_points [OF assms(1), of "map (eval_poly block) xs"] by auto
  have "gfs cs = gfs block"
  proof (rule coeffs_unique [of _ _ "gfs xs"])
    show "distinct (gfs xs)" using assms(1) by (simp add: gfs_def distinct_map inj_on_def)
    show "\<forall>x \<in> set (gfs xs). peval (gfs cs) x = peval (gfs block) x"
      using cs(3) by (auto simp: gfs_def in_set_conv_nth eval_poly_peval)
  qed (simp_all add: cs(2) assms(2))
  with cs(1) show ?thesis by simp
qed

section \<open>Dispersal and reconstruction\<close>

lemma append_fragment_pairs:
  assumes "distinct points" "distinct ps" "set ps \<subseteq> set points"
  shows "fold (\<lambda>x. append_fragment x (e x)) ps (map (\<lambda>x. (x, f x)) points)
       = map (\<lambda>x. (x, if x \<in> set ps then f x @ [e x] else f x)) points"
  using assms(2,3)
proof (induction ps arbitrary: f)
  case (Cons p ps)
  have "append_fragment p (e p) (map (\<lambda>x. (x, f x)) points)
      = map (\<lambda>x. (x, if x = p then f x @ [e x] else f x)) points"
    using assms(1) Cons.prems(2)
    by (simp add: append_fragment_def dgetdef_def dget_map_pairs dset_map_pairs)
  with Cons.IH [of "\<lambda>x. if x = p then f x @ [e x] else f x"] Cons.prems show ?case
    by auto
qed simp

lemma fragments_fold:
  assumes "distinct points"
  shows "fold (\<lambda>block frags. fold (\<lambda>x. append_fragment x (eval_poly block x)) points frags) blocks
           (map (\<lambda>x. (x, f x)) points)
       = map (\<lambda>x. (x, f x @ map (\<lambda>b. eval_poly b x) blocks)) points"
proof (induction blocks arbitrary: f)
  case (Cons block blocks)
  have "fold (\<lambda>x. append_fragment x (eval_poly block x)) points (map (\<lambda>x. (x, f x)) points)
      = map (\<lambda>x. (x, f x @ [eval_poly block x])) points"
    by (subst append_fragment_pairs [OF assms assms]) simp_all
  with Cons.IH [of "\<lambda>x. f x @ [eval_poly block x]"] show ?case by simp
qed simp

definition padded :: "bytes \<Rightarrow> int \<Rightarrow> bytes" where
  "padded leaf k = leaf @ replicate (nat ((- int (length leaf)) mod k)) 0"

lemma padded_dvd:
  assumes "1 \<le> k" shows "nat k dvd length (padded leaf k)"
proof -
  have "int (length (padded leaf k)) = int (length leaf) + (- int (length leaf)) mod k"
    using assms by (simp add: padded_def)
  then have "int (length (padded leaf k)) mod k = 0"
    by (simp add: mod_add_right_eq)
  then have "int (nat k) dvd int (length (padded leaf k))"
    using assms by (simp add: mod_eq_0_iff_dvd)
  then show ?thesis by (simp only: int_dvd_int_iff)
qed

lemma disperse_Inr:
  assumes "disperse leaf k n xs = Inr d"
  shows "1 \<le> k" "k \<le> n" "n \<le> 255" "d_orig_len d = int (length leaf)"
    "int (length (d_xs d)) = n" "distinct (d_xs d)" "0 \<notin> set (d_xs d)"
    "d_fragments d = map (\<lambda>x. (x, map (\<lambda>b. eval_poly b x) (chunks (nat k) (padded leaf k)))) (d_xs d)"
proof -
  define points where "points = dispersal_points n xs"
  from assms have *:
    "1 \<le> k" "k \<le> n" "n \<le> 255" "int (length points) = n" "int (card (set points)) = n"
    "0 \<notin> set points" and d: "d = \<lparr>d_k = k, d_n = n, d_orig_len = int (length leaf), d_xs = points,
      d_fragments = fold (\<lambda>block frags. fold (\<lambda>x. append_fragment x (eval_poly block x)) points frags)
                        (chunks (nat k) (padded leaf k)) (map (\<lambda>x. (x, [])) points)\<rparr>"
    by (auto simp: disperse_def Let_def padded_def points_def split: if_splits)
  then have dist: "distinct points" by (simp add: card_distinct)
  show "1 \<le> k" "k \<le> n" "n \<le> 255" using * by auto
  show "d_orig_len d = int (length leaf)" "int (length (d_xs d)) = n" "distinct (d_xs d)"
    "0 \<notin> set (d_xs d)"
    using * d dist by auto
  show "d_fragments d = map (\<lambda>x. (x, map (\<lambda>b. eval_poly b x) (chunks (nat k) (padded leaf k)))) (d_xs d)"
    using d fragments_fold [OF dist, of "chunks (nat k) (padded leaf k)" "\<lambda>_. []"] by simp
qed

lemma reconstruct_position:
  assumes "distinct xs" "length block = length xs" "pos < length blocks" "blocks ! pos = block"
    and "\<And>x. x \<in> set xs \<Longrightarrow> dget fr x = Some (map (\<lambda>b. eval_poly b x) blocks)"
  shows "rbind (rmap (fragment_byte fr pos) xs)
           (\<lambda>ys. rbind (interpolate_coeffs xs ys) (\<lambda>c. Inr (out @ c))) = Inr (out @ block)"
proof -
  have "rmap (fragment_byte fr pos) xs = Inr (map (eval_poly block) xs)"
    using assms(3-) by (intro rmap_all_Inr) (simp add: fragment_byte_def dgetdef_def)
  with interpolate_coeffs_eval [OF assms(1,2)] show ?thesis by simp
qed

lemma reconstruct_blocks:
  assumes "dwf fr" "1 \<le> k" "k \<le> int (length fr)" "\<forall>b \<in> set blocks. length b = nat k"
    and "\<And>x bs. (x, bs) \<in> set fr \<Longrightarrow> bs = map (\<lambda>b. eval_poly b x) blocks"
  shows "reconstruct fr k len = Inr (py_take len (concat blocks))"
proof -
  let ?xs = "take (nat k) (sort (dkeys fr))"
  have len: "length ?xs = nat k" using assms(3) by (simp add: dkeys_def)
  have "0 < length ?xs" unfolding len using assms(2) by simp
  then obtain x0 r where xs: "?xs = x0 # r" by (metis length_greater_0_conv neq_Nil_conv)
  have dist: "distinct ?xs" using assms(1) by (simp add: dwf_def dkeys_def)
  have get: "dget fr x = Some (map (\<lambda>b. eval_poly b x) blocks)" if "x \<in> set ?xs" for x
  proof -
    from that have "x \<in> set (dkeys fr)" by (metis in_set_takeD set_sort)
    then obtain bs where "(x, bs) \<in> set fr" by (auto simp: dkeys_def)
    with assms(1,5) show ?thesis using dget_in_dwf by metis
  qed
  have flen: "length (dgetdef fr x0 []) = length blocks"
    using get [of x0] xs by (simp add: dgetdef_def)
  have "rfold (\<lambda>pos out. rbind (rmap (fragment_byte fr pos) ?xs)
                  (\<lambda>ys. rbind (interpolate_coeffs ?xs ys) (\<lambda>c. Inr (out @ c))))
           [0..<length blocks] [] = Inr ([] @ concat (map (\<lambda>i. blocks ! i) [0..<length blocks]))"
    using assms(4) len
    by (intro rfold_append reconstruct_position [where blocks = blocks]) (auto intro: dist get)
  moreover have "concat (map (\<lambda>i. blocks ! i) [0..<length blocks]) = concat blocks"
    by (simp add: map_nth)
  moreover have "py_take k (sort (dkeys fr)) = x0 # r"
    using assms(2) xs by (simp add: py_take_def)
  ultimately show ?thesis
    using assms(3) flen xs by (simp add: reconstruct_def Let_def dkeys_def)
qed

lemma reconstruct_any_k:
  assumes d: "disperse leaf k n xs = Inr d"
    and fr: "dwf fr" "set fr \<subseteq> set (d_fragments d)" "k \<le> int (length fr)"
  shows "reconstruct fr k (d_orig_len d) = Inr leaf"
proof -
  note D = disperse_Inr [OF d]
  let ?blocks = "chunks (nat k) (padded leaf k)"
  have "reconstruct fr k (d_orig_len d) = Inr (py_take (d_orig_len d) (concat ?blocks))"
    using fr D by (intro reconstruct_blocks) (auto intro: chunks_block_length [OF _ padded_dvd])
  also have "concat ?blocks = padded leaf k" using D(1) by (simp add: concat_chunks)
  finally show ?thesis by (simp add: D(4) py_take_def padded_def)
qed

lemma reconstruct_too_few:
  "int (length fr) < k \<Longrightarrow> reconstruct fr k len = Inl ValueError"
  by (simp add: reconstruct_def dkeys_def)

text \<open>
  Whatever k equally long fragments are given, reconstruction does not raise, and the blocks it
  computes are consistent with every fragment used.
\<close>

lemma interpolate_consistent:
  assumes "distinct xs" "length ys = length xs"
  shows "\<exists>cs. interpolate_coeffs xs ys = Inr cs \<and> length cs = length xs \<and> map (eval_poly cs) xs = ys"
proof -
  obtain cs where cs: "interpolate_coeffs xs ys = Inr cs" "length cs = length xs"
    "\<forall>m < length xs. peval (gfs cs) (gf_of (xs ! m)) = gf_of (ys ! m)"
    using interpolate_coeffs_points [OF assms] by blast
  have "map (eval_poly cs) xs = ys"
    using cs(3) assms(2) by (intro nth_equalityI) (auto simp: eval_poly_peval [symmetric])
  with cs show ?thesis by blast
qed

lemma reconstruct_step:
  assumes "distinct xs" "\<And>x. x \<in> set xs \<Longrightarrow> pos < length (dgetdef fr x [])"
  shows "\<exists>c. length c = length xs \<and> map (eval_poly c) xs = map (\<lambda>x. dgetdef fr x [] ! pos) xs \<and>
           (\<forall>out. rbind (rmap (fragment_byte fr pos) xs)
              (\<lambda>ys. rbind (interpolate_coeffs xs ys) (\<lambda>c. Inr (out @ c))) = Inr (out @ c))"
proof -
  have "rmap (fragment_byte fr pos) xs = Inr (map (\<lambda>x. dgetdef fr x [] ! pos) xs)"
    using assms(2) by (intro rmap_all_Inr) (simp add: fragment_byte_def)
  with interpolate_consistent [OF assms(1), of "map (\<lambda>x. dgetdef fr x [] ! pos) xs"] show ?thesis
    by auto
qed

lemma reconstruct_consistent:
  assumes "dwf fr" "1 \<le> k" "k = int (length fr)" "\<And>x b. (x, b) \<in> set fr \<Longrightarrow> length b = L"
  shows "\<exists>blocks. length blocks = L \<and> (\<forall>b \<in> set blocks. length b = nat k) \<and>
           reconstruct fr k len = Inr (py_take len (concat blocks)) \<and>
           (\<forall>x b. (x, b) \<in> set fr \<longrightarrow> b = map (\<lambda>bl. eval_poly bl x) blocks)"
proof -
  let ?xs = "sort (dkeys fr)"
  have len: "length ?xs = nat k" "int (length ?xs) = k" using assms(3) by (simp_all add: dkeys_def)
  have dist: "distinct ?xs" using assms(1) by (simp add: dwf_def dkeys_def)
  have "0 < length ?xs" unfolding len(1) using assms(2) by simp
  then obtain x0 r where xs: "?xs = x0 # r" by (metis length_greater_0_conv neq_Nil_conv)
  have get: "dgetdef fr x [] = b" if "(x, b) \<in> set fr" for x b
    using dget_in_dwf [OF assms(1) that] by (simp add: dgetdef_def)
  have L: "length (dgetdef fr x []) = L" if "x \<in> set ?xs" for x
  proof -
    from that obtain b where "(x, b) \<in> set fr" by (auto simp: dkeys_def)
    with get assms(4) show ?thesis by metis
  qed
  have "\<exists>c. length c = length ?xs \<and> map (eval_poly c) ?xs = map (\<lambda>x. dgetdef fr x [] ! pos) ?xs \<and>
           (\<forall>out. rbind (rmap (fragment_byte fr pos) ?xs)
              (\<lambda>ys. rbind (interpolate_coeffs ?xs ys) (\<lambda>c. Inr (out @ c))) = Inr (out @ c))"
    if "pos < L" for pos
    by (rule reconstruct_step [OF dist]) (use L that in auto)
  then obtain C where C: "\<And>pos. pos < L \<Longrightarrow> length (C pos) = length ?xs"
    "\<And>pos. pos < L \<Longrightarrow> map (eval_poly (C pos)) ?xs = map (\<lambda>x. dgetdef fr x [] ! pos) ?xs"
    "\<And>pos out. pos < L \<Longrightarrow> rbind (rmap (fragment_byte fr pos) ?xs)
              (\<lambda>ys. rbind (interpolate_coeffs ?xs ys) (\<lambda>c. Inr (out @ c))) = Inr (out @ C pos)"
    by metis
  let ?blocks = "map C [0..<L]"
  have "rfold (\<lambda>pos out. rbind (rmap (fragment_byte fr pos) ?xs)
                  (\<lambda>ys. rbind (interpolate_coeffs ?xs ys) (\<lambda>c. Inr (out @ c))))
           [0..<L] [] = Inr ([] @ concat (map C [0..<L]))"
    by (rule rfold_append) (simp add: C(3))
  moreover have "py_take k ?xs = ?xs" using assms(2) len by (simp add: py_take_def)
  moreover have "length (dgetdef fr x0 []) = L" using L xs by simp
  ultimately have rec: "reconstruct fr k len = Inr (py_take len (concat ?blocks))"
    using len(2) xs by (simp add: reconstruct_def Let_def)
  have "b = map (\<lambda>bl. eval_poly bl x) ?blocks" if "(x, b) \<in> set fr" for x b
  proof (rule nth_equalityI)
    show "length b = length (map (\<lambda>bl. eval_poly bl x) ?blocks)" using assms(4) that by simp
    fix i assume "i < length b"
    then have i: "i < L" using assms(4) that by simp
    have "x \<in> set ?xs" using that by (auto simp: dkeys_def intro: rev_image_eqI)
    then have "eval_poly (C i) x = dgetdef fr x [] ! i" using C(2) [OF i] by simp
    then show "b ! i = map (\<lambda>bl. eval_poly bl x) ?blocks ! i" using i get [OF that] by simp
  qed
  then show ?thesis using rec C(1) len by (intro exI [of _ ?blocks]) auto
qed

text \<open>
  The default points are \<open>1 .. n\<close>, so a call inside the bounds always succeeds.
\<close>

lemma default_points:
  assumes "1 \<le> n" "n \<le> 255"
  shows "distinct (map word_of_nat [1..<nat (n + 1)] :: byte list)"
    and "(0::byte) \<notin> set (map word_of_nat [1..<nat (n + 1)])"
proof -
  have "inj_on (word_of_nat :: nat \<Rightarrow> byte) {1..<nat (n + 1)}"
    using assms by (intro inj_onI) (auto simp: word_of_nat_eq_iff take_bit_eq_mod)
  then show "distinct (map word_of_nat [1..<nat (n + 1)] :: byte list)"
    by (simp add: distinct_map)
  show "(0::byte) \<notin> set (map word_of_nat [1..<nat (n + 1)])"
    using assms by (auto simp: word_of_nat_eq_0_iff dest!: dvd_imp_le)
qed

lemma disperse_default_ok:
  assumes "1 \<le> k" "k \<le> n" "n \<le> 255"
  shows "\<exists>d. disperse leaf k n None = Inr d"
proof -
  let ?ps = "map word_of_nat [1..<nat (n + 1)] :: byte list"
  have "distinct ?ps" "0 \<notin> set ?ps" using assms default_points by simp_all
  moreover have "int (length ?ps) = n" using assms by simp
  moreover have "int (card (set ?ps)) = n"
    using calculation by (simp only: distinct_card)
  ultimately show ?thesis
    using assms by (auto simp: disperse_def dispersal_points_def Let_def)
qed

lemma disperse_points_ok:
  assumes "1 \<le> k" "k \<le> n" "n \<le> 255" "int (length ps) = n" "distinct ps" "0 \<notin> set ps"
  shows "\<exists>d. disperse leaf k n (Some ps) = Inr d"
  using assms by (auto simp: disperse_def dispersal_points_def Let_def distinct_card)

lemma disperse_fragment_length:
  assumes "disperse leaf k n xs = Inr d" "(x, bs) \<in> set (d_fragments d)"
  shows "int (length bs) * k = int (length leaf) + (- int (length leaf)) mod k"
proof -
  note D = disperse_Inr [OF assms(1)]
  let ?blocks = "chunks (nat k) (padded leaf k)"
  have "length (concat ?blocks) = length ?blocks * nat k"
    using chunks_block_length [OF _ padded_dvd [OF D(1)]] D(1)
    by (simp add: length_concat sum_list_triv cong: map_cong)
  then have "int (length (padded leaf k)) = int (length ?blocks) * k"
    using D(1) by (simp add: concat_chunks)
  with assms(2) D(1,8) show ?thesis by (auto simp: padded_def)
qed

section \<open>Properties\<close>

text \<open>
  C1: Any k of n. For every leaf and every valid k, n and choice of points (the default ones, or n
  distinct nonzero ones), \<open>disperse\<close> succeeds, and \<open>reconstruct\<close> returns the leaf exactly
  from every selection of at least k of its fragments, in whatever order they arrive.
\<close>

theorem disperse_reconstruct:
  assumes "1 \<le> k" "k \<le> n" "n \<le> 255"
    and "\<forall>ps. xs = Some ps \<longrightarrow> int (length ps) = n \<and> distinct ps \<and> 0 \<notin> set ps"
  shows "\<exists>d. disperse leaf k n xs = Inr d \<and>
           (\<forall>fr. dwf fr \<and> set fr \<subseteq> set (d_fragments d) \<and> k \<le> int (length fr) \<longrightarrow>
              reconstruct fr k (d_orig_len d) = Inr leaf)"
proof -
  have "\<exists>d. disperse leaf k n xs = Inr d"
    using assms disperse_default_ok disperse_points_ok by (cases xs) auto
  then show ?thesis using reconstruct_any_k by blast
qed

theorem disperse_reconstruct_witness:
  "\<exists>d. disperse [0x48, 0x69, 0x21] 2 3 (Some [9, 4, 200]) = Inr d \<and>
     (\<forall>fr. dwf fr \<and> set fr \<subseteq> set (d_fragments d) \<and> 2 \<le> int (length fr) \<longrightarrow>
        reconstruct fr 2 (d_orig_len d) = Inr [0x48, 0x69, 0x21])"
  by (rule disperse_reconstruct) auto

text \<open>
  C2: The table arithmetic is the AES field. \<open>_mul\<close> agrees with carry-less multiplication
  modulo \<open>0x11b\<close> on all pairs of bytes, and \<open>_inv\<close> returns the multiplicative inverse of every
  nonzero byte and raises on zero.
\<close>

theorem table_arithmetic_is_aes:
  "gf_mul a b = aes_mul a b \<and>
   gf_inv a = (if a = 0 then Inl ZeroDivisionError else Inr (byte_of (inverse (gf_of a)))) \<and>
   aes_mul a (case gf_inv a of Inl _ \<Rightarrow> 0 | Inr i \<Rightarrow> i) = (if a = 0 then 0 else 1)"
  using gf_mul_aes [of a b] gf_inv_hom [of a] gf_inv_correct [of a]
  by (auto simp: gf_inv_def gf_mul_aes [symmetric] gf_mul_commute [of a])

end
