(* ===== verification/Mesh_Topology.thy ===== *)
theory Mesh_Topology
  imports Prelude
begin

text \<open>
  \<open>automation/mesh_topology.py\<close>: the balanced ternary tree of backends, the mixed-radix leader
  rotation and the recursive quorum. A tree is a leaf (a backend id) or a list of subtrees.
\<close>

section \<open>The code\<close>

datatype tree = Leaf string | Node "tree list"

definition split3_sizes :: "nat \<Rightarrow> nat list" where
  "split3_sizes n = map (\<lambda>i. n div 3 + (if i < n mod 3 then 1 else 0)) [0..<3]"

text \<open>The slicing loop of \<open>_split3\<close>: \<open>idx\<close> is the position reached, empty parts are skipped.\<close>

fun take_parts :: "'a list \<Rightarrow> nat \<Rightarrow> nat list \<Rightarrow> 'a list list" where
  "take_parts nodes idx [] = []"
| "take_parts nodes idx (s # sizes) =
     (if s \<noteq> 0 then take s (drop idx nodes) # take_parts nodes (idx + s) sizes
      else take_parts nodes idx sizes)"

definition split3 :: "'a list \<Rightarrow> 'a list list" where
  "split3 nodes = take_parts nodes 0 (split3_sizes (length nodes))"

lemma split3_sizes_eq:
  "split3_sizes n =
     [n div 3 + (if 0 < n mod 3 then 1 else 0), n div 3 + (if 1 < n mod 3 then 1 else 0), n div 3]"
proof -
  have "n mod 3 < 3" by simp
  then show ?thesis by (simp add: split3_sizes_def upt_rec)
qed

lemma take_parts_concat:
  "concat (take_parts nodes idx sizes) = take (sum_list sizes) (drop idx nodes)"
  by (induction nodes idx sizes rule: take_parts.induct) (auto simp: take_add add.commute)

lemma sum_split3_sizes: "sum_list (split3_sizes n) = n"
proof -
  have "3 * (n div 3) + n mod 3 = n" "n mod 3 < 3" by simp_all
  then show ?thesis unfolding split3_sizes_eq by (simp, presburger)
qed

lemma concat_split3: "concat (split3 nodes) = nodes"
  by (simp add: split3_def take_parts_concat sum_split3_sizes)

lemma take_parts_length:
  "p \<in> set (take_parts nodes idx sizes) \<Longrightarrow> idx + sum_list sizes \<le> length nodes \<Longrightarrow>
     0 < length p \<and> length p \<in> set sizes"
  by (induction nodes idx sizes rule: take_parts.induct) (auto split: if_splits)

lemma split3_part_length:
  assumes "p \<in> set (split3 nodes)"
  shows "0 < length p" "length p \<in> {length nodes div 3, length nodes div 3 + 1}"
proof -
  have *: "0 < length p \<and> length p \<in> set (split3_sizes (length nodes))"
    using take_parts_length [of p nodes 0 "split3_sizes (length nodes)"] assms
    by (simp add: split3_def sum_split3_sizes)
  then show "0 < length p" ..
  have "set (split3_sizes n) \<subseteq> {n div 3, n div 3 + 1}" for n
    unfolding split3_sizes_eq by simp
  with * show "length p \<in> {length nodes div 3, length nodes div 3 + 1}" by blast
qed

lemma split3_part_smaller:
  assumes "p \<in> set (split3 nodes)" "3 < length nodes"
  shows "length p < length nodes"
proof -
  have "length p \<le> length nodes div 3 + 1"
    using split3_part_length(2) [OF assms(1)] by (elim insertE) simp_all
  also have "\<dots> < length nodes" using assms(2) by (simp add: div_less_iff_less_mult less_diff_conv)
  finally show ?thesis .
qed

function build_tree :: "string list \<Rightarrow> tree result" where
  "build_tree nodes =
     (if nodes = [] then Inl ValueError
      else if length nodes \<le> 3 then Inr (Node (map Leaf nodes))
      else rbind (rmap build_tree (split3 nodes)) (\<lambda>ts. Inr (Node ts)))"
  by pat_completeness auto
termination
proof (relation "measure length")
  fix nodes p :: "string list"
  assume "\<not> length nodes \<le> 3" "p \<in> set (split3 nodes)"
  then have "length p < length nodes" using split3_part_smaller [of p nodes] by simp
  then show "(p, nodes) \<in> measure length" by simp
qed simp

declare build_tree.simps [simp del]

fun leaves :: "tree \<Rightarrow> string list" where
  "leaves (Leaf x) = [x]"
| "leaves (Node ts) = concat (map leaves ts)"

text \<open>\<open>max\<close> of an empty sequence raises.\<close>

definition py_max :: "nat list \<Rightarrow> nat result" where
  "py_max xs = (if xs = [] then Inl ValueError else Inr (Max (set xs)))"

fun depth :: "tree \<Rightarrow> nat result" where
  "depth (Leaf x) = Inr 0"
| "depth (Node ts) = rbind (rmap depth ts) (\<lambda>ds. rbind (py_max ds) (\<lambda>m. Inr (1 + m)))"

text \<open>\<open>epoch % 0\<close> raises; \<open>%\<close> and \<open>//\<close> round towards minus infinity, as \<open>mod\<close> and \<open>div\<close> do.\<close>

function tree_leader :: "tree \<Rightarrow> int \<Rightarrow> string result" where
  "tree_leader (Leaf x) epoch = Inr x"
| "tree_leader (Node ts) epoch =
     (if ts = [] then Inl ZeroDivisionError
      else tree_leader (ts ! nat (epoch mod int (length ts))) (epoch div int (length ts)))"
  by pat_completeness auto
termination
proof (relation "measure (size \<circ> fst)")
  fix ts :: "tree list" and epoch :: int
  assume "ts \<noteq> []"
  then have "ts ! nat (epoch mod int (length ts)) \<in> set ts"
    by (intro nth_mem) (simp add: nat_less_iff)
  then show "((ts ! nat (epoch mod int (length ts)), epoch div int (length ts)), Node ts, epoch)
      \<in> measure (size \<circ> fst)"
    by (simp add: less_Suc_eq_le size_list_estimation')
qed simp

definition quorum_of :: "nat \<Rightarrow> nat" where
  "quorum_of c = c div 2 + 1"

fun tree_healthy :: "tree \<Rightarrow> string set \<Rightarrow> bool" where
  "tree_healthy (Leaf x) up \<longleftrightarrow> x \<in> up"
| "tree_healthy (Node ts) up \<longleftrightarrow>
     quorum_of (length ts) \<le> length (filter (\<lambda>t. tree_healthy t up) ts)"

fun turn_length :: "tree \<Rightarrow> nat result" where
  "turn_length (Leaf x) = Inr 1"
| "turn_length (Node ts) = rbind (rmap turn_length ts) (\<lambda>ls. rbind (py_max ls) (\<lambda>m. Inr (length ts * m)))"

section \<open>The tree holds every backend\<close>

text \<open>Every internal node of a built tree has between one and three children.\<close>

fun tree_wf :: "tree \<Rightarrow> bool" where
  "tree_wf (Leaf x) \<longleftrightarrow> True"
| "tree_wf (Node ts) \<longleftrightarrow> ts \<noteq> [] \<and> length ts \<le> 3 \<and> (\<forall>t \<in> set ts. tree_wf t)"

lemma split3_nonempty: "nodes \<noteq> [] \<Longrightarrow> split3 nodes \<noteq> []"
  using concat_split3 [of nodes] by auto

lemma length_take_parts: "length (take_parts nodes idx sizes) \<le> length sizes"
  by (induction nodes idx sizes rule: take_parts.induct) auto

lemma length_split3: "length (split3 nodes) \<le> 3"
  using length_take_parts [of nodes 0 "split3_sizes (length nodes)"]
  by (simp add: split3_def split3_sizes_def)

lemma build_tree_ok:
  "nodes \<noteq> [] \<Longrightarrow> \<exists>t. build_tree nodes = Inr t \<and> leaves t = nodes \<and> tree_wf t"
proof (induction nodes rule: build_tree.induct)
  case (1 nodes)
  show ?case
  proof (cases "length nodes \<le> 3")
    case True
    have "concat (map (leaves \<circ> Leaf) nodes) = nodes" by (induction nodes) auto
    with True "1.prems" show ?thesis by (subst build_tree.simps) (auto simp: comp_def)
  next
    case False
    have IH: "\<exists>t. build_tree p = Inr t \<and> leaves t = p \<and> tree_wf t" if "p \<in> set (split3 nodes)" for p
      using "1.IH" "1.prems" False that split3_part_length(1) [OF that] by auto
    then obtain ts where ts: "rmap build_tree (split3 nodes) = Inr ts"
      using rmap_exists [of "split3 nodes" build_tree] by metis
    have "map leaves ts = map (\<lambda>p. p) (split3 nodes)"
      by (rule rmap_map_eq [OF ts]) (use IH in fastforce)
    then have "map leaves ts = split3 nodes" by simp
    moreover have "tree_wf t" if "t \<in> set ts" for t
      using rmap_member [OF ts that] IH by (metis Inr_inject)
    moreover have "length ts = length (split3 nodes)" using rmap_length [OF ts] .
    ultimately show ?thesis
      using False "1.prems" ts concat_split3 [of nodes] length_split3 [of nodes] split3_nonempty [of nodes]
      by (subst build_tree.simps) auto
  qed
qed

lemma build_tree_empty: "build_tree [] = Inl ValueError"
  by (simp add: build_tree.simps)

section \<open>Leadership\<close>

lemma leader_is_leaf:
  "tree_wf t \<Longrightarrow> \<exists>x \<in> set (leaves t). tree_leader t e = Inr x"
proof (induction t e rule: tree_leader.induct)
  case (2 ts e)
  let ?i = "nat (e mod int (length ts))"
  from "2.prems" have ne: "ts \<noteq> []" by simp
  then have "?i < length ts" by (simp add: nat_less_iff)
  then have "ts ! ?i \<in> set ts" by simp
  with "2" ne show ?case by fastforce
qed simp

lemma turn_length_pos: "tree_wf t \<Longrightarrow> \<exists>n. turn_length t = Inr n \<and> 0 < n"
proof (induction t)
  case (Node ts)
  then have "\<exists>ls. rmap turn_length ts = Inr ls"
    by (intro rmap_exists) fastforce
  then obtain ls where ls: "rmap turn_length ts = Inr ls" by blast
  then have "length ls = length ts" by (rule rmap_length)
  with Node.prems obtain l where "l \<in> set ls" by (cases ls) auto
  then obtain t where "t \<in> set ts" "turn_length t = Inr l"
    using rmap_member [OF ls] by blast
  with Node have "0 < l" by fastforce
  also have "l \<le> Max (set ls)" using \<open>l \<in> set ls\<close> by simp
  finally have "0 < Max (set ls)" .
  with ls Node.prems \<open>l \<in> set ls\<close> show ?case by (auto simp: py_max_def)
qed simp

lemma turn_length_child:
  assumes "turn_length (Node ts) = Inr n" "t \<in> set ts" "turn_length t = Inr m"
  shows "length ts * m \<le> n"
proof -
  from assms(1) obtain ls where ls: "rmap turn_length ts = Inr ls" "n = length ts * Max (set ls)"
    by (auto simp: rbind_eq_Inr py_max_def split: if_splits)
  have "m \<in> set ls"
    using rmap_value [OF ls(1) assms(2)] assms(3) by simp
  then have "m \<le> Max (set ls)" by simp
  with ls(2) show ?thesis by simp
qed

lemma every_leaf_leads:
  "tree_wf t \<Longrightarrow> turn_length t = Inr n \<Longrightarrow> x \<in> set (leaves t) \<Longrightarrow>
     \<exists>e. 0 \<le> e \<and> e < int n \<and> tree_leader t e = Inr x"
proof (induction t arbitrary: n)
  case (Node ts)
  from Node.prems(3) obtain t where t: "t \<in> set ts" "x \<in> set (leaves t)" by auto
  then obtain i where i: "i < length ts" "ts ! i = t" by (auto simp: in_set_conv_nth)
  from t Node.prems(1) have wf: "tree_wf t" by simp
  obtain m where m: "turn_length t = Inr m" using turn_length_pos [OF wf] by blast
  obtain e where e: "0 \<le> e" "e < int m" "tree_leader t e = Inr x"
    using Node.IH [OF t(1) wf m t(2)] by blast
  let ?c = "int (length ts)"
  let ?e = "int i + ?c * e"
  have "?c \<noteq> 0" using i by auto
  then have "?e mod ?c = int i" "?e div ?c = e" using i by simp_all
  then have "tree_leader (Node ts) ?e = Inr x" using i e(3) by auto
  moreover have "?c * (e + 1) \<le> ?c * int m" using e(2) by (intro mult_left_mono) auto
  then have "?e < ?c * int m" using i by (simp add: algebra_simps)
  moreover have "?c * int m \<le> int n"
    using turn_length_child [OF Node.prems(2) t(1) m] by (metis of_nat_le_iff of_nat_mult)
  ultimately show ?case using e(1) by (intro exI [of _ ?e]) auto
qed (auto intro: exI [of _ 0])

section \<open>Quorums intersect\<close>

lemma majorities_meet:
  "length xs < length (filter P xs) + length (filter Q xs) \<Longrightarrow> \<exists>x \<in> set xs. P x \<and> Q x"
  by (induction xs) (auto split: if_splits)

lemma quorums_intersect:
  "tree_healthy t U \<Longrightarrow> tree_healthy t V \<Longrightarrow> \<exists>x \<in> set (leaves t). x \<in> U \<and> x \<in> V"
proof (induction t)
  case (Node ts)
  then have "length ts < length (filter (\<lambda>t. tree_healthy t U) ts) + length (filter (\<lambda>t. tree_healthy t V) ts)"
    by (auto simp: quorum_of_def)
  then obtain t where "t \<in> set ts" "tree_healthy t U" "tree_healthy t V"
    using majorities_meet by metis
  with Node.IH show ?case by fastforce
qed simp

lemma length_filter_mono:
  "(\<And>x. x \<in> set xs \<Longrightarrow> P x \<Longrightarrow> Q x) \<Longrightarrow> length (filter P xs) \<le> length (filter Q xs)"
  by (induction xs) auto

lemma tree_healthy_mono: "tree_healthy t U \<Longrightarrow> U \<subseteq> V \<Longrightarrow> tree_healthy t V"
proof (induction t)
  case (Node ts)
  then have "length (filter (\<lambda>t. tree_healthy t U) ts) \<le> length (filter (\<lambda>t. tree_healthy t V) ts)"
    by (intro length_filter_mono) auto
  with Node.prems show ?case by simp
qed auto

section \<open>Depth\<close>

text \<open>The number of levels of a balanced tree over n backends.\<close>

function levels :: "nat \<Rightarrow> nat" where
  "levels n = (if n \<le> 3 then 1 else 1 + levels ((n + 2) div 3))"
  by pat_completeness auto
termination by (relation "measure id") auto

declare levels.simps [simp del]

lemma levels_pos: "0 < levels n"
  by (subst levels.simps) simp

lemma levels_mono: "m \<le> n \<Longrightarrow> levels m \<le> levels n"
proof (induction n arbitrary: m rule: levels.induct)
  case (1 n)
  show ?case
  proof (cases "m \<le> 3")
    case True
    then have "levels m = 1" by (subst levels.simps) simp
    with levels_pos [of n] show ?thesis by simp
  next
    case False
    with "1.prems" have "levels ((m + 2) div 3) \<le> levels ((n + 2) div 3)"
      by (intro "1.IH") (auto intro: div_le_mono)
    with False "1.prems" show ?thesis
      by (subst levels.simps [of m], subst levels.simps [of n]) simp
  qed
qed

lemma levels_bounds: "n \<le> 3 ^ levels n \<and> (levels n = 1 \<or> 3 ^ (levels n - 1) < n)"
proof (induction n rule: levels.induct)
  case (1 n)
  show ?case
  proof (cases "n \<le> 3")
    case True
    then have "levels n = 1" by (subst levels.simps) simp
    with True show ?thesis by simp
  next
    case False
    let ?l = "levels ((n + 2) div 3)"
    have l: "levels n = Suc ?l" using False by (subst levels.simps) simp
    note IH = "1.IH" [OF False]
    have "n \<le> 3 * ((n + 2) div 3)" by presburger
    also have "\<dots> \<le> 3 * 3 ^ ?l" using IH by simp
    finally have "n \<le> 3 ^ levels n" using l by simp
    moreover have "3 ^ ?l < n"
    proof (cases "?l = 1")
      case False
      then have "3 ^ (?l - 1) < (n + 2) div 3" using IH by blast
      then have "3 * 3 ^ (?l - 1) < n" by presburger
      moreover have "Suc (?l - 1) = ?l" using levels_pos by simp
      ultimately show ?thesis by (metis power_Suc)
    qed (use False in simp)
    ultimately show ?thesis using l by simp
  qed
qed

lemma split3_part_bound: "p \<in> set (split3 nodes) \<Longrightarrow> length p \<le> (length nodes + 2) div 3"
proof -
  assume "p \<in> set (split3 nodes)"
  then have "length p \<in> set (split3_sizes (length nodes))"
    using take_parts_length [of p nodes 0 "split3_sizes (length nodes)"]
    by (simp add: split3_def sum_split3_sizes)
  moreover have "s \<le> (n + 2) div 3" if "s \<in> set (split3_sizes n)" for s n
  proof -
    have "n div 3 + (if 0 < n mod 3 then 1 else 0) = (n + 2) div 3" by presburger
    moreover have "n div 3 + (if 1 < n mod 3 then 1 else 0) \<le> (n + 2) div 3" by presburger
    moreover have "n div 3 \<le> (n + 2) div 3" by presburger
    ultimately show ?thesis
      using that unfolding split3_sizes_eq set_simps by (elim insertE) (simp_all only: le_refl empty_iff)
  qed
  ultimately show ?thesis by blast
qed

lemma split3_first:
  assumes "nodes \<noteq> []"
  shows "\<exists>p \<in> set (split3 nodes). length p = (length nodes + 2) div 3"
proof -
  let ?n = "length nodes" and ?s = "(length nodes + 2) div 3"
  have "?n div 3 + (if 0 < ?n mod 3 then 1 else 0) = ?s" by presburger
  then have "split3_sizes ?n = ?s # [?n div 3 + (if 1 < ?n mod 3 then 1 else 0), ?n div 3]"
    unfolding split3_sizes_eq by simp
  moreover have "0 < ?n" using assms by simp
  then have "?s \<noteq> 0" "?s \<le> ?n" by presburger+
  ultimately have "take ?s nodes \<in> set (split3 nodes)" "length (take ?s nodes) = ?s"
    by (simp_all only: split3_def take_parts.simps) simp_all
  then show ?thesis by blast
qed

lemma depth_levels:
  "nodes \<noteq> [] \<Longrightarrow> build_tree nodes = Inr t \<Longrightarrow> depth t = Inr (levels (length nodes))"
proof (induction nodes arbitrary: t rule: build_tree.induct)
  case (1 nodes)
  show ?case
  proof (cases "length nodes \<le> 3")
    case True
    have "rmap depth (map Leaf ns) = Inr (replicate (length ns) 0)" for ns
      by (induction ns) auto
    moreover have "levels (length nodes) = 1" using True by (subst levels.simps) simp
    moreover have "t = Node (map Leaf nodes)"
      using "1.prems" True by (subst (asm) build_tree.simps) simp
    ultimately show ?thesis using "1.prems"(1) by (simp add: py_max_def)
  next
    case False
    let ?h = "\<lambda>p. levels (length p)"
    let ?m = "levels ((length nodes + 2) div 3)"
    obtain ts where ts: "rmap build_tree (split3 nodes) = Inr ts" "t = Node ts"
      using "1.prems" False by (subst (asm) build_tree.simps) (auto simp: rbind_eq_Inr)
    have "rmap depth ts = Inr (map ?h (split3 nodes))"
      by (rule rmap_rmap [OF ts(1)]) (use "1.IH" "1.prems"(1) False split3_part_length(1) in blast)
    moreover have "Max (set (map ?h (split3 nodes))) = ?m"
    proof (rule Max_eqI)
      show "?m \<in> set (map ?h (split3 nodes))" using split3_first [OF "1.prems"(1)] by force
      show "y \<le> ?m" if "y \<in> set (map ?h (split3 nodes))" for y
        using that split3_part_bound levels_mono by auto
    qed simp
    moreover have "levels (length nodes) = 1 + ?m" using False by (subst levels.simps) simp
    ultimately show ?thesis
      using ts(2) split3_nonempty [OF "1.prems"(1)] by (simp add: py_max_def)
  qed
qed

section \<open>Meshes of a power of three\<close>

fun perfect :: "nat \<Rightarrow> tree \<Rightarrow> bool" where
  "perfect 0 (Leaf x) \<longleftrightarrow> True"
| "perfect (Suc m) (Node ts) \<longleftrightarrow> length ts = 3 \<and> (\<forall>t \<in> set ts. perfect m t)"
| "perfect _ _ \<longleftrightarrow> False"

lemma split3_multiple:
  assumes "length nodes = 3 * q" "0 < q"
  shows "length (split3 nodes) = 3" "p \<in> set (split3 nodes) \<Longrightarrow> length p = q"
proof -
  have "split3_sizes (length nodes) = [q, q, q]"
    using assms by (simp add: split3_sizes_eq)
  then have "split3 nodes = [take q nodes, take q (drop q nodes), take q (drop (2 * q) nodes)]"
    using assms(2) by (simp add: split3_def mult_2)
  then show "length (split3 nodes) = 3" "p \<in> set (split3 nodes) \<Longrightarrow> length p = q"
    using assms(1) by auto
qed

lemma build_tree_perfect:
  "length nodes = 3 ^ Suc m \<Longrightarrow> \<exists>t. build_tree nodes = Inr t \<and> perfect (Suc m) t"
proof (induction m arbitrary: nodes)
  case 0
  then have "nodes \<noteq> []" by auto
  with 0 show ?case by (subst build_tree.simps) auto
next
  case (Suc m)
  let ?q = "3 ^ Suc m :: nat"
  have len: "length nodes = 3 * ?q" "0 < ?q" using Suc.prems by simp_all
  have "(1::nat) \<le> 3 ^ m" by simp
  then have "3 < 3 * (3 * 3 ^ m :: nat)" by linarith
  then have big: "\<not> length nodes \<le> 3" using Suc.prems by simp
  have IH: "\<exists>t. build_tree p = Inr t \<and> perfect (Suc m) t" if "p \<in> set (split3 nodes)" for p
    using Suc.IH split3_multiple(2) [OF len that] by blast
  then obtain ts where ts: "rmap build_tree (split3 nodes) = Inr ts"
    using rmap_exists [of "split3 nodes" build_tree] by metis
  have "perfect (Suc m) t" if "t \<in> set ts" for t
    using rmap_member [OF ts that] IH by (metis Inr_inject)
  moreover have "length ts = 3" using rmap_length [OF ts] split3_multiple(1) [OF len] by simp
  moreover have "build_tree nodes = Inr (Node ts)"
    using big ts by (subst build_tree.simps) auto
  ultimately show ?case by (intro exI [of _ "Node ts"]) simp
qed

lemma perfect_turn_length: "perfect m t \<Longrightarrow> turn_length t = Inr (3 ^ m)"
proof (induction m t rule: perfect.induct)
  case (2 m ts)
  then have "rmap turn_length ts = Inr (map (\<lambda>_. 3 ^ m) ts)"
    by (intro rmap_all_Inr) simp
  with "2.prems" have "set (map (\<lambda>_. 3 ^ m) ts) = {3 ^ m :: nat}" by (cases ts) auto
  with \<open>rmap turn_length ts = _\<close> "2.prems" show ?case by (auto simp: py_max_def)
qed simp_all

lemma each_leads_once:
  assumes "tree_wf t" "distinct (leaves t)" "turn_length t = Inr (length (leaves t))"
    and "x \<in> set (leaves t)"
  shows "\<exists>!e. 0 \<le> e \<and> e < int (length (leaves t)) \<and> tree_leader t e = Inr x"
proof -
  let ?E = "{0..<int (length (leaves t))}"
  let ?L = "Inr ` set (leaves t) :: string result set"
  have "tree_leader t ` ?E = ?L"
  proof
    show "tree_leader t ` ?E \<subseteq> ?L" using leader_is_leaf [OF assms(1)] by force
    show "?L \<subseteq> tree_leader t ` ?E" using every_leaf_leads [OF assms(1,3)] by force
  qed
  moreover have "card ?L = card ?E"
    using assms(2) by (simp add: card_image distinct_card)
  ultimately have "inj_on (tree_leader t) ?E" by (intro eq_card_imp_inj_on) simp_all
  then show ?thesis
    using every_leaf_leads [OF assms(1,3,4)] by (auto simp: inj_on_def)
qed

text \<open>
  Losing one backend: a perfect tree stays healthy, because at every level on the path to the lost
  leaf two of the three subtrees are untouched.
\<close>

lemma healthy_all: "tree_wf t \<Longrightarrow> set (leaves t) \<subseteq> up \<Longrightarrow> tree_healthy t up"
proof (induction t)
  case (Node ts)
  then have "filter (\<lambda>t. tree_healthy t up) ts = ts" by (intro filter_True) auto
  moreover have "0 < length ts" using Node.prems by simp
  then have "quorum_of (length ts) \<le> length ts" unfolding quorum_of_def by presburger
  ultimately show ?case by simp
qed simp

lemma perfect_wf: "perfect m t \<Longrightarrow> tree_wf t"
  by (induction m t rule: perfect.induct) auto

lemma perfect_one_failure:
  "perfect (Suc m) t \<Longrightarrow> distinct (leaves t) \<Longrightarrow> tree_healthy t (set (leaves t) - {x})"
proof (cases t)
  case (Node ts)
  assume p: "perfect (Suc m) t" and d: "distinct (leaves t)"
  from p Node obtain a b c where ts: "ts = [a, b, c]"
    by (auto simp: numeral_3_eq_3 length_Suc_conv)
  have ok: "tree_healthy s (set (leaves t) - {x})" if "s \<in> {a, b, c}" "x \<notin> set (leaves s)" for s
    using that p Node ts by (intro healthy_all) (auto intro: perfect_wf)
  have "x \<notin> set (leaves a) \<and> x \<notin> set (leaves b) \<or> x \<notin> set (leaves a) \<and> x \<notin> set (leaves c)
      \<or> x \<notin> set (leaves b) \<and> x \<notin> set (leaves c)"
    using d Node ts by auto
  with ok show ?thesis unfolding Node ts by (auto simp: quorum_of_def)
qed simp

section \<open>Properties\<close>

text \<open>
  C3: No split brain. Two sets of live backends that both make the mesh operational share a
  backend, at every size and depth of the tree.
\<close>

theorem healthy_sets_intersect:
  assumes "tree_healthy t U" "tree_healthy t V"
  shows "U \<inter> V \<inter> set (leaves t) \<noteq> {}"
  using quorums_intersect [OF assms] by blast

theorem healthy_sets_intersect_witness:
  "{''a'', ''b''} \<inter> {''b'', ''c''} \<inter> set (leaves (Node [Leaf ''a'', Leaf ''b'', Leaf ''c''])) \<noteq> {}"
  by (rule healthy_sets_intersect) (simp_all add: quorum_of_def)

text \<open>
  C4: \<open>build_tree\<close> is total on non-empty lists; the tree's leaves are the given backends in
  order, every group has one to three members, and its depth is the least d >= 1 with
  N <= 3^d.
\<close>

theorem build_tree_balanced:
  assumes "nodes \<noteq> []"
  shows "\<exists>t d. build_tree nodes = Inr t \<and> leaves t = nodes \<and> tree_wf t \<and> depth t = Inr d \<and>
           length nodes \<le> 3 ^ d \<and> (d = 1 \<or> 3 ^ (d - 1) < length nodes)"
  using build_tree_ok [OF assms] depth_levels [OF assms] levels_bounds [of "length nodes"] by blast

theorem build_tree_balanced_witness:
  "\<exists>t d. build_tree [''a'', ''b'', ''c'', ''d''] = Inr t \<and> leaves t = [''a'', ''b'', ''c'', ''d''] \<and>
     tree_wf t \<and> depth t = Inr d \<and> length [''a'', ''b'', ''c'', ''d''] \<le> 3 ^ d \<and>
     (d = 1 \<or> 3 ^ (d - 1) < length [''a'', ''b'', ''c'', ''d''])"
  by (rule build_tree_balanced) simp

text \<open>
  Leadership reaches everyone. At every epoch the leader of a built tree is one of its
  backends, and every backend leads at some epoch of one turn.
\<close>

theorem every_backend_leads:
  assumes "build_tree nodes = Inr t"
  shows "(\<forall>e. \<exists>x \<in> set nodes. tree_leader t e = Inr x) \<and>
         (\<exists>n. turn_length t = Inr n \<and>
            (\<forall>x \<in> set nodes. \<exists>e. 0 \<le> e \<and> e < int n \<and> tree_leader t e = Inr x))"
proof -
  have "nodes \<noteq> []" using assms build_tree_empty by auto
  then have t: "leaves t = nodes" "tree_wf t" using build_tree_ok [of nodes] assms by auto
  obtain n where "turn_length t = Inr n" using turn_length_pos [OF t(2)] by blast
  with t show ?thesis using leader_is_leaf every_leaf_leads by metis
qed

theorem every_backend_leads_witness:
  "\<exists>n. turn_length (Node [Leaf ''a'', Leaf ''b'']) = Inr n \<and>
     (\<forall>x \<in> set [''a'', ''b'']. \<exists>e. 0 \<le> e \<and> e < int n \<and>
        tree_leader (Node [Leaf ''a'', Leaf ''b'']) e = Inr x)"
  using every_backend_leads [of "[''a'', ''b'']" "Node [Leaf ''a'', Leaf ''b'']"]
  by (simp add: build_tree.simps)

text \<open>
  In a mesh of a power of three of distinct backends one turn has exactly one epoch per
  backend, and the mesh stays operational after the loss of any one backend.
\<close>

theorem power_of_three_mesh:
  assumes "length nodes = 3 ^ Suc m" "distinct nodes"
  shows "\<exists>t. build_tree nodes = Inr t \<and> turn_length t = Inr (length nodes) \<and>
           (\<forall>x \<in> set nodes. \<exists>!e. 0 \<le> e \<and> e < int (length nodes) \<and> tree_leader t e = Inr x) \<and>
           (\<forall>x. tree_healthy t (set nodes - {x}))"
proof -
  have "nodes \<noteq> []" using assms(1) by auto
  then obtain t where t: "build_tree nodes = Inr t" "leaves t = nodes" "tree_wf t"
    using build_tree_ok by blast
  moreover have p: "perfect (Suc m) t" using build_tree_perfect [OF assms(1)] t(1) by simp
  moreover have "turn_length t = Inr (length nodes)" using perfect_turn_length [OF p] assms(1) by simp
  ultimately show ?thesis
    using each_leads_once [of t] perfect_one_failure [OF p] assms(2) by metis
qed

theorem power_of_three_mesh_witness:
  "\<exists>t. build_tree [''a'', ''b'', ''c''] = Inr t \<and> turn_length t = Inr (length [''a'', ''b'', ''c'']) \<and>
     (\<forall>x \<in> set [''a'', ''b'', ''c'']. \<exists>!e. 0 \<le> e \<and> e < int (length [''a'', ''b'', ''c'']) \<and>
        tree_leader t e = Inr x) \<and>
     (\<forall>x. tree_healthy t (set [''a'', ''b'', ''c''] - {x}))"
  by (rule power_of_three_mesh [of _ 0]) simp_all

text \<open>
  At other sizes one turn is not even: with four backends a turn has six epochs, in which the
  two backends of the larger group lead once each and the other two lead twice.
\<close>

theorem four_backends_uneven:
  "\<exists>t. build_tree [''a'', ''b'', ''c'', ''d''] = Inr t \<and> turn_length t = Inr 6 \<and>
     map (tree_leader t) [0, 1, 2, 3, 4, 5]
       = map Inr [''a'', ''c'', ''d'', ''b'', ''c'', ''d'']"
  by (simp add: build_tree.simps split3_def split3_sizes_eq py_max_def)

end
