(* ===== verification/Storage_Resilience.thy ===== *)
theory Storage_Resilience
  imports Mesh_Topology Py_Text
begin

text \<open>
  \<open>automation/storage_resilience.py\<close>: the storage archetypes, a leaf's placement, the durability
  and consistency predicates, and the assignment of erasure-code shards to mesh nodes. Real-valued
  results are exact rationals (the code computes them as floats).
\<close>

section \<open>The code\<close>

record Archetype =
  a_name :: string
  a_tier :: string
  a_mount :: string
  a_seizable :: bool
  a_replicated :: bool
  a_erasure_coded :: bool

definition FLASH_LOCAL :: Archetype where
  "FLASH_LOCAL = \<lparr>a_name = ''topolvm-flash'', a_tier = ''hot'', a_mount = ''RWO-local-nvme (encrypted)'',
     a_seizable = True, a_replicated = False, a_erasure_coded = False\<rparr>"

definition BLOCK_REPLICATED :: Archetype where
  "BLOCK_REPLICATED = \<lparr>a_name = ''block-replicated'', a_tier = ''warm'', a_mount = ''RWO-failover'',
     a_seizable = True, a_replicated = True, a_erasure_coded = False\<rparr>"

definition OBJECT_DISPERSED :: Archetype where
  "OBJECT_DISPERSED = \<lparr>a_name = ''object-dispersed'', a_tier = ''cold'', a_mount = ''immutable-erasure'',
     a_seizable = False, a_replicated = False, a_erasure_coded = True\<rparr>"

record Placement =
  replicas :: int
  rs_k :: int
  rs_m :: int
  encrypted_at_rest :: bool
  shard_replicas :: int

definition rs_n :: "Placement \<Rightarrow> int" where
  "rs_n p = rs_k p + rs_m p"

definition durability_overhead :: "Placement \<Rightarrow> rat result" where
  "durability_overhead p =
     (if rs_k p = 0 then Inl ZeroDivisionError
      else Inr (of_int (rs_n p * shard_replicas p) / of_int (rs_k p)))"

text \<open>The power \<open>b ** e\<close> for an integer exponent.\<close>

definition py_pow :: "rat \<Rightarrow> int \<Rightarrow> rat result" where
  "py_pow b e =
     (if 0 \<le> e then Inr (b ^ nat e)
      else if b = 0 then Inl ZeroDivisionError
      else Inr (inverse b ^ nat (- e)))"

definition expected_durable_under_seizure :: "Placement \<Rightarrow> rat \<Rightarrow> bool result" where
  "expected_durable_under_seizure p fr =
     rbind (py_pow fr (shard_replicas p)) (\<lambda>lost.
       let survive_p = 1 - lost in
       Inr (of_int (rs_k p) \<le> of_int (rs_n p) * survive_p))"

definition comb :: "int \<Rightarrow> int \<Rightarrow> nat result" where
  "comb n j = (if n < 0 \<or> j < 0 then Inl ValueError else Inr (nat n choose nat j))"

definition tail_term :: "rat \<Rightarrow> int \<Rightarrow> int \<Rightarrow> rat result" where
  "tail_term p n j =
     rbind (comb n j) (\<lambda>c. rbind (py_pow p j) (\<lambda>a. rbind (py_pow (1 - p) (n - j)) (\<lambda>b.
       Inr (of_nat c * a * b))))"

definition survival_probability :: "Placement \<Rightarrow> rat \<Rightarrow> rat result" where
  "survival_probability pl fr =
     rbind (py_pow fr (shard_replicas pl)) (\<lambda>lost.
       let p = 1 - lost; n = rs_n pl; k = rs_k pl in
       rbind (rmap (tail_term p n) [k..n]) (\<lambda>ts. Inr (sum_list ts)))"

definition durable :: "int \<Rightarrow> Placement \<Rightarrow> bool" where
  "durable surviving_shards p \<longleftrightarrow> rs_k p \<le> surviving_shards"

definition confidential :: "int \<Rightarrow> Placement \<Rightarrow> bool" where
  "confidential seized_shards p \<longleftrightarrow> encrypted_at_rest p \<or> seized_shards < rs_k p"

definition write_consistent_under_partition :: "int \<Rightarrow> Placement \<Rightarrow> bool" where
  "write_consistent_under_partition reachable_replicas p \<longleftrightarrow> replicas p div 2 + 1 \<le> reachable_replicas"

definition read_available_under_partition :: "int \<Rightarrow> Placement \<Rightarrow> bool" where
  "read_available_under_partition reachable_shards p \<longleftrightarrow> rs_k p \<le> reachable_shards"

definition max_seizable_nodes :: "Placement \<Rightarrow> int" where
  "max_seizable_nodes p = rs_m p"

definition stride_of :: "nat \<Rightarrow> int \<Rightarrow> nat" where
  "stride_of len slots = nat (max 1 (int len div slots))"

definition strided_node :: "string list \<Rightarrow> nat \<Rightarrow> nat \<Rightarrow> string" where
  "strided_node ordered stride slot = ordered ! ((slot * stride) mod length ordered)"

definition shard_name :: "nat \<Rightarrow> string" where
  "shard_name i = ''shard-'' @ nat_str i"

definition disperse_shards :: "string list \<Rightarrow> Placement \<Rightarrow> (string, string) dict result" where
  "disperse_shards nodes p =
     rbind (build_tree nodes) (\<lambda>tree.
       let ordered = leaves tree in
       if int (length ordered) < rs_n p then Inl ValueError
       else if rs_n p = 0 then Inl ZeroDivisionError
       else
         let stride = stride_of (length ordered) (rs_n p) in
         Inr (fold (\<lambda>i d. dset d (strided_node ordered stride i) (shard_name i)) [0..<nat (rs_n p)] []))"

text \<open>
  The placement loop shared by \<open>disperse_with_replicas\<close> and \<open>_place\<close>: every key gets
  \<open>replicas\<close> consecutive slots, a slot being a strided position in the ordered leaves.
\<close>

definition place_slot :: "string list \<Rightarrow> nat \<Rightarrow> 'k \<Rightarrow> ('k, string list) dict \<times> nat \<Rightarrow> ('k, string list) dict \<times> nat" where
  "place_slot ordered stride key = (\<lambda>(out, slot).
     (dset out key (dgetdef out key [] @ [strided_node ordered stride slot]), slot + 1))"

definition place_loop :: "string list \<Rightarrow> nat \<Rightarrow> nat \<Rightarrow> 'k list \<Rightarrow> ('k, string list) dict" where
  "place_loop ordered stride r keys =
     fst (fold (\<lambda>key st. fold (\<lambda>_. place_slot ordered stride key) [0..<r] st) keys
            (map (\<lambda>key. (key, [])) keys, 0))"

definition disperse_with_replicas :: "string list \<Rightarrow> Placement \<Rightarrow> (string, string list) dict result" where
  "disperse_with_replicas nodes p =
     rbind (build_tree nodes) (\<lambda>tree.
       let ordered = leaves tree; slots = rs_n p * shard_replicas p in
       if int (length ordered) < slots then Inl ValueError
       else if slots = 0 then Inl ZeroDivisionError
       else Inr (place_loop ordered (stride_of (length ordered) slots) (nat (shard_replicas p))
                   (map shard_name [0..<nat (rs_n p)])))"

section \<open>Strided slots are distinct nodes\<close>

lemma stride_bound:
  assumes "0 < slots" "slots \<le> int len" "int slot < slots"
  shows "slot * stride_of len slots < len"
proof -
  define q where "q = len div nat slots"
  have t: "0 < nat slots" "nat slots \<le> len" using assms by auto
  then have "1 \<le> q" by (simp add: q_def less_eq_div_iff_mult_less_eq)
  moreover have "int len div slots = int q" using assms(1) by (simp add: q_def zdiv_int)
  ultimately have s: "stride_of len slots = q" by (simp add: stride_of_def)
  have "slot < nat slots" using assms by linarith
  then have "slot * q < nat slots * q" using \<open>1 \<le> q\<close> by simp
  also have "\<dots> \<le> len" by (simp add: q_def)
  finally show ?thesis by (simp add: s)
qed

lemma stride_pos: "0 < stride_of len slots"
  by (simp add: stride_of_def)

lemma strided_node_inj:
  assumes "distinct ordered" "0 < slots" "slots \<le> int (length ordered)"
    and "int i < slots" "int j < slots"
    and "strided_node ordered (stride_of (length ordered) slots) i
         = strided_node ordered (stride_of (length ordered) slots) j"
  shows "i = j"
proof -
  let ?s = "stride_of (length ordered) slots"
  have "i * ?s < length ordered" "j * ?s < length ordered"
    using assms by (auto intro: stride_bound)
  with assms(1,6) have "i * ?s = j * ?s"
    by (simp add: strided_node_def nth_eq_iff_index_eq)
  then show ?thesis using stride_pos [of "length ordered" slots] by simp
qed

lemma strided_node_in: "ordered \<noteq> [] \<Longrightarrow> strided_node ordered s i \<in> set ordered"
  by (simp add: strided_node_def)

lemma place_slots_inner:
  assumes "distinct keys" "key \<in> set keys"
  shows "fold (\<lambda>_. place_slot ordered stride key) ns (map (\<lambda>x. (x, f x)) keys, slot)
       = (map (\<lambda>x. (x, if x = key then f x @ map (\<lambda>r. strided_node ordered stride (slot + r)) [0..<length ns] else f x)) keys,
          slot + length ns)"
proof (induction ns arbitrary: f slot)
  case Nil
  have "map (\<lambda>x. (x, if x = key then f x else f x)) keys = map (\<lambda>x. (x, f x)) keys" by simp
  then show ?case by simp
next
  case (Cons n ns)
  let ?f = "\<lambda>x. if x = key then f x @ [strided_node ordered stride slot] else f x"
  have step: "place_slot ordered stride key (map (\<lambda>x. (x, f x)) keys, slot) = (map (\<lambda>x. (x, ?f x)) keys, slot + 1)"
  proof -
    have "dset (map (\<lambda>x. (x, f x)) keys) key (f key @ [strided_node ordered stride slot]) = map (\<lambda>x. (x, ?f x)) keys"
      using assms by (subst dset_map_pairs) auto
    then show ?thesis using assms by (simp add: place_slot_def dgetdef_def dget_map_pairs)
  qed
  have "map (\<lambda>r. strided_node ordered stride (slot + r)) [0..<Suc (length ns)]
      = strided_node ordered stride slot # map (\<lambda>r. strided_node ordered stride (slot + 1 + r)) [0..<length ns]"
    by (simp only: upt_conv_Cons [of 0 "Suc (length ns)"] map_Suc_upt [symmetric]) (simp add: comp_def)
  with Cons.IH [of ?f "slot + 1"] step show ?case by simp
qed

lemma place_loop_fold:
  assumes "distinct keys" "distinct ks" "set ks \<subseteq> set keys"
  shows "\<exists>g. fold (\<lambda>key st. fold (\<lambda>_. place_slot ordered stride key) [0..<r] st) ks (map (\<lambda>x. (x, f x)) keys, slot)
             = (map (\<lambda>x. (x, g x)) keys, slot + length ks * r)
         \<and> (\<forall>x. x \<notin> set ks \<longrightarrow> g x = f x)
         \<and> (\<forall>i < length ks. g (ks ! i) = f (ks ! i) @ map (\<lambda>j. strided_node ordered stride (slot + i * r + j)) [0..<r])"
  using assms(2,3)
proof (induction ks arbitrary: f slot)
  case (Cons k ks)
  let ?f = "\<lambda>x. if x = k then f x @ map (\<lambda>j. strided_node ordered stride (slot + j)) [0..<r] else f x"
  have step: "fold (\<lambda>_. place_slot ordered stride k) [0..<r] (map (\<lambda>x. (x, f x)) keys, slot)
      = (map (\<lambda>x. (x, ?f x)) keys, slot + r)"
    using place_slots_inner [OF assms(1), of k ordered stride "[0..<r]" f slot] Cons.prems by simp
  obtain g where g: "fold (\<lambda>key st. fold (\<lambda>_. place_slot ordered stride key) [0..<r] st) ks (map (\<lambda>x. (x, ?f x)) keys, slot + r)
             = (map (\<lambda>x. (x, g x)) keys, slot + r + length ks * r)"
    and out: "\<And>x. x \<notin> set ks \<Longrightarrow> g x = ?f x"
    and ins: "\<And>i. i < length ks \<Longrightarrow> g (ks ! i) = ?f (ks ! i) @ map (\<lambda>j. strided_node ordered stride (slot + r + i * r + j)) [0..<r]"
    using Cons.IH [of ?f "slot + r"] Cons.prems by auto
  have "g ((k # ks) ! i) = f ((k # ks) ! i) @ map (\<lambda>j. strided_node ordered stride (slot + i * r + j)) [0..<r]"
    if "i < length (k # ks)" for i
  proof (cases i)
    case 0
    then show ?thesis using out [of k] Cons.prems(1) by simp
  next
    case (Suc m)
    then have "m < length ks" "ks ! m \<noteq> k" using that Cons.prems(1) by auto
    with ins [of m] Suc show ?thesis by (simp add: algebra_simps)
  qed
  with step g out show ?case by (intro exI [of _ g]) (auto simp: algebra_simps)
qed auto

lemma place_loop:
  assumes "distinct keys"
  shows "dkeys (place_loop ordered stride r keys) = keys"
    and "i < length keys \<Longrightarrow> dget (place_loop ordered stride r keys) (keys ! i)
           = Some (map (\<lambda>j. strided_node ordered stride (i * r + j)) [0..<r])"
proof -
  obtain g where f: "fold (\<lambda>key st. fold (\<lambda>_. place_slot ordered stride key) [0..<r] st) keys
        (map (\<lambda>x. (x, [])) keys, 0) = (map (\<lambda>x. (x, g x)) keys, 0 + length keys * r)"
    and all: "\<forall>i < length keys. g (keys ! i) = [] @ map (\<lambda>j. strided_node ordered stride (0 + i * r + j)) [0..<r]"
    using place_loop_fold [OF assms assms subset_refl, of ordered stride r "\<lambda>_. []" 0] by blast
  have g: "place_loop ordered stride r keys = map (\<lambda>x. (x, g x)) keys"
    by (simp add: place_loop_def f)
  have ins: "\<And>i. i < length keys \<Longrightarrow> g (keys ! i) = map (\<lambda>j. strided_node ordered stride (i * r + j)) [0..<r]"
    using all by simp
  show "dkeys (place_loop ordered stride r keys) = keys" by (simp add: g)
  show "i < length keys \<Longrightarrow> dget (place_loop ordered stride r keys) (keys ! i)
           = Some (map (\<lambda>j. strided_node ordered stride (i * r + j)) [0..<r])"
    by (simp add: g dget_map_pairs ins)
qed

text \<open>
  What the placement loop guarantees: with enough distinct nodes every key has exactly r nodes, all
  of them mesh nodes, and no node serves two slots.
\<close>

lemma slot_bound: "i < n \<Longrightarrow> j < r \<Longrightarrow> i * r + j < n * (r :: nat)"
proof -
  assume "i < n" "j < r"
  then have "i * r + j < (i + 1) * r" by simp
  also have "\<dots> \<le> n * r" using \<open>i < n\<close> by (intro mult_right_mono) auto
  finally show ?thesis .
qed

lemma slot_inj:
  assumes "(j :: nat) < r" "j' < r" "i * r + j = i' * r + j'"
  shows "i = i' \<and> j = j'"
proof -
  have "(i * r + j) div r = i" "(i' * r + j') div r = i'" using assms(1,2) by auto
  then have "i = i'" using assms(3) by simp
  with assms(3) show ?thesis by simp
qed

lemma place_loop_nodes:
  assumes "distinct keys" "distinct ordered" "slots = int (length keys * r)" "0 < slots" "slots \<le> int (length ordered)"
    and pl: "pl = place_loop ordered (stride_of (length ordered) slots) r keys"
  shows "\<forall>x ns. dget pl x = Some ns \<longrightarrow> length ns = r \<and> distinct ns \<and> set ns \<subseteq> set ordered"
    and "\<forall>x y ns ms. dget pl x = Some ns \<and> dget pl y = Some ms \<and> x \<noteq> y \<longrightarrow> set ns \<inter> set ms = {}"
proof -
  let ?node = "strided_node ordered (stride_of (length ordered) slots)"
  have idx: "\<exists>i < length keys. x = keys ! i \<and> ns = map (\<lambda>j. ?node (i * r + j)) [0..<r]"
    if "dget pl x = Some ns" for x ns
  proof -
    have "x \<in> set keys" using that place_loop(1) [OF assms(1)] dget_None_iff [of pl x] by (auto simp: pl)
    then obtain i where "i < length keys" "x = keys ! i" by (auto simp: in_set_conv_nth)
    with that place_loop(2) [OF assms(1), of i] show ?thesis by (auto simp: pl)
  qed
  have inj: "?node (i * r + j) = ?node (i' * r + j') \<Longrightarrow> i = i' \<and> j = j'"
    if "i < length keys" "i' < length keys" "j < r" "j' < r" for i i' j j'
  proof -
    have "int (i * r + j) < slots" "int (i' * r + j') < slots"
      unfolding assms(3) of_nat_less_iff using that by (auto intro: slot_bound)
    moreover assume "?node (i * r + j) = ?node (i' * r + j')"
    ultimately have "i * r + j = i' * r + j'" using assms(2,4,5) by (blast intro: strided_node_inj)
    then show ?thesis using slot_inj that by blast
  qed
  have ne: "ordered \<noteq> []" using assms(4,5) by auto
  show "\<forall>x ns. dget pl x = Some ns \<longrightarrow> length ns = r \<and> distinct ns \<and> set ns \<subseteq> set ordered"
  proof (intro allI impI)
    fix x ns assume "dget pl x = Some ns"
    then obtain i where i: "i < length keys" "ns = map (\<lambda>j. ?node (i * r + j)) [0..<r]" using idx by blast
    have "inj_on (\<lambda>j. ?node (i * r + j)) (set [0..<r])"
      by (rule inj_onI) (use inj [OF i(1) i(1)] in auto)
    then show "length ns = r \<and> distinct ns \<and> set ns \<subseteq> set ordered"
      using i(2) strided_node_in [OF ne] by (auto simp: distinct_map)
  qed
  show "\<forall>x y ns ms. dget pl x = Some ns \<and> dget pl y = Some ms \<and> x \<noteq> y \<longrightarrow> set ns \<inter> set ms = {}"
  proof (intro allI impI)
    fix x y ns ms assume *: "dget pl x = Some ns \<and> dget pl y = Some ms \<and> x \<noteq> y"
    obtain i where i: "i < length keys" "x = keys ! i" "ns = map (\<lambda>j. ?node (i * r + j)) [0..<r]" using idx * by blast
    obtain i' where i': "i' < length keys" "y = keys ! i'" "ms = map (\<lambda>j. ?node (i' * r + j)) [0..<r]" using idx * by blast
    have "i \<noteq> i'" using * i(2) i'(2) by blast
    then have "?node (i * r + j) \<noteq> ?node (i' * r + j')" if "j < r" "j' < r" for j j'
      using inj [OF i(1) i'(1) that] by blast
    then show "set ns \<inter> set ms = {}" unfolding i(3) i'(3) by auto
  qed
qed

lemma disperse_with_replicas_Inr:
  assumes "distinct nodes" "disperse_with_replicas nodes p = Inr out"
    and "0 < rs_n p" "0 < shard_replicas p"
  shows "dkeys out = map shard_name [0..<nat (rs_n p)]" "dwf out" "int (length out) = rs_n p"
    and "\<forall>x ns. (x, ns) \<in> set out \<longrightarrow> int (length ns) = shard_replicas p \<and> distinct ns \<and> set ns \<subseteq> set nodes"
    and "\<forall>x y ns ms. (x, ns) \<in> set out \<and> (y, ms) \<in> set out \<and> x \<noteq> y \<longrightarrow> set ns \<inter> set ms = {}"
proof -
  let ?keys = "map shard_name [0..<nat (rs_n p)]"
  have dk: "distinct ?keys" by (auto simp: distinct_map inj_on_def shard_name_def)
  from assms(2) obtain t where t: "build_tree nodes = Inr t"
    by (auto simp: disperse_with_replicas_def rbind_eq_Inr)
  then have "nodes \<noteq> []" using build_tree_empty by auto
  then have lv: "leaves t = nodes" using build_tree_ok [of nodes] t by auto
  let ?slots = "rs_n p * shard_replicas p"
  have le: "?slots \<le> int (length nodes)" and
    out: "out = place_loop nodes (stride_of (length nodes) ?slots) (nat (shard_replicas p)) ?keys"
    using assms(2) t lv by (auto simp: disperse_with_replicas_def Let_def split: if_splits)
  have slots: "?slots = int (length ?keys * nat (shard_replicas p))" using assms(3,4) by simp
  have pos: "0 < ?slots" using assms(3,4) by simp
  note P = place_loop_nodes [OF dk assms(1) slots pos le out]
  show keys: "dkeys out = ?keys" unfolding out by (rule place_loop(1) [OF dk])
  then show wf: "dwf out" using dk by (simp add: dwf_def dkeys_def)
  show "int (length out) = rs_n p"
    using arg_cong [OF keys, of length] assms(3) by (simp add: dkeys_def)
  have get: "(x, ns) \<in> set out \<Longrightarrow> dget out x = Some ns" for x ns using dget_in_dwf [OF wf] .
  show "\<forall>x ns. (x, ns) \<in> set out \<longrightarrow> int (length ns) = shard_replicas p \<and> distinct ns \<and> set ns \<subseteq> set nodes"
  proof (intro allI impI)
    fix x ns assume "(x, ns) \<in> set out"
    then have "length ns = nat (shard_replicas p) \<and> distinct ns \<and> set ns \<subseteq> set nodes"
      using P(1) get by blast
    then show "int (length ns) = shard_replicas p \<and> distinct ns \<and> set ns \<subseteq> set nodes"
      using assms(4) by simp
  qed
  show "\<forall>x y ns ms. (x, ns) \<in> set out \<and> (y, ms) \<in> set out \<and> x \<noteq> y \<longrightarrow> set ns \<inter> set ms = {}"
    using P(2) get by blast
qed

section \<open>Seizure tolerance\<close>

text \<open>A shard survives a seizure when one of its nodes is not seized.\<close>

definition shard_lost :: "string set \<Rightarrow> 'k \<times> string list \<Rightarrow> bool" where
  "shard_lost seized sh \<longleftrightarrow> set (snd sh) \<subseteq> seized"

definition surviving :: "('k, string list) dict \<Rightarrow> string set \<Rightarrow> int" where
  "surviving out seized = int (length (filter (\<lambda>sh. \<not> shard_lost seized sh) out))"

lemma surviving_plus_lost:
  "surviving out seized + int (length (filter (shard_lost seized) out)) = int (length out)"
  using sum_length_filter_compl [of "shard_lost seized" out] by (simp add: surviving_def)

lemma card_shard_nodes:
  assumes "distinct (map fst shs)" "\<forall>x ns. (x, ns) \<in> set shs \<longrightarrow> length ns = r \<and> distinct ns"
    and "\<forall>x y ns ms. (x, ns) \<in> set shs \<and> (y, ms) \<in> set shs \<and> x \<noteq> y \<longrightarrow> set ns \<inter> set ms = {}"
  shows "card (\<Union>sh \<in> set shs. set (snd sh)) = length shs * r"
  using assms
proof (induction shs)
  case (Cons sh shs)
  obtain x ns where sh: "sh = (x, ns)" by fastforce
  have "set ns \<inter> set (snd q) = {}" if "q \<in> set shs" for q
  proof -
    obtain y ms where q: "q = (y, ms)" by fastforce
    with that have "y \<in> set (map fst shs)" by (auto intro: rev_image_eqI)
    then have "x \<noteq> y" using Cons.prems(1) sh by auto
    then show ?thesis using Cons.prems(3) [rule_format, of x ns y ms] that q sh by simp
  qed
  then have "set ns \<inter> (\<Union>sh \<in> set shs. set (snd sh)) = {}" by blast
  moreover have "card (set ns) = r" using Cons.prems(2) sh by (auto simp: distinct_card)
  moreover have "card (\<Union>sh \<in> set shs. set (snd sh)) = length shs * r"
  proof (rule Cons.IH)
    show "distinct (map fst shs)" using Cons.prems(1) by simp
    show "\<forall>x ns. (x, ns) \<in> set shs \<longrightarrow> length ns = r \<and> distinct ns" using Cons.prems(2) by simp
    show "\<forall>x y ns ms. (x, ns) \<in> set shs \<and> (y, ms) \<in> set shs \<and> x \<noteq> y \<longrightarrow> set ns \<inter> set ms = {}"
      using Cons.prems(3) by (metis list.set_intros(2))
  qed
  ultimately show ?case using sh by (simp add: card_Un_disjoint)
qed simp

text \<open>
  The exact worst case: a leaf survives every seizure of fewer than (m + 1) R nodes, and some
  seizure of (m + 1) R nodes destroys it.
\<close>

text \<open>A placement: distinct keys, r distinct nodes each, no node used twice.\<close>

definition spread :: "('k, string list) dict \<Rightarrow> nat \<Rightarrow> bool" where
  "spread out r \<longleftrightarrow> dwf out \<and> (\<forall>x ns. (x, ns) \<in> set out \<longrightarrow> length ns = r \<and> distinct ns) \<and>
     (\<forall>x y ns ms. (x, ns) \<in> set out \<and> (y, ms) \<in> set out \<and> x \<noteq> y \<longrightarrow> set ns \<inter> set ms = {})"

lemma spread_filter: "spread out r \<Longrightarrow> spread (filter P out) r"
  unfolding spread_def dwf_def set_filter by (auto simp: distinct_map_filter; blast)

lemma spread_take: "spread out r \<Longrightarrow> spread (take n out) r"
  using set_take_subset [of n out] unfolding spread_def dwf_def take_map [symmetric]
  by (meson distinct_take subsetD)

lemma spread_card: "spread out r \<Longrightarrow> card (\<Union>sh \<in> set out. set (snd sh)) = length out * r"
  by (rule card_shard_nodes) (auto simp: spread_def dwf_def)

lemma lost_bound:
  assumes "spread out r" "finite seized"
  shows "length (filter (shard_lost seized) out) * r \<le> card seized"
proof -
  let ?L = "filter (shard_lost seized) out"
  have "(\<Union>sh \<in> set ?L. set (snd sh)) \<subseteq> seized" by (auto simp: shard_lost_def)
  then show ?thesis using spread_card [OF spread_filter [OF assms(1)]] card_mono [OF assms(2)] by metis
qed

lemma disperse_spread:
  assumes "distinct nodes" "disperse_with_replicas nodes p = Inr out" "0 < rs_n p" "0 < shard_replicas p"
  shows "spread out (nat (shard_replicas p))"
proof -
  note D = disperse_with_replicas_Inr [OF assms]
  have "length ns = nat (shard_replicas p) \<and> distinct ns" if "(x, ns) \<in> set out" for x ns
    using D(4) that by (metis nat_int)
  with D(2,5) show ?thesis unfolding spread_def by blast
qed

lemma few_lost:
  assumes "spread out r" "finite seized" "card seized < (m + 1) * r"
  shows "length (filter (shard_lost seized) out) \<le> m"
proof -
  have "length (filter (shard_lost seized) out) * r < (m + 1) * r"
    using lost_bound [OF assms(1,2)] assms(3) by linarith
  then have "length (filter (shard_lost seized) out) < m + 1" by (simp only: mult_less_cancel2)
  then show ?thesis by simp
qed

lemma survives_below_threshold:
  assumes "distinct nodes" "disperse_with_replicas nodes p = Inr out"
    and "1 \<le> rs_k p" "0 \<le> rs_m p" "1 \<le> shard_replicas p" "finite seized"
    and "int (card seized) < (rs_m p + 1) * shard_replicas p"
  shows "durable (surviving out seized) p"
proof -
  have pos: "0 < rs_n p" "0 < shard_replicas p" using assms(3-5) by (simp_all add: rs_n_def)
  have "card seized < (nat (rs_m p) + 1) * nat (shard_replicas p)"
  proof -
    have "int ((nat (rs_m p) + 1) * nat (shard_replicas p)) = (rs_m p + 1) * shard_replicas p"
      using assms(4,5) by (simp add: algebra_simps)
    with assms(7) show ?thesis by linarith
  qed
  then have "length (filter (shard_lost seized) out) \<le> nat (rs_m p)"
    by (rule few_lost [OF disperse_spread [OF assms(1,2) pos] assms(6)])
  moreover have "int (length out) = rs_n p" using disperse_with_replicas_Inr(3) [OF assms(1,2) pos] .
  ultimately show ?thesis
    using surviving_plus_lost [of out seized] assms(4) by (simp add: durable_def rs_n_def)
qed

lemma dies_at_threshold:
  assumes "distinct nodes" "disperse_with_replicas nodes p = Inr out"
    and "1 \<le> rs_k p" "0 \<le> rs_m p" "1 \<le> shard_replicas p"
  shows "\<exists>seized \<subseteq> set nodes. int (card seized) = (rs_m p + 1) * shard_replicas p
           \<and> \<not> durable (surviving out seized) p"
proof -
  have pos: "0 < rs_n p" "0 < shard_replicas p" using assms(3-5) by (simp_all add: rs_n_def)
  note D = disperse_with_replicas_Inr [OF assms(1,2) pos]
  let ?m = "nat (rs_m p + 1)"
  let ?T = "take ?m out"
  let ?S = "\<Union>sh \<in> set ?T. set (snd sh)"
  have len: "length ?T = ?m" using D(3) assms(3,4) by (simp add: rs_n_def)
  have sub: "set ?T \<subseteq> set out" by (rule set_take_subset)
  have "card ?S = length ?T * nat (shard_replicas p)"
    by (rule spread_card [OF spread_take [OF disperse_spread [OF assms(1,2) pos]]])
  then have card: "int (card ?S) = (rs_m p + 1) * shard_replicas p"
    using len assms(4,5) by simp
  have "?S \<subseteq> set nodes" using D(4) sub by fastforce
  moreover have "filter (shard_lost ?S) ?T = ?T" by (intro filter_True) (auto simp: shard_lost_def)
  then have "?m \<le> length (filter (shard_lost ?S) out)"
    using len length_filter_mono filter_append [of "shard_lost ?S" ?T "drop ?m out"]
    by (metis append_take_drop_id le_add1 length_append)
  then have "\<not> durable (surviving out ?S) p"
    using surviving_plus_lost [of out ?S] D(3) assms(4) by (simp add: durable_def rs_n_def)
  ultimately show ?thesis using card by blast
qed

section \<open>Survival probability\<close>

lemma py_pow_nonneg: "0 \<le> e \<Longrightarrow> py_pow b e = Inr (b ^ nat e)"
  by (simp add: py_pow_def)

lemma binomial_tail_bounds:
  fixes q :: rat
  assumes "0 \<le> q" "q \<le> 1"
  shows "0 \<le> (\<Sum>j = k..n. of_nat (n choose j) * q ^ j * (1 - q) ^ (n - j))"
    and "(\<Sum>j = k..n. of_nat (n choose j) * q ^ j * (1 - q) ^ (n - j)) \<le> 1"
proof -
  let ?t = "\<lambda>j. of_nat (n choose j) * q ^ j * (1 - q) ^ (n - j)"
  have nn: "0 \<le> ?t j" for j using assms by simp
  then show "0 \<le> sum ?t {k..n}" by (intro sum_nonneg) simp
  have "sum ?t {k..n} \<le> sum ?t {..n}" using nn by (intro sum_mono2) auto
  also have "\<dots> = (q + (1 - q)) ^ n" by (subst binomial_ring) simp
  finally show "sum ?t {k..n} \<le> 1" by simp
qed

lemma survival_probability_eq:
  assumes "1 \<le> rs_k p" "0 \<le> rs_m p" "0 \<le> shard_replicas p"
  shows "survival_probability p f = Inr (\<Sum>j = nat (rs_k p)..nat (rs_n p).
           of_nat (nat (rs_n p) choose j) * (1 - f ^ nat (shard_replicas p)) ^ j
             * (1 - (1 - f ^ nat (shard_replicas p))) ^ (nat (rs_n p) - j))"
proof -
  let ?q = "1 - f ^ nat (shard_replicas p)"
  let ?n = "nat (rs_n p)" and ?k = "nat (rs_k p)"
  let ?t = "\<lambda>j. of_nat (?n choose j) * ?q ^ j * (1 - ?q) ^ (?n - j)"
  have n: "0 \<le> rs_n p" using assms by (simp add: rs_n_def)
  have "tail_term ?q (rs_n p) j = Inr (?t (nat j))" if "j \<in> set [rs_k p..rs_n p]" for j
  proof -
    have j: "0 \<le> j" "j \<le> rs_n p" using that assms(1) by auto
    then have "nat (rs_n p - j) = ?n - nat j" by (simp add: nat_diff_distrib)
    with j n show ?thesis by (simp add: tail_term_def comb_def py_pow_nonneg)
  qed
  then have "rmap (tail_term ?q (rs_n p)) [rs_k p..rs_n p] = Inr (map (\<lambda>j. ?t (nat j)) [rs_k p..rs_n p])"
    by (rule rmap_all_Inr)
  moreover have "sum_list (map (\<lambda>j. ?t (nat j)) [rs_k p..rs_n p]) = (\<Sum>j \<in> {rs_k p..rs_n p}. ?t (nat j))"
    by (simp add: sum_list_distinct_conv_sum_set)
  moreover have "(\<Sum>j \<in> {rs_k p..rs_n p}. ?t (nat j)) = sum ?t {?k..?n}"
    by (rule sum.reindex_bij_witness [of _ int nat]) (use assms(1) n in auto)
  ultimately show ?thesis
    using assms(3) by (simp add: survival_probability_def py_pow_nonneg Let_def)
qed

end
