(* ===== verification/Py_Values.thy ===== *)
theory Py_Values
  imports Py_Text
begin

text \<open>
  Dynamically typed values: what \<open>yaml.safe_load\<close>, \<open>json.loads\<close> and the beacon and record
  dicts hold. A float is an exact rational, an infinity or a NaN, with Python's comparison rules
  (a NaN compares false with everything). Dict keys are strings. The operations raise the exception
  Python raises when they meet a value of the wrong type.
\<close>

datatype pyfloat = Fin rat | PInf | NInf | NaN

datatype pyval =
    VNone
  | VBool bool
  | VInt int
  | VFloat pyfloat
  | VStr string
  | VList "pyval list"
  | VDict "(string \<times> pyval) list"

section \<open>Floats\<close>

fun flt_less :: "pyfloat \<Rightarrow> pyfloat \<Rightarrow> bool" where
  "flt_less (Fin a) (Fin b) \<longleftrightarrow> a < b"
| "flt_less (Fin a) PInf \<longleftrightarrow> True"
| "flt_less NInf (Fin b) \<longleftrightarrow> True"
| "flt_less NInf PInf \<longleftrightarrow> True"
| "flt_less _ _ \<longleftrightarrow> False"

fun flt_eq :: "pyfloat \<Rightarrow> pyfloat \<Rightarrow> bool" where
  "flt_eq (Fin a) (Fin b) \<longleftrightarrow> a = b"
| "flt_eq PInf PInf \<longleftrightarrow> True"
| "flt_eq NInf NInf \<longleftrightarrow> True"
| "flt_eq _ _ \<longleftrightarrow> False"

definition flt_le :: "pyfloat \<Rightarrow> pyfloat \<Rightarrow> bool" where
  "flt_le a b \<longleftrightarrow> flt_less a b \<or> flt_eq a b"

text \<open>\<open>max(a, b)\<close> and \<open>min(a, b)\<close> keep the first argument unless the second is strictly better.\<close>

definition flt_max :: "pyfloat \<Rightarrow> pyfloat \<Rightarrow> pyfloat" where
  "flt_max a b = (if flt_less a b then b else a)"

definition flt_min :: "pyfloat \<Rightarrow> pyfloat \<Rightarrow> pyfloat" where
  "flt_min a b = (if flt_less b a then b else a)"

lemma flt_less_irrefl [simp]: "\<not> flt_less a a"
  by (cases a) auto

lemma flt_le_Fin [simp]: "flt_le (Fin a) (Fin b) \<longleftrightarrow> a \<le> b"
  by (auto simp: flt_le_def)

lemma flt_le_NaN [simp]: "\<not> flt_le NaN b" "\<not> flt_le a NaN"
  by (cases a; cases b; simp add: flt_le_def)+

lemma flt_max_Fin [simp]: "flt_max (Fin a) (Fin b) = Fin (max a b)"
  by (auto simp: flt_max_def)

lemma flt_min_Fin [simp]: "flt_min (Fin a) (Fin b) = Fin (min a b)"
  by (auto simp: flt_min_def min_def)

section \<open>Operations on values\<close>

fun truthy :: "pyval \<Rightarrow> bool" where
  "truthy VNone \<longleftrightarrow> False"
| "truthy (VBool b) \<longleftrightarrow> b"
| "truthy (VInt i) \<longleftrightarrow> i \<noteq> 0"
| "truthy (VFloat f) \<longleftrightarrow> f \<noteq> Fin 0"
| "truthy (VStr s) \<longleftrightarrow> s \<noteq> []"
| "truthy (VList vs) \<longleftrightarrow> vs \<noteq> []"
| "truthy (VDict d) \<longleftrightarrow> d \<noteq> []"

definition v_or :: "pyval \<Rightarrow> pyval \<Rightarrow> pyval" where
  "v_or a b = (if truthy a then a else b)"

text \<open>\<open>v.get(k, default)\<close> and \<open>v[k]\<close>.\<close>

fun vget :: "pyval \<Rightarrow> string \<Rightarrow> pyval \<Rightarrow> pyval result" where
  "vget (VDict d) k dflt = Inr (dgetdef d k dflt)"
| "vget _ k dflt = Inl AttributeError"

fun vindex :: "pyval \<Rightarrow> string \<Rightarrow> pyval result" where
  "vindex (VDict d) k = (case dget d k of None \<Rightarrow> Inl KeyError | Some v \<Rightarrow> Inr v)"
| "vindex _ k = Inl TypeError"

definition is_str :: "pyval \<Rightarrow> bool" where
  "is_str v \<longleftrightarrow> (case v of VStr _ \<Rightarrow> True | _ \<Rightarrow> False)"

definition is_dict :: "pyval \<Rightarrow> bool" where
  "is_dict v \<longleftrightarrow> (case v of VDict _ \<Rightarrow> True | _ \<Rightarrow> False)"

definition is_list :: "pyval \<Rightarrow> bool" where
  "is_list v \<longleftrightarrow> (case v of VList _ \<Rightarrow> True | _ \<Rightarrow> False)"

text \<open>Substring test, for \<open>s in text\<close>.\<close>

fun substring :: "string \<Rightarrow> string \<Rightarrow> bool" where
  "substring p [] \<longleftrightarrow> p = []"
| "substring p (c # s) \<longleftrightarrow> startswith (c # s) p \<or> substring p s"

text \<open>\<open>x in container\<close>.\<close>

fun v_in :: "pyval \<Rightarrow> pyval \<Rightarrow> bool result" where
  "v_in (VStr s) (VDict d) = Inr (s \<in> set (dkeys d))"
| "v_in (VList _) (VDict d) = Inl TypeError"
| "v_in (VDict _) (VDict d) = Inl TypeError"
| "v_in _ (VDict d) = Inr False"
| "v_in v (VList vs) = Inr (v \<in> set vs)"
| "v_in (VStr p) (VStr s) = Inr (substring p s)"
| "v_in _ _ = Inl TypeError"

text \<open>
  \<open>int(v)\<close>: truncates a float, reads a decimal numeral with an optional sign and surrounding
  blanks.
\<close>

definition trunc_rat :: "rat \<Rightarrow> int" where
  "trunc_rat q = (if 0 \<le> q then \<lfloor>q\<rfloor> else \<lceil>q\<rceil>)"

definition is_blank :: "char \<Rightarrow> bool" where
  "is_blank c \<longleftrightarrow> of_char c \<in> {9, 10, 11, 12, 13, 28, 29, 30, 31, 32, 133, 160 :: nat}"

definition strip :: "string \<Rightarrow> string" where
  "strip s = rev (dropWhile is_blank (rev (dropWhile is_blank s)))"

definition int_of_str :: "string \<Rightarrow> int result" where
  "int_of_str s =
     (let t = strip s;
          (neg, ds) = (if t \<noteq> [] \<and> hd t = CHR ''-'' then (True, tl t)
                       else if t \<noteq> [] \<and> hd t = CHR ''+'' then (False, tl t) else (False, t)) in
      if ds = [] \<or> \<not> list_all is_digit ds then Inl ValueError
      else Inr (if neg then - int (str_nat ds) else int (str_nat ds)))"

fun v_int :: "pyval \<Rightarrow> int result" where
  "v_int (VInt i) = Inr i"
| "v_int (VBool b) = Inr (if b then 1 else 0)"
| "v_int (VFloat (Fin q)) = Inr (trunc_rat q)"
| "v_int (VFloat NaN) = Inl ValueError"
| "v_int (VFloat _) = Inl OtherError"
| "v_int (VStr s) = int_of_str s"
| "v_int _ = Inl TypeError"

text \<open>
  \<open>float(v)\<close>. An integer beyond the range of a double raises \<open>OverflowError\<close>
  (\<open>OtherError\<close>). A numeral inside a string is not represented (\<open>OtherError\<close>).
\<close>

definition float_limit :: int where
  "float_limit = 2 ^ 1024 - 2 ^ 970"

fun v_float :: "pyval \<Rightarrow> pyfloat result" where
  "v_float (VInt i) = (if \<bar>i\<bar> < float_limit then Inr (Fin (of_int i)) else Inl OtherError)"
| "v_float (VBool b) = Inr (Fin (if b then 1 else 0))"
| "v_float (VFloat f) = Inr f"
| "v_float (VStr s) = Inl OtherError"
| "v_float _ = Inl TypeError"

section \<open>Equality of values\<close>

fun num_of :: "pyval \<Rightarrow> pyfloat option" where
  "num_of (VBool b) = Some (Fin (if b then 1 else 0))"
| "num_of (VInt i) = Some (Fin (of_int i))"
| "num_of (VFloat f) = Some f"
| "num_of _ = None"

definition scalar_eq :: "pyval \<Rightarrow> pyval \<Rightarrow> bool" where
  "scalar_eq a b \<longleftrightarrow>
     (case (num_of a, num_of b) of
        (Some x, Some y) \<Rightarrow> flt_eq x y
      | (None, None) \<Rightarrow> (case (a, b) of (VNone, VNone) \<Rightarrow> True | (VStr s, VStr t) \<Rightarrow> s = t | _ \<Rightarrow> False)
      | _ \<Rightarrow> False)"

text \<open>\<open>a == b\<close>: numbers compare by value, dicts regardless of order.\<close>

fun v_eq :: "pyval \<Rightarrow> pyval \<Rightarrow> bool" where
  "v_eq (VList xs) b = (case b of VList ys \<Rightarrow> list_all2 v_eq xs ys | _ \<Rightarrow> False)"
| "v_eq (VDict d) b =
     (case b of
        VDict e \<Rightarrow>
          length d = length e \<and>
          list_all (\<lambda>(k, v). case dget e k of None \<Rightarrow> False | Some w \<Rightarrow> v_eq v w) d
      | _ \<Rightarrow> False)"
| "v_eq a b = scalar_eq a b"

section \<open>More of the language\<close>

fun flt_add :: "pyfloat \<Rightarrow> pyfloat \<Rightarrow> pyfloat" where
  "flt_add (Fin a) (Fin b) = Fin (a + b)"
| "flt_add NaN b = NaN"
| "flt_add a NaN = NaN"
| "flt_add PInf NInf = NaN"
| "flt_add NInf PInf = NaN"
| "flt_add PInf b = PInf"
| "flt_add NInf b = NInf"
| "flt_add a PInf = PInf"
| "flt_add a NInf = NInf"

fun flt_neg :: "pyfloat \<Rightarrow> pyfloat" where
  "flt_neg (Fin a) = Fin (- a)"
| "flt_neg PInf = NInf"
| "flt_neg NInf = PInf"
| "flt_neg NaN = NaN"

definition flt_sub :: "pyfloat \<Rightarrow> pyfloat \<Rightarrow> pyfloat" where
  "flt_sub a b = flt_add a (flt_neg b)"

text \<open>\<open>q * x\<close> for a positive constant \<open>q\<close>.\<close>

fun flt_scale :: "rat \<Rightarrow> pyfloat \<Rightarrow> pyfloat" where
  "flt_scale q (Fin a) = Fin (q * a)"
| "flt_scale q f = f"

definition flt_finite :: "pyfloat \<Rightarrow> bool" where
  "flt_finite f \<longleftrightarrow> (case f of Fin _ \<Rightarrow> True | _ \<Rightarrow> False)"

text \<open>
  \<open>str(v)\<close>. The text of a float, a list or a dict is not represented (\<open>OtherError\<close>).
\<close>

fun v_text :: "pyval \<Rightarrow> string result" where
  "v_text (VStr s) = Inr s"
| "v_text (VInt i) = Inr (int_str i)"
| "v_text (VBool b) = Inr (if b then ''True'' else ''False'')"
| "v_text VNone = Inr ''None''"
| "v_text _ = Inl OtherError"

text \<open>Iteration over a value, and membership of a value in a set of strings (the value is hashed).\<close>

fun v_iter :: "pyval \<Rightarrow> pyval list result" where
  "v_iter (VList vs) = Inr vs"
| "v_iter (VStr s) = Inr (map (\<lambda>c. VStr [c]) s)"
| "v_iter (VDict d) = Inr (map VStr (dkeys d))"
| "v_iter _ = Inl TypeError"

fun v_hashable :: "pyval \<Rightarrow> bool" where
  "v_hashable (VList _) \<longleftrightarrow> False"
| "v_hashable (VDict _) \<longleftrightarrow> False"
| "v_hashable _ \<longleftrightarrow> True"

definition v_in_set :: "pyval \<Rightarrow> string list \<Rightarrow> bool result" where
  "v_in_set v ss = (if v_hashable v then Inr (v \<in> VStr ` set ss) else Inl TypeError)"

text \<open>\<open>v or {}\<close> where a mapping is then read from the result.\<close>

definition dict_or_empty :: "pyval \<Rightarrow> (string, pyval) dict result" where
  "dict_or_empty v =
     (if truthy v then (case v of VDict d \<Rightarrow> Inr d | _ \<Rightarrow> Inl AttributeError) else Inr [])"

end
