(* ===== verification/Storage_Placement.thy ===== *)
theory Storage_Placement
  imports Storage_Resilience Py_Values
begin

text \<open>
  \<open>automation/storage_placement.py\<close>: loading and validating the declared placement of a threat
  tier, and the placement new writes use under the live threat posture. The parsed registry file
  and the parsed state file are arguments (reading and parsing them is not under \<open>src/\<close>); a file
  that cannot be read or parsed is the exception it raises.
\<close>

section \<open>The code\<close>

definition validate :: "Placement \<Rightarrow> unit result" where
  "validate p =
     (if rs_k p < 1 then Inl ValueError
      else if rs_m p < 0 then Inl ValueError
      else if replicas p < 1 then Inl ValueError
      else if shard_replicas p < 1 then Inl ValueError
      else if \<not> encrypted_at_rest p then Inl ValueError
      else Inr ())"

definition tier_to_placement :: "pyval \<Rightarrow> Placement result" where
  "tier_to_placement spec =
     rbind (rbind (vget spec ''replicas'' (VInt 3)) v_int) (\<lambda>reps.
     rbind (rbind (vindex spec ''rs_k'') v_int) (\<lambda>k.
     rbind (rbind (vindex spec ''rs_m'') v_int) (\<lambda>m.
     rbind (vget spec ''encrypted_at_rest'' (VBool True)) (\<lambda>enc.
     rbind (rbind (vget spec ''shard_replicas'' (VInt 1)) v_int) (\<lambda>r.
       Inr \<lparr>replicas = reps, rs_k = k, rs_m = m, encrypted_at_rest = truthy enc, shard_replicas = r\<rparr>)))))"

text \<open>\<open>yaml.safe_load(text) or {}\<close>.\<close>

definition registry_data :: "pyval result \<Rightarrow> pyval result" where
  "registry_data reg = rbind reg (\<lambda>v. Inr (v_or v (VDict [])))"

definition load_placement :: "pyval result \<Rightarrow> string option \<Rightarrow> Placement result" where
  "load_placement reg threat_tier =
     rbind (registry_data reg) (\<lambda>data.
     rbind (vget data ''tiers'' VNone) (\<lambda>ts.
     let tiers = v_or ts (VDict []) in
     rbind (case threat_tier of
              Some t \<Rightarrow> if t \<noteq> [] then Inr (VStr t) else vget data ''default_tier'' VNone
            | None \<Rightarrow> vget data ''default_tier'' VNone) (\<lambda>tier.
     if \<not> truthy tier then Inl ValueError
     else rbind (v_in tier tiers) (\<lambda>known.
       if \<not> known then Inl ValueError
       else
         rbind (case tier of VStr t \<Rightarrow> vindex tiers t | _ \<Rightarrow> Inl TypeError) (\<lambda>spec.
         rbind (tier_to_placement spec) (\<lambda>p.
         rbind (validate p) (\<lambda>_. Inr p)))))))"

definition load_all :: "pyval result \<Rightarrow> (string, Placement) dict result" where
  "load_all reg =
     rbind (registry_data reg) (\<lambda>data.
     rbind (vget data ''tiers'' VNone) (\<lambda>ts.
     case v_or ts (VDict []) of
       VDict items \<Rightarrow>
         rfold (\<lambda>(tier, spec) out.
            rbind (tier_to_placement spec) (\<lambda>p. rbind (validate p) (\<lambda>_. Inr (dset out tier p))))
           items []
     | _ \<Rightarrow> Inl AttributeError))"

text \<open>The state file's tier; the three exceptions the code catches select the base.\<close>

definition posture_tier :: "pyval result \<Rightarrow> pyval option result" where
  "posture_tier state =
     (case rbind state (\<lambda>v. vget v ''tier'' VNone) of
        Inr t \<Rightarrow> Inr (Some t)
      | Inl e \<Rightarrow> if e \<in> {FileNotFound, ValueError, AttributeError} then Inr None else Inl e)"

definition clamp_to_floor :: "Placement \<Rightarrow> Placement \<Rightarrow> Placement result" where
  "clamp_to_floor base chosen =
     rbind (durability_overhead chosen) (\<lambda>oc.
     rbind (durability_overhead base) (\<lambda>fl. Inr (if fl \<le> oc then chosen else base)))"

definition load_runtime_placement :: "pyval result \<Rightarrow> pyval result \<Rightarrow> Placement result" where
  "load_runtime_placement reg state =
     rbind (load_placement reg None) (\<lambda>base.
     rbind (posture_tier state) (\<lambda>tier.
     case tier of
       Some (VStr t) \<Rightarrow>
         if t = [] then Inr base
         else
           (case load_placement reg (Some t) of
              Inl e \<Rightarrow> if e = ValueError then Inr base else Inl e
            | Inr chosen \<Rightarrow> clamp_to_floor base chosen)
     | _ \<Rightarrow> Inr base))"

section \<open>Validation\<close>

definition safe_placement :: "Placement \<Rightarrow> bool" where
  "safe_placement p \<longleftrightarrow> 1 \<le> rs_k p \<and> 0 \<le> rs_m p \<and> 1 \<le> replicas p \<and> 1 \<le> shard_replicas p \<and> encrypted_at_rest p"

lemma validate_iff: "validate p = Inr u \<longleftrightarrow> safe_placement p"
  by (auto simp: validate_def safe_placement_def)

lemma load_placement_safe: "load_placement reg t = Inr p \<Longrightarrow> safe_placement p"
  by (auto simp: load_placement_def Let_def result_simps validate_iff split: if_splits)

lemma overhead_safe:
  "safe_placement p \<Longrightarrow> durability_overhead p = Inr (of_int (rs_n p * shard_replicas p) / of_int (rs_k p))"
  by (simp add: durability_overhead_def safe_placement_def)

lemma clamp_to_floor_safe:
  assumes "safe_placement base" "safe_placement chosen"
  shows "\<exists>p op fl. clamp_to_floor base chosen = Inr p \<and> p \<in> {base, chosen} \<and>
           durability_overhead p = Inr op \<and> durability_overhead base = Inr fl \<and> fl \<le> op"
  using overhead_safe [OF assms(1)] overhead_safe [OF assms(2)]
  by (auto simp: clamp_to_floor_def)

lemma runtime_placement_floor:
  assumes "load_runtime_placement reg state = Inr p"
  shows "\<exists>base op fl. load_placement reg None = Inr base \<and> safe_placement p \<and>
           durability_overhead p = Inr op \<and> durability_overhead base = Inr fl \<and> fl \<le> op"
proof -
  obtain base tier where f: "load_placement reg None = Inr base"
    and tier: "posture_tier state = Inr tier"
    using assms by (auto simp: load_runtime_placement_def result_simps)
  note sf = load_placement_safe [OF f]
  show ?thesis
  proof (cases "p = base")
    case True
    then show ?thesis using f sf overhead_safe [OF sf] by auto
  next
    case False
    with assms f tier obtain t where "tier = Some (VStr t)" "t \<noteq> []"
      by (cases tier) (auto simp: load_runtime_placement_def split: pyval.splits if_splits)
    with assms f tier False obtain chosen where
      c: "load_placement reg (Some t) = Inr chosen" "clamp_to_floor base chosen = Inr p"
      by (auto simp: load_runtime_placement_def split: sum.splits if_splits)
    then show ?thesis
      using clamp_to_floor_safe [OF sf load_placement_safe [OF c(1)]] f sf load_placement_safe [OF c(1)]
      by auto
  qed
qed

lemma runtime_placement_unreadable:
  assumes "load_placement reg None = Inr base"
    and "state \<in> {Inl FileNotFound, Inl ValueError} \<or> (\<exists>v. state = Inr v \<and> \<not> is_dict v)
         \<or> (\<exists>d. state = Inr (VDict d) \<and> dget d ''tier'' = None)"
  shows "load_runtime_placement reg state = Inr base"
proof -
  have "posture_tier state = Inr None \<or> posture_tier state = Inr (Some VNone)"
    using assms(2)
  proof (elim disjE exE conjE)
    fix v assume v: "state = Inr v" "\<not> is_dict v"
    then show ?thesis by (cases v) (auto simp: posture_tier_def is_dict_def)
  qed (auto simp: posture_tier_def dgetdef_def)
  with assms(1) show ?thesis by (auto simp: load_runtime_placement_def)
qed

section \<open>The declared tiers\<close>

text \<open>The tiers \<open>hardened\<close> (the default) and \<open>hostile\<close> of \<open>registry/mesh-storage-placement.yaml\<close>.\<close>

definition tier_value :: "int \<Rightarrow> int \<Rightarrow> int \<Rightarrow> int \<Rightarrow> pyval" where
  "tier_value reps k m r = VDict [(''replicas'', VInt reps), (''rs_k'', VInt k), (''rs_m'', VInt m),
     (''shard_replicas'', VInt r), (''encrypted_at_rest'', VBool True)]"

definition declared_registry :: pyval where
  "declared_registry = VDict [(''default_tier'', VStr ''hardened''),
     (''tiers'', VDict [(''baseline'', tier_value 3 6 3 1), (''hardened'', tier_value 3 9 9 1),
                       (''hostile'', tier_value 3 6 3 2)])]"

definition hardened :: Placement where
  "hardened = \<lparr>replicas = 3, rs_k = 9, rs_m = 9, encrypted_at_rest = True, shard_replicas = 1\<rparr>"

definition hostile :: Placement where
  "hostile = \<lparr>replicas = 3, rs_k = 6, rs_m = 3, encrypted_at_rest = True, shard_replicas = 2\<rparr>"

lemma load_declared:
  "load_placement (Inr declared_registry) None = Inr hardened"
  "load_placement (Inr declared_registry) (Some ''hostile'') = Inr hostile"
  by (simp_all add: load_placement_def registry_data_def declared_registry_def tier_value_def
      v_or_def dgetdef_def dkeys_def tier_to_placement_def validate_def hardened_def hostile_def)

lemma runtime_hostile:
  "load_runtime_placement (Inr declared_registry) (Inr (VDict [(''tier'', VStr ''hostile'')])) = Inr hostile"
  using load_declared
  by (simp add: load_runtime_placement_def posture_tier_def dgetdef_def clamp_to_floor_def
      durability_overhead_def rs_n_def hardened_def hostile_def)

section \<open>Properties\<close>

text \<open>
  C9: Fail-safe placement. Whatever the state file holds, a runtime placement that is returned has
  passed validation (k >= 1, m >= 0, at least one replica of everything, encrypted at rest) and its
  storage overhead is at least that of the reviewed default tier. An absent or malformed state
  file, or one without a tier, selects the default tier.
\<close>

theorem runtime_placement_safe:
  "(load_runtime_placement reg state = Inr p \<longrightarrow>
      (\<exists>base op fl. load_placement reg None = Inr base \<and> safe_placement p \<and>
         durability_overhead p = Inr op \<and> durability_overhead base = Inr fl \<and> fl \<le> op)) \<and>
   (load_placement reg None = Inr base \<and>
      (state \<in> {Inl FileNotFound, Inl ValueError} \<or> (\<exists>v. state = Inr v \<and> \<not> is_dict v)
        \<or> (\<exists>d. state = Inr (VDict d) \<and> dget d ''tier'' = None)) \<longrightarrow>
      load_runtime_placement reg state = Inr base)"
  using runtime_placement_floor runtime_placement_unreadable by blast

theorem runtime_placement_safe_witness:
  "safe_placement hostile \<and>
   load_runtime_placement (Inr declared_registry) (Inl FileNotFound) = Inr hardened"
  using runtime_placement_safe [of "Inr declared_registry" "Inr (VDict [(''tier'', VStr ''hostile'')])" hostile hardened]
    runtime_placement_safe [of "Inr declared_registry" "Inl FileNotFound" hardened hardened]
    runtime_hostile load_declared by blast

text \<open>
  C8: The exact seizure tolerance of a replicated erasure placement: a leaf placed on distinct
  nodes stays durable under every seizure of fewer than (m + 1) R nodes, and some seizure of
  (m + 1) R nodes makes it unrecoverable.
\<close>

theorem seizure_threshold:
  assumes "distinct nodes" "disperse_with_replicas nodes p = Inr out" "safe_placement p"
  shows "(\<forall>seized. finite seized \<and> int (card seized) < (rs_m p + 1) * shard_replicas p \<longrightarrow>
            durable (surviving out seized) p) \<and>
         (\<exists>seized \<subseteq> set nodes. int (card seized) = (rs_m p + 1) * shard_replicas p \<and>
            \<not> durable (surviving out seized) p)"
proof -
  have "1 \<le> rs_k p" "0 \<le> rs_m p" "1 \<le> shard_replicas p" using assms(3) by (simp_all add: safe_placement_def)
  with assms(1,2) show ?thesis
    by (blast intro: survives_below_threshold dies_at_threshold)
qed

theorem seizure_threshold_witness:
  "\<exists>out. disperse_with_replicas [''a'', ''b'', ''c'', ''d'']
           \<lparr>replicas = 1, rs_k = 1, rs_m = 1, encrypted_at_rest = True, shard_replicas = 2\<rparr> = Inr out \<and>
     (\<exists>seized \<subseteq> set [''a'', ''b'', ''c'', ''d'']. int (card seized) = (1 + 1) * 2 \<and>
        \<not> durable (surviving out seized)
            \<lparr>replicas = 1, rs_k = 1, rs_m = 1, encrypted_at_rest = True, shard_replicas = 2\<rparr>)"
proof -
  let ?p = "\<lparr>replicas = 1, rs_k = 1, rs_m = 1, encrypted_at_rest = True, shard_replicas = 2\<rparr>"
  obtain out where out: "disperse_with_replicas [''a'', ''b'', ''c'', ''d''] ?p = Inr out"
    using build_tree_ok [of "[''a'', ''b'', ''c'', ''d'']"]
    by (auto simp: disperse_with_replicas_def rs_n_def)
  have "safe_placement ?p" "distinct [''a'', ''b'', ''c'', ''d'']" by (simp_all add: safe_placement_def)
  with seizure_threshold [of "[''a'', ''b'', ''c'', ''d'']" ?p out] out show ?thesis by auto
qed

text \<open>
  More overhead is not more tolerance. With the declared registry, escalating the posture to
  \<open>hostile\<close> replaces the default tier, whose leaves survive every seizure of nine nodes, by one in
  which a seizure of eight nodes can destroy a leaf.
\<close>

theorem hostile_tier_tolerates_less:
  assumes "distinct nodes" "length nodes = 18"
  shows "load_runtime_placement (Inr declared_registry) (Inr (VDict [(''tier'', VStr ''hostile'')])) = Inr hostile \<and>
         load_placement (Inr declared_registry) None = Inr hardened \<and>
         (\<exists>out. disperse_with_replicas nodes hardened = Inr out \<and>
            (\<forall>seized. finite seized \<and> card seized \<le> 9 \<longrightarrow> durable (surviving out seized) hardened)) \<and>
         (\<exists>out. disperse_with_replicas nodes hostile = Inr out \<and>
            (\<exists>seized \<subseteq> set nodes. card seized = 8 \<and> \<not> durable (surviving out seized) hostile))"
proof -
  have ne: "nodes \<noteq> []" using assms(2) by auto
  then obtain t where t: "build_tree nodes = Inr t" "leaves t = nodes" using build_tree_ok by blast
  obtain o1 where o1: "disperse_with_replicas nodes hardened = Inr o1"
    using t assms(2) by (auto simp: disperse_with_replicas_def rs_n_def hardened_def)
  obtain o2 where o2: "disperse_with_replicas nodes hostile = Inr o2"
    using t assms(2) by (auto simp: disperse_with_replicas_def rs_n_def hostile_def)
  have "durable (surviving o1 seized) hardened" if "finite seized" "card seized \<le> 9" for seized
    by (rule survives_below_threshold [OF assms(1) o1]) (use that in \<open>simp_all add: hardened_def\<close>)
  moreover have "\<exists>seized \<subseteq> set nodes. int (card seized) = (rs_m hostile + 1) * shard_replicas hostile
      \<and> \<not> durable (surviving o2 seized) hostile"
    by (rule dies_at_threshold [OF assms(1) o2]) (simp_all add: hostile_def)
  then have "\<exists>seized \<subseteq> set nodes. card seized = 8 \<and> \<not> durable (surviving o2 seized) hostile"
    by (simp add: hostile_def)
  ultimately show ?thesis using o1 o2 runtime_hostile load_declared(1) by blast
qed

theorem hostile_tier_tolerates_less_witness:
  "\<exists>out. disperse_with_replicas (map nat_str [0..<18]) hostile = Inr out \<and>
     (\<exists>seized \<subseteq> set (map nat_str [0..<18]). card seized = 8 \<and> \<not> durable (surviving out seized) hostile)"
proof -
  have "distinct (map nat_str [0..<18])" "length (map nat_str [0..<18]) = 18"
    by (simp_all add: distinct_map inj_on_def del: upt_rec_numeral)
  from hostile_tier_tolerates_less [OF this] show ?thesis by blast
qed

end
