(* ===== verification/Mesh_Store.thy ===== *)
theory Mesh_Store
  imports Py_Text
begin

text \<open>
  The transport seams of the mesh. The locale \<open>frag_store\<close> is the contract \<open>leaf_propagation\<close>
  relies on (a fragment put on a node is what that node returns, and no other slot changes); the
  locale \<open>mesh_store\<close> adds the blob operations \<open>manifest_store\<close> and \<open>mesh_namespace\<close> use.
  They are interpreted on the three stores of the repository: the dictionary of
  \<open>in_memory_store\<close>, the directories of \<open>MeshFsStore\<close>, and the HTTP nodes of \<open>MeshHttpStore\<close>.
  Two keys may share a slot (a hash collision of file names); the contract is stated over slots,
  so it holds for every hash function.
\<close>

section \<open>The contracts\<close>

text \<open>A sequence of writes (node, key, data), stopping at the first exception.\<close>

definition put_seq ::
    "('s \<Rightarrow> string \<Rightarrow> string \<Rightarrow> bytes \<Rightarrow> 's result) \<Rightarrow> (string \<times> string \<times> bytes) list \<Rightarrow> 's \<Rightarrow> 's result" where
  "put_seq put ws s = rfold (\<lambda>(n, f, d) s. put s n f d) ws s"

locale frag_store =
  fixes put :: "'s \<Rightarrow> string \<Rightarrow> string \<Rightarrow> bytes \<Rightarrow> 's result"
    and get :: "'s \<Rightarrow> string \<Rightarrow> string \<Rightarrow> bytes option result"
    and fslot :: "string \<Rightarrow> string \<Rightarrow> 'a"
    and accepts :: "'s \<Rightarrow> string \<Rightarrow> bool"
  assumes put_ok: "accepts s n \<Longrightarrow> \<exists>s'. put s n f d = Inr s'"
    and accepts_put: "put s n f d = Inr s' \<Longrightarrow> accepts s' m = accepts s m"
    and get_put: "put s n f d = Inr s' \<Longrightarrow>
           get s' m g = (if fslot m g = fslot n f then Inr (Some d) else get s m g)"
begin

lemma put_seq_step:
  "put_seq put ((n, f, d) # ws) s = Inr s' \<longleftrightarrow> (\<exists>s1. put s n f d = Inr s1 \<and> put_seq put ws s1 = Inr s')"
  by (simp add: put_seq_def rbind_eq_Inr)

lemma put_seq_ok: "\<forall>w \<in> set ws. accepts s (fst w) \<Longrightarrow> \<exists>s'. put_seq put ws s = Inr s'"
proof (induction ws arbitrary: s)
  case (Cons w ws)
  obtain n f d where w: "w = (n, f, d)" by (cases w)
  obtain s1 where s1: "put s n f d = Inr s1" using put_ok [of s n f d] Cons.prems w by auto
  have "\<exists>s'. put_seq put ws s1 = Inr s'"
    using Cons.prems by (intro Cons.IH) (simp add: accepts_put [OF s1])
  with s1 w show ?case by (auto simp: put_seq_step)
qed (simp add: put_seq_def)

lemma accepts_put_seq: "put_seq put ws s = Inr s' \<Longrightarrow> accepts s' m = accepts s m"
proof (induction ws arbitrary: s)
  case (Cons w ws)
  obtain n f d where w: "w = (n, f, d)" by (cases w)
  with Cons.prems obtain s1 where "put s n f d = Inr s1" "put_seq put ws s1 = Inr s'"
    by (auto simp: put_seq_step)
  with Cons.IH accepts_put show ?case by metis
qed (simp add: put_seq_def)

lemma get_put_seq_other:
  "put_seq put ws s = Inr s' \<Longrightarrow> \<forall>(n, f, d) \<in> set ws. fslot m g \<noteq> fslot n f \<Longrightarrow> get s' m g = get s m g"
proof (induction ws arbitrary: s)
  case (Cons w ws)
  obtain n f d where w: "w = (n, f, d)" by (cases w)
  from Cons.prems(1) w obtain s1 where s1: "put s n f d = Inr s1" "put_seq put ws s1 = Inr s'"
    by (auto simp: put_seq_step)
  have "get s' m g = get s1 m g" using Cons.prems(2) by (intro Cons.IH [OF s1(2)]) simp
  also have "\<dots> = get s m g" using Cons.prems(2) w get_put [OF s1(1), of m g] by simp
  finally show ?case .
qed (simp add: put_seq_def)

lemma get_put_seq:
  assumes "put_seq put ws s = Inr s'" "\<exists>(n, f, e) \<in> set ws. fslot m g = fslot n f"
    and "\<forall>(n, f, e) \<in> set ws. fslot m g = fslot n f \<longrightarrow> e = d"
  shows "get s' m g = Inr (Some d)"
  using assms
proof (induction ws arbitrary: s)
  case (Cons w ws)
  obtain n f e where w: "w = (n, f, e)" by (cases w)
  from Cons.prems(1) w obtain s1 where s1: "put s n f e = Inr s1" "put_seq put ws s1 = Inr s'"
    by (auto simp: put_seq_step)
  show ?case
  proof (cases "\<exists>(n, f, e) \<in> set ws. fslot m g = fslot n f")
    case True
    with Cons.IH [OF s1(2)] Cons.prems(3) show ?thesis by simp
  next
    case False
    then have "fslot m g = fslot n f" using Cons.prems(2) w by auto
    then have "get s1 m g = Inr (Some d)" using get_put [OF s1(1), of m g] w Cons.prems(3) by auto
    moreover have "get s' m g = get s1 m g"
      using False by (intro get_put_seq_other [OF s1(2)]) auto
    ultimately show ?thesis by simp
  qed
qed simp

end

locale mesh_store = frag_store put get fslot accepts
  for put :: "'s \<Rightarrow> string \<Rightarrow> string \<Rightarrow> bytes \<Rightarrow> 's result"
    and get :: "'s \<Rightarrow> string \<Rightarrow> string \<Rightarrow> bytes option result"
    and fslot :: "string \<Rightarrow> string \<Rightarrow> 'a"
    and accepts :: "'s \<Rightarrow> string \<Rightarrow> bool" +
  fixes put_blob :: "'s \<Rightarrow> string \<Rightarrow> string \<Rightarrow> bytes \<Rightarrow> 's result"
    and get_blob :: "'s \<Rightarrow> string \<Rightarrow> string \<Rightarrow> bytes option result"
    and bslot :: "string \<Rightarrow> string \<Rightarrow> 'b"
  assumes put_blob_ok: "accepts s n \<Longrightarrow> \<exists>s'. put_blob s n k d = Inr s'"
    and accepts_put_blob: "put_blob s n k d = Inr s' \<Longrightarrow> accepts s' m = accepts s m"
    and get_blob_put_blob: "put_blob s n k d = Inr s' \<Longrightarrow>
           get_blob s' m g = (if bslot m g = bslot n k then Inr (Some d) else get_blob s m g)"
    and get_put_blob: "put_blob s n k d = Inr s' \<Longrightarrow> get s' m g = get s m g"
    and get_blob_put: "put s n f d = Inr s' \<Longrightarrow> get_blob s' m g = get_blob s m g"

text \<open>The blob half of a mesh store is itself a fragment store, over the blob slots.\<close>

sublocale mesh_store \<subseteq> blobs: frag_store put_blob get_blob bslot accepts
  by unfold_locales (fact put_blob_ok accepts_put_blob get_blob_put_blob)+

context mesh_store
begin

lemma get_put_blob_seq: "put_seq put_blob ws s = Inr s' \<Longrightarrow> get s' m g = get s m g"
proof (induction ws arbitrary: s)
  case (Cons w ws)
  obtain n f d where w: "w = (n, f, d)" by (cases w)
  with Cons.prems obtain s1 where "put_blob s n f d = Inr s1" "put_seq put_blob ws s1 = Inr s'"
    by (auto simp: blobs.put_seq_step)
  with Cons.IH get_put_blob show ?case by metis
qed (simp add: put_seq_def)

lemma get_blob_put_seq: "put_seq put ws s = Inr s' \<Longrightarrow> get_blob s' m g = get_blob s m g"
proof (induction ws arbitrary: s)
  case (Cons w ws)
  obtain n f d where w: "w = (n, f, d)" by (cases w)
  with Cons.prems obtain s1 where "put s n f d = Inr s1" "put_seq put ws s1 = Inr s'"
    by (auto simp: put_seq_step)
  with Cons.IH get_blob_put show ?case by metis
qed (simp add: put_seq_def)

end

section \<open>The in-memory store\<close>

type_synonym mem_store = "((string \<times> string), bytes) dict"

definition mem_put :: "mem_store \<Rightarrow> string \<Rightarrow> string \<Rightarrow> bytes \<Rightarrow> mem_store result" where
  "mem_put store node frag data = Inr (dset store (node, frag) data)"

definition mem_get :: "mem_store \<Rightarrow> string \<Rightarrow> string \<Rightarrow> bytes option result" where
  "mem_get store node frag = Inr (dget store (node, frag))"

interpretation mem: frag_store mem_put mem_get "\<lambda>n f. (n, f)" "\<lambda>_ _. True"
  by unfold_locales (auto simp: mem_put_def mem_get_def)

section \<open>The file-system store\<close>

text \<open>
  The files below the store's root, by (node directory, file name). A node's directory is named
  by a hash prefix and a sanitised copy of the node id.
\<close>

type_synonym fs_store = "((string \<times> string), bytes) dict"

definition isalnum :: "char \<Rightarrow> bool" where
  "isalnum c \<longleftrightarrow>
     (let n = of_char c :: nat in
      48 \<le> n \<and> n \<le> 57 \<or> 65 \<le> n \<and> n \<le> 90 \<or> 97 \<le> n \<and> n \<le> 122
      \<or> n \<in> {170, 178, 179, 181, 185, 186, 188, 189, 190}
      \<or> 192 \<le> n \<and> n \<noteq> 215 \<and> n \<noteq> 247)"

definition node_dir :: "(bytes \<Rightarrow> bytes) \<Rightarrow> string \<Rightarrow> string" where
  "node_dir sha node =
     take 16 (hexdigest sha (utf8 node)) @ ''-''
       @ take 40 (map (\<lambda>c. if isalnum c \<or> c \<in> set ''-_.'' then c else CHR ''_'') node)"

definition write_atomic :: "fs_store \<Rightarrow> string \<times> string \<Rightarrow> bytes \<Rightarrow> fs_store" where
  "write_atomic fs path data =
     (let tmp = (fst path, snd path @ ''.tmp'');
          fs1 = dset fs tmp data
      in dset (ddel fs1 tmp) path data)"

definition fs_read :: "fs_store \<Rightarrow> string \<times> string \<Rightarrow> bytes option" where
  "fs_read fs path = dget fs path"

definition frag_name :: "(bytes \<Rightarrow> bytes) \<Rightarrow> string \<Rightarrow> string" where
  "frag_name sha frag = ''frag-'' @ hexdigest sha (utf8 frag)"

definition blob_name :: "(bytes \<Rightarrow> bytes) \<Rightarrow> string \<Rightarrow> string" where
  "blob_name sha key = ''blob-'' @ hexdigest sha (utf8 key)"

definition fs_put :: "(bytes \<Rightarrow> bytes) \<Rightarrow> fs_store \<Rightarrow> string \<Rightarrow> string \<Rightarrow> bytes \<Rightarrow> fs_store result" where
  "fs_put sha fs node frag data = Inr (write_atomic fs (node_dir sha node, frag_name sha frag) data)"

definition fs_get :: "(bytes \<Rightarrow> bytes) \<Rightarrow> fs_store \<Rightarrow> string \<Rightarrow> string \<Rightarrow> bytes option result" where
  "fs_get sha fs node frag = Inr (fs_read fs (node_dir sha node, frag_name sha frag))"

definition fs_put_blob :: "(bytes \<Rightarrow> bytes) \<Rightarrow> fs_store \<Rightarrow> string \<Rightarrow> string \<Rightarrow> bytes \<Rightarrow> fs_store result" where
  "fs_put_blob sha fs node key data = Inr (write_atomic fs (node_dir sha node, blob_name sha key) data)"

definition fs_get_blob :: "(bytes \<Rightarrow> bytes) \<Rightarrow> fs_store \<Rightarrow> string \<Rightarrow> string \<Rightarrow> bytes option result" where
  "fs_get_blob sha fs node key = Inr (fs_read fs (node_dir sha node, blob_name sha key))"

definition fs_seize :: "(bytes \<Rightarrow> bytes) \<Rightarrow> fs_store \<Rightarrow> string \<Rightarrow> fs_store" where
  "fs_seize sha fs node = filter (\<lambda>p. fst (fst p) \<noteq> node_dir sha node) fs"

lemma hexdigest_no_dot: "CHR ''.'' \<notin> set (hexdigest sha b)"
  using hex_chars [of "CHR ''.''" "sha b"] by (auto simp: hexdigest_def hex_val_def)

lemma not_tmp: "CHR ''.'' \<notin> set f \<Longrightarrow> f \<noteq> g @ ''.tmp''"
  by auto

lemma name_not_tmp: "frag_name sha f \<noteq> g @ ''.tmp''" "blob_name sha k \<noteq> g @ ''.tmp''"
  using hexdigest_no_dot [of sha] by (intro not_tmp; auto simp: frag_name_def blob_name_def)+

lemma names_disjoint: "frag_name sha f \<noteq> blob_name sha k"
  by (simp add: frag_name_def blob_name_def)

lemma dget_write_atomic:
  "\<forall>g. snd q \<noteq> g @ ''.tmp'' \<Longrightarrow> dget (write_atomic fs path data) q = (if q = path then Some data else dget fs q)"
  by (auto simp: write_atomic_def Let_def)

interpretation fs: mesh_store "fs_put sha" "fs_get sha" "\<lambda>n f. (node_dir sha n, frag_name sha f)"
    "\<lambda>_ _. True" "fs_put_blob sha" "fs_get_blob sha" "\<lambda>n k. (node_dir sha n, blob_name sha k)"
  for sha
proof -
  note [simp] = fs_put_def fs_get_def fs_put_blob_def fs_get_blob_def fs_read_def
    dget_write_atomic name_not_tmp names_disjoint names_disjoint [symmetric]
  show "mesh_store (fs_put sha) (fs_get sha) (\<lambda>n f. (node_dir sha n, frag_name sha f))
    (\<lambda>_ _. True) (fs_put_blob sha) (fs_get_blob sha) (\<lambda>n k. (node_dir sha n, blob_name sha k))"
    by unfold_locales auto
qed

lemma fs_get_seize:
  "fs_get sha (fs_seize sha fs n) m f = (if node_dir sha m = node_dir sha n then Inr None else fs_get sha fs m f)"
  unfolding fs_get_def fs_read_def fs_seize_def
  by (subst dget_filter_keys [where P = "\<lambda>k. fst k \<noteq> node_dir sha n"]) simp

lemma fs_get_blob_seize:
  "fs_get_blob sha (fs_seize sha fs n) m f = (if node_dir sha m = node_dir sha n then Inr None else fs_get_blob sha fs m f)"
  unfolding fs_get_blob_def fs_read_def fs_seize_def
  by (subst dget_filter_keys [where P = "\<lambda>k. fst k \<noteq> node_dir sha n"]) simp

section \<open>The HTTP store\<close>

text \<open>
  The network: the key/value table of every running node server, by base URL. A server that is
  down has no entry. \<open>node_put\<close> and \<open>node_get\<close> are the handler methods, with the response
  status.
\<close>

type_synonym node_kv = "(string, bytes) dict"
type_synonym network = "(string, node_kv) dict"

definition node_put :: "node_kv \<Rightarrow> string \<Rightarrow> bytes \<Rightarrow> node_kv \<times> nat" where
  "node_put kv path data = (dset kv path data, 204)"

definition node_get :: "node_kv \<Rightarrow> string \<Rightarrow> nat \<times> bytes" where
  "node_get kv path = (case dget kv path of None \<Rightarrow> (404, []) | Some data \<Rightarrow> (200, data))"

definition unreserved :: "byte \<Rightarrow> bool" where
  "unreserved b \<longleftrightarrow>
     (let n = unat b in
      48 \<le> n \<and> n \<le> 57 \<or> 65 \<le> n \<and> n \<le> 90 \<or> 97 \<le> n \<and> n \<le> 122 \<or> n \<in> {45, 46, 95, 126})"

definition upper_hex_digit :: "nat \<Rightarrow> char" where
  "upper_hex_digit n = (if n < 10 then digit_char n else char_of (55 + n))"

definition quote_byte :: "byte \<Rightarrow> string" where
  "quote_byte b =
     (if unreserved b then [char_of (unat b)]
      else [CHR ''%'', upper_hex_digit (unat b div 16), upper_hex_digit (unat b mod 16)])"

definition quote :: "string \<Rightarrow> string" where
  "quote s = concat (map quote_byte (utf8 s))"

lemma upper_hex_digit_inj: "m < 16 \<Longrightarrow> n < 16 \<Longrightarrow> upper_hex_digit m = upper_hex_digit n \<Longrightarrow> m = n"
proof -
  assume "m < 16" "n < 16" "upper_hex_digit m = upper_hex_digit n"
  moreover have "hex_val (upper_hex_digit i) = Some i" if "i < 16" for i
    using that by (auto simp: upper_hex_digit_def hex_val_def digit_char_def Let_def)
  ultimately show "m = n" by (metis option.inject)
qed

lemma quote_byte_cancel:
  assumes "quote_byte a @ s = quote_byte b @ t" shows "a = b \<and> s = t"
proof -
  have lt: "unat x div 16 < 16" for x :: byte using unat_byte_less [of x] by simp
  have pc: "char_of (unat x) \<noteq> CHR ''%''" if "unreserved x" for x
  proof
    assume "char_of (unat x) = CHR ''%''"
    then have "of_char (char_of (unat x)) = (37 :: nat)" by simp
    then have "unat x = 37" using unat_byte_less [of x] by simp
    with that show False by (simp add: unreserved_def)
  qed
  have ch: "x = y" if "char_of (unat x) = char_of (unat y)" for x y :: byte
  proof -
    from that have "of_char (char_of (unat x)) = (of_char (char_of (unat y)) :: nat)" by simp
    then have "unat x = unat y" using unat_byte_less [of x] unat_byte_less [of y] by simp
    then show ?thesis by (rule word_unat_eq_iff [THEN iffD2])
  qed
  show ?thesis
  proof (cases "unreserved a \<longleftrightarrow> unreserved b")
    case True
    show ?thesis
    proof (cases "unreserved a")
      case False
      with True assms have "unat a div 16 = unat b div 16" "unat a mod 16 = unat b mod 16" "s = t"
        using lt by (auto simp: quote_byte_def intro: upper_hex_digit_inj)
      then have "unat a = unat b" by (metis div_mod_decomp)
      then have "a = b" by (rule word_unat_eq_iff [THEN iffD2])
      with \<open>s = t\<close> show ?thesis by simp
    qed (use True assms ch in \<open>auto simp: quote_byte_def\<close>)
  next
    case False
    with assms pc show ?thesis by (auto simp: quote_byte_def) metis+
  qed
qed

lemma quote_bytes_inj: "concat (map quote_byte a) = concat (map quote_byte b) \<Longrightarrow> a = b"
proof (induction a arbitrary: b)
  case Nil
  then show ?case by (cases b) (auto simp: quote_byte_def split: if_splits)
next
  case (Cons x a)
  then obtain y b' where b: "b = y # b'" by (cases b) (auto simp: quote_byte_def split: if_splits)
  with Cons.prems have "x = y \<and> concat (map quote_byte a) = concat (map quote_byte b')"
    by (intro quote_byte_cancel) simp
  with Cons.IH b show ?case by blast
qed

lemma quote_inj [simp]: "quote s = quote t \<longleftrightarrow> s = t"
  unfolding quote_def by (metis quote_bytes_inj utf8_inj)

definition url_put :: "network \<Rightarrow> string \<Rightarrow> string \<Rightarrow> bytes \<Rightarrow> network result" where
  "url_put net base path data =
     (case dget net base of
        None \<Rightarrow> Inl OtherError
      | Some kv \<Rightarrow> Inr (dset net base (fst (node_put kv path data))))"

definition url_get :: "network \<Rightarrow> string \<Rightarrow> string \<Rightarrow> bytes option result" where
  "url_get net base path =
     (case dget net base of
        None \<Rightarrow> Inr None
      | Some kv \<Rightarrow>
          (let (code, data) = node_get kv path in
           if code = 404 then Inr None else if code = 200 then Inr (Some data) else Inl OtherError))"

definition http_put :: "(string, string) dict \<Rightarrow> network \<Rightarrow> string \<Rightarrow> string \<Rightarrow> bytes \<Rightarrow> network result" where
  "http_put node_urls net node frag data =
     (case dget node_urls node of
        None \<Rightarrow> Inl KeyError
      | Some base \<Rightarrow> url_put net base (''/frag/'' @ quote frag) data)"

definition http_get :: "(string, string) dict \<Rightarrow> network \<Rightarrow> string \<Rightarrow> string \<Rightarrow> bytes option result" where
  "http_get node_urls net node frag =
     (case dget node_urls node of
        None \<Rightarrow> Inr None
      | Some base \<Rightarrow> url_get net base (''/frag/'' @ quote frag))"

definition http_put_blob :: "(string, string) dict \<Rightarrow> network \<Rightarrow> string \<Rightarrow> string \<Rightarrow> bytes \<Rightarrow> network result" where
  "http_put_blob node_urls net node key data =
     (case dget node_urls node of
        None \<Rightarrow> Inl KeyError
      | Some base \<Rightarrow> url_put net base (''/blob/'' @ quote key) data)"

definition http_get_blob :: "(string, string) dict \<Rightarrow> network \<Rightarrow> string \<Rightarrow> string \<Rightarrow> bytes option result" where
  "http_get_blob node_urls net node key =
     (case dget node_urls node of
        None \<Rightarrow> Inr None
      | Some base \<Rightarrow> url_get net base (''/blob/'' @ quote key))"

definition http_accepts :: "(string, string) dict \<Rightarrow> network \<Rightarrow> string \<Rightarrow> bool" where
  "http_accepts node_urls net node \<longleftrightarrow>
     (case dget node_urls node of None \<Rightarrow> False | Some base \<Rightarrow> dget net base \<noteq> None)"

definition http_slot :: "(string, string) dict \<Rightarrow> string \<Rightarrow> string \<Rightarrow> string option \<times> string" where
  "http_slot node_urls node key = (dget node_urls node, quote key)"

lemma url_get_put:
  assumes "url_put net base path data = Inr net'"
  shows "url_get net' b p = (if b = base \<and> p = path then Inr (Some data) else url_get net b p)"
    and "(dget net' b = None) = (dget net b = None)"
proof -
  obtain kv where kv: "dget net base = Some kv" "net' = dset net base (dset kv path data)"
    using assms by (auto simp: url_put_def node_put_def split: option.splits)
  then have "dget net' b = (if b = base then Some (dset kv path data) else dget net b)" by auto
  then show "url_get net' b p = (if b = base \<and> p = path then Inr (Some data) else url_get net b p)"
    and "(dget net' b = None) = (dget net b = None)"
    using kv(1) by (auto simp: url_get_def node_get_def)
qed

lemma http_put_cases:
  assumes "http_put urls net n f d = Inr net'"
  obtains b where "dget urls n = Some b" "url_put net b (''/frag/'' @ quote f) d = Inr net'"
  using assms by (auto simp: http_put_def split: option.splits)

lemma http_put_blob_cases:
  assumes "http_put_blob urls net n k d = Inr net'"
  obtains b where "dget urls n = Some b" "url_put net b (''/blob/'' @ quote k) d = Inr net'"
  using assms by (auto simp: http_put_blob_def split: option.splits)

lemma http_accepts_put:
  "http_accepts urls s n \<Longrightarrow> \<exists>s'. http_put urls s n f d = Inr s'"
  "http_accepts urls s n \<Longrightarrow> \<exists>s'. http_put_blob urls s n f d = Inr s'"
  by (auto simp: http_accepts_def http_put_def http_put_blob_def url_put_def split: option.splits)

interpretation http: mesh_store "http_put urls" "http_get urls" "http_slot urls" "http_accepts urls"
    "http_put_blob urls" "http_get_blob urls" "http_slot urls"
  for urls
proof
  fix s s' :: network and n m k g f :: string and d :: bytes
  show "http_accepts urls s n \<Longrightarrow> \<exists>s'. http_put urls s n f d = Inr s'"
    "http_accepts urls s n \<Longrightarrow> \<exists>s'. http_put_blob urls s n k d = Inr s'"
    by (fact http_accepts_put)+
  {
    assume "http_put urls s n f d = Inr s'"
    then obtain b where b: "dget urls n = Some b" "url_put s b (''/frag/'' @ quote f) d = Inr s'"
      by (rule http_put_cases)
    note U = url_get_put [OF b(2)]
    show "http_accepts urls s' m = http_accepts urls s m"
      using U(2) by (auto simp: http_accepts_def split: option.splits)
    show "http_get urls s' m g = (if http_slot urls m g = http_slot urls n f then Inr (Some d) else http_get urls s m g)"
      using U(1) b(1) by (auto simp: http_get_def http_slot_def split: option.splits)
    show "http_get_blob urls s' m g = http_get_blob urls s m g"
      using U(1) by (auto simp: http_get_blob_def split: option.splits)
  }
  {
    assume "http_put_blob urls s n k d = Inr s'"
    then obtain b where b: "dget urls n = Some b" "url_put s b (''/blob/'' @ quote k) d = Inr s'"
      by (rule http_put_blob_cases)
    note U = url_get_put [OF b(2)]
    show "http_accepts urls s' m = http_accepts urls s m"
      using U(2) by (auto simp: http_accepts_def split: option.splits)
    show "http_get_blob urls s' m g = (if http_slot urls m g = http_slot urls n k then Inr (Some d) else http_get_blob urls s m g)"
      using U(1) b(1) by (auto simp: http_get_blob_def http_slot_def split: option.splits)
    show "http_get urls s' m g = http_get urls s m g"
      using U(1) by (auto simp: http_get_def split: option.splits)
  }
qed

end
