(* ===== verification/Leaf_Propagation.thy ===== *)
theory Leaf_Propagation
  imports Holographic_IDA Storage_Placement Mesh_Store
begin

text \<open>
  \<open>automation/leaf_propagation.py\<close>: the write path \<open>propagate\<close> (disperse a leaf, place its
  fragments on mesh nodes, hand every copy to the store) and the read path \<open>fetch\<close> (gather the
  reachable fragments, reconstruct, verify the commitment, try other subsets). The store operations
  are arguments, as in the code; an exception abandons the call, and what was already written to
  the store is then not tracked. Fragment ids are the evaluation points, bytes.
\<close>

section \<open>The code\<close>

definition frag_key :: "string \<Rightarrow> byte \<Rightarrow> string" where
  "frag_key rt index = rt @ ''#'' @ nat_str (unat index)"

record PropagationManifest =
  m_root :: string
  m_k :: int
  m_n :: int
  m_orig_len :: int
  m_tier :: string
  m_replicas :: int
  m_fragment_nodes :: "(byte, string list) dict"

definition place :: "string list \<Rightarrow> byte list \<Rightarrow> int \<Rightarrow> (byte, string list) dict result" where
  "place nodes xs reps =
     rbind (build_tree nodes) (\<lambda>tree.
       let ordered = leaves tree; slots = int (length xs) * reps in
       if int (length ordered) < slots then Inl ValueError
       else if slots = 0 then Inl ZeroDivisionError
       else Inr (place_loop ordered (stride_of (length ordered) slots) (nat reps) xs))"

text \<open>The writes of \<open>propagate\<close>, in order: every copy of every fragment.\<close>

definition fragment_writes :: "string \<Rightarrow> Dispersal \<Rightarrow> (byte, string list) dict \<Rightarrow> (string \<times> string \<times> bytes) list" where
  "fragment_writes rt d mapping =
     concat (map (\<lambda>(x, node_list). map (\<lambda>node. (node, frag_key rt x, dgetdef (d_fragments d) x [])) node_list) mapping)"

definition propagate ::
    "(bytes \<Rightarrow> bytes) \<Rightarrow> ('s \<Rightarrow> string \<Rightarrow> string \<Rightarrow> bytes \<Rightarrow> 's result) \<Rightarrow> Placement result \<Rightarrow>
     's \<Rightarrow> bytes \<Rightarrow> string list \<Rightarrow> Placement option \<Rightarrow> string \<Rightarrow> (PropagationManifest \<times> 's) result" where
  "propagate sha put runtime s leaf nodes placement tier =
     rbind (case placement of Some p \<Rightarrow> Inr p | None \<Rightarrow> runtime) (\<lambda>p.
     let k = rs_k p; n = rs_n p; r = shard_replicas p in
     rbind (disperse leaf k n None) (\<lambda>d.
     let rt = merkle_root sha leaf in
     rbind (place nodes (d_xs d) r) (\<lambda>mapping.
     rbind (put_seq put (fragment_writes rt d mapping) s) (\<lambda>s'.
       Inr (\<lparr>m_root = rt, m_k = k, m_n = n, m_orig_len = d_orig_len d, m_tier = tier,
             m_replicas = r, m_fragment_nodes = mapping\<rparr>, s')))))"

text \<open>The first copy of a fragment that a reachable node returns; an errored read is no copy.\<close>

definition node_reachable :: "string set option \<Rightarrow> string \<Rightarrow> bool" where
  "node_reachable reachable node \<longleftrightarrow> (case reachable of None \<Rightarrow> True | Some r \<Rightarrow> node \<in> r)"

fun first_copy :: "(string \<Rightarrow> bytes option result) \<Rightarrow> string set option \<Rightarrow> string list \<Rightarrow> bytes option" where
  "first_copy read reachable [] = None"
| "first_copy read reachable (node # ns) =
     (if \<not> node_reachable reachable node then first_copy read reachable ns
      else case read node of
             Inr (Some b) \<Rightarrow> Some b
           | _ \<Rightarrow> first_copy read reachable ns)"

definition gather ::
    "('s \<Rightarrow> string \<Rightarrow> string \<Rightarrow> bytes option result) \<Rightarrow> 's \<Rightarrow> PropagationManifest \<Rightarrow> string set option \<Rightarrow> (byte, bytes) dict" where
  "gather get s m reachable =
     fold (\<lambda>(x, node_list) avail.
        case first_copy (\<lambda>node. get s node (frag_key (m_root m) x)) reachable node_list of
          None \<Rightarrow> avail | Some b \<Rightarrow> dset avail x b)
       (m_fragment_nodes m) []"

text \<open>\<open>itertools.combinations\<close>, in its lexicographic order of positions.\<close>

fun combinations :: "'a list \<Rightarrow> nat \<Rightarrow> 'a list list" where
  "combinations xs 0 = [[]]"
| "combinations [] (Suc k) = []"
| "combinations (x # xs) (Suc k) = map ((#) x) (combinations xs k) @ combinations xs (Suc k)"

fun try_subsets ::
    "(bytes \<Rightarrow> bytes) \<Rightarrow> PropagationManifest \<Rightarrow> (byte, bytes) dict \<Rightarrow> byte list list \<Rightarrow> bytes result" where
  "try_subsets sha m avail [] = Inl IntegrityError"
| "try_subsets sha m avail (combo # combos) =
     rbind (reconstruct (map (\<lambda>x. (x, dgetdef avail x [])) combo) (m_k m) (m_orig_len m)) (\<lambda>rec.
       if merkle_root sha rec = m_root m then Inr rec else try_subsets sha m avail combos)"

definition fetch ::
    "(bytes \<Rightarrow> bytes) \<Rightarrow> ('s \<Rightarrow> string \<Rightarrow> string \<Rightarrow> bytes option result) \<Rightarrow> 's \<Rightarrow>
     PropagationManifest \<Rightarrow> string set option \<Rightarrow> nat \<Rightarrow> bytes result" where
  "fetch sha get s m reachable max_attempts =
     (let avail = gather get s m reachable in
      if int (length avail) < m_k m then Inl LeafUnavailable
      else
        let xs = sort (dkeys avail) in
        if m_k m < 0 then Inl ValueError
        else try_subsets sha m avail (take max_attempts (combinations xs (nat (m_k m)))))"

section \<open>Reading: integrity\<close>

lemma try_subsets_root: "try_subsets sha m avail combos = Inr b \<Longrightarrow> merkle_root sha b = m_root m"
  by (induction combos) (auto simp: rbind_eq_Inr split: if_splits)

lemma fetch_root: "fetch sha get s m reachable n = Inr b \<Longrightarrow> merkle_root sha b = m_root m"
  by (auto simp: fetch_def Let_def split: if_splits dest: try_subsets_root)

section \<open>Reading: gathering fragments\<close>

lemma gather_fold:
  assumes "distinct (map fst fn)"
  shows "dget (fold (\<lambda>(x, ns) avail. case fc x ns of None \<Rightarrow> avail | Some b \<Rightarrow> dset avail x b) fn a) x
       = (case dget fn x of None \<Rightarrow> dget a x
          | Some ns \<Rightarrow> (case fc x ns of None \<Rightarrow> dget a x | Some b \<Rightarrow> Some b))"
  using assms
proof (induction fn arbitrary: a)
  case (Cons p fn)
  obtain y ns where p: "p = (y, ns)" by fastforce
  have "dget fn y = None" using Cons.prems p by (simp add: dget_None_iff dkeys_def)
  with Cons p show ?case by (auto split: option.splits)
qed simp

lemma gather_wf_fold:
  "dwf a \<Longrightarrow> dwf (fold (\<lambda>(x, ns) avail. case fc x ns of None \<Rightarrow> avail | Some b \<Rightarrow> dset avail x b) fn a)"
  by (induction fn arbitrary: a) (auto split: option.splits)

lemma gather_wf: "dwf (gather get s m reachable)"
  unfolding gather_def by (rule gather_wf_fold) simp

lemma dget_gather:
  assumes "dwf (m_fragment_nodes m)"
  shows "dget (gather get s m reachable) x
       = (case dget (m_fragment_nodes m) x of None \<Rightarrow> None
          | Some ns \<Rightarrow> first_copy (\<lambda>node. get s node (frag_key (m_root m) x)) reachable ns)"
  unfolding gather_def
  using gather_fold [of "m_fragment_nodes m" "\<lambda>x ns. first_copy (\<lambda>node. get s node (frag_key (m_root m) x)) reachable ns" "[]" x] assms
  by (auto simp: dwf_def split: option.splits)

lemma first_copy_in:
  "first_copy read reachable ns = Some b \<Longrightarrow> \<exists>node \<in> set ns. node_reachable reachable node \<and> read node = Inr (Some b)"
  by (induction ns) (auto split: if_splits sum.splits option.splits)

lemma first_copy_exists:
  "node \<in> set ns \<Longrightarrow> node_reachable reachable node \<Longrightarrow> read node = Inr (Some b) \<Longrightarrow>
     first_copy read reachable ns \<noteq> None"
  by (induction ns) (auto split: sum.splits option.splits)

section \<open>Reading: the subsets tried\<close>

lemma combinations_sound:
  "c \<in> set (combinations xs k) \<Longrightarrow> length c = k \<and> set c \<subseteq> set xs \<and> (distinct xs \<longrightarrow> distinct c)"
proof (induction xs k arbitrary: c rule: combinations.induct)
  case (3 x xs k)
  from "3.prems" consider c' where "c = x # c'" "c' \<in> set (combinations xs k)"
    | "c \<in> set (combinations xs (Suc k))" by auto
  then show ?case
  proof cases
    case 1
    with "3.IH"(1) [of c'] show ?thesis by auto
  next
    case 2
    with "3.IH"(2) [of c] show ?thesis by auto
  qed
qed auto

lemma combinations_filter:
  "k \<le> length (filter P xs) \<Longrightarrow> take k (filter P xs) \<in> set (combinations xs k)"
  by (induction xs k rule: combinations.induct) auto

lemma length_combinations: "length (combinations xs k) = length xs choose k"
  by (induction xs k rule: combinations.induct) auto

lemma combinations_first:
  "k \<le> length xs \<Longrightarrow> \<exists>cs. combinations xs k = take k xs # cs"
proof (induction xs k rule: combinations.induct)
  case (3 x xs k)
  then obtain cs where "combinations xs k = take k xs # cs" by auto
  then show ?case by simp
qed simp_all

definition sub_dict :: "(byte, bytes) dict \<Rightarrow> byte list \<Rightarrow> (byte, bytes) dict" where
  "sub_dict avail c = map (\<lambda>x. (x, dgetdef avail x [])) c"

lemma sub_dict_wf: "distinct c \<Longrightarrow> dwf (sub_dict avail c)"
  by (simp add: sub_dict_def dwf_map_pairs)

lemma sub_dict_in: "(x, b) \<in> set (sub_dict avail c) \<Longrightarrow> set c \<subseteq> set (dkeys avail) \<Longrightarrow> dget avail x = Some b"
proof -
  assume "(x, b) \<in> set (sub_dict avail c)" "set c \<subseteq> set (dkeys avail)"
  then have "x \<in> set (dkeys avail)" "b = dgetdef avail x []" by (auto simp: sub_dict_def)
  then show ?thesis using dget_None_iff [of avail x] by (auto simp: dgetdef_def split: option.splits)
qed

text \<open>A leaf's manifest names its commitment and the parameters it was dispersed with.\<close>

definition manifest_of :: "(bytes \<Rightarrow> bytes) \<Rightarrow> bytes \<Rightarrow> Dispersal \<Rightarrow> PropagationManifest \<Rightarrow> bool" where
  "manifest_of sha leaf d m \<longleftrightarrow>
     disperse leaf (m_k m) (m_n m) None = Inr d \<and> m_root m = merkle_root sha leaf \<and>
     m_orig_len m = d_orig_len d \<and> dwf (m_fragment_nodes m)"

lemma honest_combo:
  assumes "manifest_of sha leaf d m" "distinct c" "length c = nat (m_k m)"
    and "set c \<subseteq> set (dkeys avail)"
    and "\<And>x b. x \<in> set c \<Longrightarrow> dget avail x = Some b \<Longrightarrow> (x, b) \<in> set (d_fragments d)"
  shows "reconstruct (sub_dict avail c) (m_k m) (m_orig_len m) = Inr leaf"
proof -
  have d: "disperse leaf (m_k m) (m_n m) None = Inr d" "m_orig_len m = d_orig_len d"
    using assms(1) by (simp_all add: manifest_of_def)
  have "set (sub_dict avail c) \<subseteq> set (d_fragments d)"
  proof
    fix q assume q: "q \<in> set (sub_dict avail c)"
    obtain x b where qx: "q = (x, b)" by fastforce
    then have "x \<in> set c" using q by (auto simp: sub_dict_def)
    with q qx sub_dict_in [of x b avail c] assms(4,5) show "q \<in> set (d_fragments d)" by simp
  qed
  moreover have "m_k m \<le> int (length (sub_dict avail c))"
    using assms(3) by (simp add: sub_dict_def)
  ultimately show ?thesis
    unfolding d(2) using reconstruct_any_k [OF d(1) sub_dict_wf [OF assms(2)]] by blast
qed

lemma try_subsets_Cons:
  "try_subsets sha m avail (c # cs) = rbind (reconstruct (sub_dict avail c) (m_k m) (m_orig_len m)) (\<lambda>rec.
       if merkle_root sha rec = m_root m then Inr rec else try_subsets sha m avail cs)"
  by (simp add: sub_dict_def)

text \<open>When every fragment served is genuine the first subset already gives the leaf.\<close>

lemma fetch_honest:
  assumes m: "manifest_of sha leaf d m"
    and served: "\<And>x b. dget (gather get s m reachable) x = Some b \<Longrightarrow> (x, b) \<in> set (d_fragments d)"
    and enough: "m_k m \<le> int (length (gather get s m reachable))" and n: "1 \<le> n"
  shows "fetch sha get s m reachable n = Inr leaf"
proof -
  let ?avail = "gather get s m reachable"
  let ?xs = "sort (dkeys ?avail)" and ?k = "nat (m_k m)"
  have k: "1 \<le> m_k m" using m disperse_Inr(1) by (auto simp: manifest_of_def)
  have "?k \<le> length ?xs" using enough by (simp add: dkeys_def)
  then obtain cs where cs: "combinations ?xs ?k = take ?k ?xs # cs" using combinations_first by blast
  obtain n' where n': "n = Suc n'" using n by (cases n) auto
  have "distinct (take ?k ?xs)" using gather_wf [of get s m reachable] by (simp add: dwf_def dkeys_def)
  moreover have "set (take ?k ?xs) \<subseteq> set (dkeys ?avail)" using set_take_subset [of ?k ?xs] by simp
  moreover have "length (take ?k ?xs) = ?k" using \<open>?k \<le> length ?xs\<close> by simp
  ultimately have "reconstruct (sub_dict ?avail (take ?k ?xs)) (m_k m) (m_orig_len m) = Inr leaf"
    using served by (intro honest_combo [OF m]) auto
  moreover have "m_root m = merkle_root sha leaf" using m by (simp add: manifest_of_def)
  ultimately show ?thesis
    using enough k cs n' by (simp add: fetch_def Let_def try_subsets_Cons del: try_subsets.simps(2))
qed

section \<open>Reading: liars\<close>

text \<open>
  A fragment served at the right length but with wrong bytes: the subset search goes on until a
  subset of genuine fragments comes up.
\<close>

lemma combo_total:
  assumes "c \<in> set (combinations xs (nat k))" "1 \<le> k" "distinct xs" "set xs = set (dkeys avail)"
    and "\<And>x b. dget avail x = Some b \<Longrightarrow> length b = L"
  shows "\<exists>blocks. length blocks = L \<and> (\<forall>b \<in> set blocks. length b = nat k) \<and>
           reconstruct (sub_dict avail c) k len = Inr (py_take len (concat blocks)) \<and>
           (\<forall>x \<in> set c. dgetdef avail x [] = map (\<lambda>bl. eval_poly bl x) blocks)"
proof -
  have c: "length c = nat k" "set c \<subseteq> set (dkeys avail)" "distinct c"
    using combinations_sound [OF assms(1)] assms(3,4) by auto
  have "\<exists>blocks. length blocks = L \<and> (\<forall>b \<in> set blocks. length b = nat k) \<and>
           reconstruct (sub_dict avail c) k len = Inr (py_take len (concat blocks)) \<and>
           (\<forall>x b. (x, b) \<in> set (sub_dict avail c) \<longrightarrow> b = map (\<lambda>bl. eval_poly bl x) blocks)"
  proof (rule reconstruct_consistent [OF sub_dict_wf [OF c(3)] assms(2)])
    show "k = int (length (sub_dict avail c))" using c(1) assms(2) by (simp add: sub_dict_def)
    fix x b assume "(x, b) \<in> set (sub_dict avail c)"
    then show "length b = L" using sub_dict_in c(2) assms(5) by blast
  qed
  then show ?thesis by (auto simp: sub_dict_def)
qed

lemma try_subsets_finds:
  assumes "good \<in> set combos" "reconstruct (sub_dict avail good) (m_k m) (m_orig_len m) = Inr leaf"
    and "\<And>c. c \<in> set combos \<Longrightarrow> \<exists>b. reconstruct (sub_dict avail c) (m_k m) (m_orig_len m) = Inr b"
    and "m_root m = merkle_root sha leaf" "\<And>b. merkle_root sha b = merkle_root sha leaf \<Longrightarrow> b = leaf"
  shows "try_subsets sha m avail combos = Inr leaf"
  using assms(1,3)
proof (induction combos)
  case (Cons c combos)
  obtain b where b: "reconstruct (sub_dict avail c) (m_k m) (m_orig_len m) = Inr b"
    using Cons.prems(2) by auto
  show ?case
  proof (cases "merkle_root sha b = m_root m")
    case True
    then have "b = leaf" using assms(4,5) by simp
    with True b show ?thesis by (simp add: try_subsets_Cons del: try_subsets.simps(2))
  next
    case False
    then have "c \<noteq> good" using b assms(2,4) by auto
    with Cons b False show ?thesis by (simp add: try_subsets_Cons del: try_subsets.simps(2))
  qed
qed simp

lemma fetch_routes_around:
  assumes m: "manifest_of sha leaf d m"
    and len: "\<And>x b. dget (gather get s m reachable) x = Some b \<Longrightarrow> length b = L"
    and genuine: "m_k m \<le> int (length (filter (\<lambda>q. q \<in> set (d_fragments d)) (gather get s m reachable)))"
    and n: "length (gather get s m reachable) choose nat (m_k m) \<le> n"
    and sha: "\<And>b. merkle_root sha b = merkle_root sha leaf \<Longrightarrow> b = leaf"
  shows "fetch sha get s m reachable n = Inr leaf"
proof -
  let ?avail = "gather get s m reachable"
  let ?xs = "sort (dkeys ?avail)" and ?k = "nat (m_k m)"
  have k: "1 \<le> m_k m" and rt: "m_root m = merkle_root sha leaf"
    using m disperse_Inr(1) by (auto simp: manifest_of_def)
  have wf: "dwf ?avail" by (rule gather_wf)
  have dist: "distinct ?xs" using wf by (simp add: dwf_def dkeys_def)
  let ?P = "\<lambda>x. (x, dgetdef ?avail x []) \<in> set (d_fragments d)"
  have "filter (\<lambda>q. q \<in> set (d_fragments d)) ?avail = filter (\<lambda>q. ?P (fst q)) ?avail"
  proof (rule filter_cong [OF refl])
    fix q assume "q \<in> set ?avail"
    then have "dget ?avail (fst q) = Some (snd q)" 
      using dget_in_dwf [OF wf, of "fst q" "snd q"] by simp
    then show "(q \<in> set (d_fragments d)) = ?P (fst q)" by (cases q) (simp add: dgetdef_def)
  qed
  then have "m_k m \<le> int (length (filter ?P (dkeys ?avail)))"
    using genuine by (simp add: dkeys_def filter_map comp_def)
  also have "length (filter ?P (dkeys ?avail)) = length (filter ?P ?xs)"
    by (simp add: filter_sort)
  finally have enough: "?k \<le> length (filter ?P ?xs)" by simp
  define good where "good = take ?k (filter ?P ?xs)"
  have gin: "good \<in> set (combinations ?xs ?k)" unfolding good_def by (rule combinations_filter [OF enough])
  have "reconstruct (sub_dict ?avail good) (m_k m) (m_orig_len m) = Inr leaf"
  proof (rule honest_combo [OF m])
    show "distinct good" "length good = ?k" "set good \<subseteq> set (dkeys ?avail)"
      using combinations_sound [OF gin] dist by auto
    fix x b assume "x \<in> set good" "dget ?avail x = Some b"
    moreover have "x \<in> set (filter ?P ?xs)" using \<open>x \<in> set good\<close> unfolding good_def by (rule in_set_takeD)
    then have "?P x" by simp
    ultimately show "(x, b) \<in> set (d_fragments d)" by (simp add: dgetdef_def)
  qed
  moreover have "\<exists>b. reconstruct (sub_dict ?avail c) (m_k m) (m_orig_len m) = Inr b"
    if "c \<in> set (combinations ?xs ?k)" for c
    using combo_total [OF that k dist, of ?avail L "m_orig_len m"] len by auto
  ultimately have "try_subsets sha m ?avail (combinations ?xs ?k) = Inr leaf"
    using gin rt sha by (intro try_subsets_finds) auto
  moreover have "take n (combinations ?xs ?k) = combinations ?xs ?k"
    using n by (simp add: length_combinations dkeys_def)
  moreover have "m_k m \<le> int (length ?avail)"
  proof -
    have "length (filter (\<lambda>q. q \<in> set (d_fragments d)) ?avail) \<le> length ?avail" by (rule length_filter_le)
    with genuine show ?thesis by linarith
  qed
  ultimately show ?thesis using k by (simp add: fetch_def Let_def)
qed

section \<open>Reading: what the search does not survive\<close>

text \<open>
  A fragment that is shorter than the first one of the first subset makes reconstruction run off
  its end, and the exception leaves \<open>fetch\<close>.
\<close>

lemma reconstruct_short:
  assumes "dwf fr" "1 \<le> k" "k = int (length fr)" "sort (dkeys fr) = x0 # r"
    and "y \<in> set r" "length (dgetdef fr y []) < length (dgetdef fr x0 [])"
  shows "reconstruct fr k len = Inl IndexError"
proof -
  let ?xs = "sort (dkeys fr)"
  let ?f = "\<lambda>pos out. rbind (rmap (fragment_byte fr pos) ?xs)
                  (\<lambda>ys. rbind (interpolate_coeffs ?xs ys) (\<lambda>c. Inr (out @ c)))"
  have dist: "distinct ?xs" using assms(1) by (simp add: dwf_def dkeys_def)
  have short: "rmap (fragment_byte fr pos) zs = Inl IndexError"
    if "\<exists>z \<in> set zs. length (dgetdef fr z []) \<le> pos" for zs pos
    using that
  proof (induction zs)
    case (Cons z zs)
    show ?case
    proof (cases "length (dgetdef fr z []) \<le> pos")
      case False
      with Cons.prems have "rmap (fragment_byte fr pos) zs = Inl IndexError" by (intro Cons.IH) auto
      moreover have "fragment_byte fr pos z = Inr (dgetdef fr z [] ! pos)"
        using False by (simp add: fragment_byte_def Let_def)
      ultimately show ?thesis by simp
    qed (simp add: fragment_byte_def Let_def)
  qed simp
  let ?p = "length (dgetdef fr y [])"
  have "rfold ?f [0..<length (dgetdef fr x0 [])] [] = Inl IndexError"
  proof (rule rfold_error)
    have "rmap (fragment_byte fr ?p) ?xs = Inl IndexError"
      using assms(4,5) by (intro short bexI [of _ y]) auto
    then show "\<exists>pos \<in> set [0..<length (dgetdef fr x0 [])]. \<forall>out. ?f pos out = Inl IndexError"
      using assms(6) by (intro bexI [of _ ?p]) simp_all
    fix pos out
    show "?f pos out = Inl IndexError \<or> (\<exists>s'. ?f pos out = Inr s')"
    proof (cases "\<exists>z \<in> set ?xs. length (dgetdef fr z []) \<le> pos")
      case True
      then show ?thesis using short [OF True] by simp
    next
      case False
      then show ?thesis using reconstruct_step [OF dist, of pos fr] by (metis not_le)
    qed
  qed
  moreover have len: "int (length ?xs) = k" using assms(3) by (simp add: dkeys_def)
  then have "py_take k ?xs = ?xs" using assms(2) by (simp add: py_take_def)
  ultimately show ?thesis using assms(4) len by (simp add: reconstruct_def Let_def)
qed

lemma fetch_short:
  assumes "gather get s m reachable = avail" "1 \<le> m_k m" "m_k m \<le> int (length avail)" "1 \<le> n"
    and "take (nat (m_k m)) (sort (dkeys avail)) = x0 # r"
    and "y \<in> set r" "length (dgetdef avail y []) < length (dgetdef avail x0 [])"
  shows "fetch sha get s m reachable n = Inl IndexError"
proof -
  let ?xs = "sort (dkeys avail)" and ?k = "nat (m_k m)"
  let ?c = "take ?k ?xs"
  have wf: "dwf avail" using gather_wf assms(1) by metis
  have le: "?k \<le> length ?xs" using assms(3) by (simp add: dkeys_def)
  obtain cs where cs: "combinations ?xs ?k = ?c # cs" using combinations_first [OF le] by blast
  obtain n' where n': "n = Suc n'" using assms(4) by (cases n) auto
  have dist: "distinct ?c" using wf by (simp add: dwf_def dkeys_def)
  have keys: "dkeys (sub_dict avail ?c) = ?c" by (simp add: sub_dict_def)
  have val: "dgetdef (sub_dict avail ?c) x [] = dgetdef avail x []" if "x \<in> set ?c" for x
    using that by (simp add: sub_dict_def dgetdef_def dget_map_pairs)
  have "reconstruct (sub_dict avail ?c) (m_k m) (m_orig_len m) = Inl IndexError"
  proof (rule reconstruct_short [OF sub_dict_wf [OF dist] assms(2)])
    show "m_k m = int (length (sub_dict avail ?c))" using le assms(2) by (simp add: sub_dict_def)
    have "sort ?c = ?c" by (simp add: sort_key_id_if_sorted sorted_wrt_take)
    then show "sort (dkeys (sub_dict avail ?c)) = x0 # r" using keys assms(5) by simp
    show "y \<in> set r" by fact
    show "length (dgetdef (sub_dict avail ?c) y []) < length (dgetdef (sub_dict avail ?c) x0 [])"
      using val [of y] val [of x0] assms(5-7) by simp
  qed
  then show ?thesis
    using assms(1-3) cs n' by (simp add: fetch_def Let_def try_subsets_Cons del: try_subsets.simps(2))
qed

text \<open>
  The attempts are bounded and the subsets come in lexicographic order, so a wrong fragment with
  the lowest id is in every subset tried when there are many fragments.
\<close>

lemma wrong_fragment_wrong_leaf:
  assumes "manifest_of sha leaf d m" "nat (m_k m) dvd length leaf" "1 \<le> m_k m"
    and "length blocks * nat (m_k m) = length leaf" "\<forall>b \<in> set blocks. length b = nat (m_k m)"
    and "(x, g) \<in> set (d_fragments d)" "map (\<lambda>bl. eval_poly bl x) blocks \<noteq> g"
  shows "concat blocks \<noteq> leaf"
proof
  assume eq: "concat blocks = leaf"
  let ?k = "nat (m_k m)"
  have d: "disperse leaf (m_k m) (m_n m) None = Inr d" using assms(1) by (simp add: manifest_of_def)
  have "(- int (length leaf)) mod m_k m = 0"
  proof -
    have "int ?k dvd int (length leaf)" using assms(2) by (simp only: int_dvd_int_iff)
    then show ?thesis using assms(3) by (simp add: mod_eq_0_iff_dvd)
  qed
  then have pad: "padded leaf (m_k m) = leaf" by (simp add: padded_def)
  have "blocks = chunks ?k leaf"
  proof (rule concat_blocks_eq)
    show "concat blocks = concat (chunks ?k leaf)" using eq assms(3) by (simp add: concat_chunks)
    show "\<forall>c \<in> set (chunks ?k leaf). length c = ?k"
      using chunks_block_length [OF _ assms(2)] assms(3) by simp
    then have "length (concat (chunks ?k leaf)) = length (chunks ?k leaf) * ?k"
      by (simp add: length_concat sum_list_triv cong: map_cong)
    then have "length leaf = length (chunks ?k leaf) * ?k" using assms(3) by (simp add: concat_chunks)
    then have "length blocks * ?k = length (chunks ?k leaf) * ?k" using assms(4) by simp
    moreover have "0 < ?k" using assms(3) by simp
    ultimately show "length blocks = length (chunks ?k leaf)" by (metis mult_right_cancel neq0_conv)
  qed (fact assms(5))
  moreover have "g = map (\<lambda>b. eval_poly b x) (chunks ?k leaf)"
    using disperse_Inr(8) [OF d] assms(6) pad by auto
  ultimately show False using assms(7) by simp
qed

lemma first_subsets_share_first:
  assumes "n \<le> length xs choose k" "c \<in> set (take n (combinations (x # xs) (Suc k)))"
  shows "x \<in> set c"
  using assms by (auto simp: length_combinations dest!: in_set_takeD)

lemma try_subsets_none:
  assumes "\<And>c. c \<in> set combos \<Longrightarrow> \<exists>b. reconstruct (sub_dict avail c) (m_k m) (m_orig_len m) = Inr b \<and> merkle_root sha b \<noteq> m_root m"
  shows "try_subsets sha m avail combos = Inl IntegrityError"
  using assms
proof (induction combos)
  case (Cons c combos)
  then obtain b where "reconstruct (sub_dict avail c) (m_k m) (m_orig_len m) = Inr b" "merkle_root sha b \<noteq> m_root m"
    by auto
  with Cons show ?case by (simp add: try_subsets_Cons del: try_subsets.simps(2))
qed simp

lemma fetch_low_liar:
  assumes m: "manifest_of sha leaf d m" and dv: "nat (m_k m) dvd length leaf"
    and av: "gather get s m reachable = avail" "sort (dkeys avail) = x # xs"
    and len: "\<And>y b. dget avail y = Some b \<Longrightarrow> int (length b) * m_k m = int (length leaf)"
    and lie: "(x, g) \<in> set (d_fragments d)" "dget avail x \<noteq> Some g"
    and n: "n \<le> length xs choose (nat (m_k m) - 1)" "m_k m \<le> int (length avail)"
    and sha: "\<And>b. merkle_root sha b = merkle_root sha leaf \<Longrightarrow> b = leaf"
  shows "fetch sha get s m reachable n = Inl IntegrityError"
proof -
  have k: "1 \<le> m_k m" and rt: "m_root m = merkle_root sha leaf" and ol: "m_orig_len m = int (length leaf)"
    using m disperse_Inr(1,4) by (auto simp: manifest_of_def)
  obtain k' where k': "nat (m_k m) = Suc k'" using k by (cases "nat (m_k m)") auto
  define L where "L = length leaf div nat (m_k m)"
  have Lk: "L * nat (m_k m) = length leaf" using dv by (simp add: L_def)
  have len': "length b = L" if "dget avail y = Some b" for y b
  proof -
    have "int (length b * nat (m_k m)) = int (L * nat (m_k m))" using len [OF that] k Lk by simp
    then have "length b * nat (m_k m) = L * nat (m_k m)" by (simp only: of_nat_eq_iff)
    then show ?thesis using k by simp
  qed
  have wf: "dwf avail" using gather_wf av(1) by metis
  have dist: "distinct (x # xs)" using wf av(2) by (metis distinct_sort dkeys_def dwf_def)
  have sets: "set (x # xs) = set (dkeys avail)" using av(2) by (metis set_sort)
  have "\<exists>b. reconstruct (sub_dict avail c) (m_k m) (m_orig_len m) = Inr b \<and> merkle_root sha b \<noteq> m_root m"
    if c: "c \<in> set (take n (combinations (x # xs) (nat (m_k m))))" for c
  proof -
    have "c \<in> set (take n (combinations (x # xs) (Suc k')))" using c k' by simp
    then have "x \<in> set c" using n(1) k' first_subsets_share_first [of n xs k' c x] by simp
    have "c \<in> set (combinations (x # xs) (nat (m_k m)))" using c by (rule in_set_takeD)
    then obtain blocks where b: "length blocks = L" "\<forall>b \<in> set blocks. length b = nat (m_k m)"
      "reconstruct (sub_dict avail c) (m_k m) (m_orig_len m) = Inr (py_take (m_orig_len m) (concat blocks))"
      "\<forall>x \<in> set c. dgetdef avail x [] = map (\<lambda>bl. eval_poly bl x) blocks"
      using combo_total [of c "x # xs" "m_k m" avail L "m_orig_len m"] k dist sets len' by metis
    have "length (concat blocks) = length leaf"
      using b(1,2) Lk by (simp add: length_concat sum_list_triv cong: map_cong)
    then have "py_take (m_orig_len m) (concat blocks) = concat blocks" by (simp add: ol py_take_def)
    moreover have "map (\<lambda>bl. eval_poly bl x) blocks \<noteq> g"
      using lie(2) b(4) \<open>x \<in> set c\<close> sets dget_None_iff [of avail x] by (auto simp: dgetdef_def)
    then have "concat blocks \<noteq> leaf"
      using b(1,2) Lk by (intro wrong_fragment_wrong_leaf [OF m dv k _ _ lie(1)]) auto
    ultimately show ?thesis using b(3) sha rt by (intro exI [of _ "concat blocks"]) auto
  qed
  then have "try_subsets sha m avail (take n (combinations (x # xs) (nat (m_k m)))) = Inl IntegrityError"
    by (rule try_subsets_none)
  then show ?thesis using av n(2) k by (simp add: fetch_def Let_def)
qed

section \<open>Writing\<close>

lemma frag_key_inj [simp]: "frag_key rt x = frag_key rt y \<longleftrightarrow> x = y"
  by (simp add: frag_key_def word_unat_eq_iff)

lemma place_facts:
  assumes "place nodes xs reps = Inr fn" "distinct xs"
  shows "dkeys fn = xs" "dwf fn" "\<forall>x ns. (x, ns) \<in> set fn \<longrightarrow> set ns \<subseteq> set nodes"
proof -
  from assms(1) obtain t where t: "build_tree nodes = Inr t" by (auto simp: place_def rbind_eq_Inr)
  then have ne: "nodes \<noteq> []" using build_tree_empty by auto
  then have lv: "leaves t = nodes" using build_tree_ok [of nodes] t by auto
  have fn: "fn = place_loop nodes (stride_of (length nodes) (int (length xs) * reps)) (nat reps) xs"
    using assms(1) t lv by (auto simp: place_def Let_def split: if_splits)
  have P: "dkeys fn = xs"
    "\<And>i. i < length xs \<Longrightarrow> dget fn (xs ! i) = Some (map (\<lambda>j. strided_node nodes
        (stride_of (length nodes) (int (length xs) * reps)) (i * nat reps + j)) [0..<nat reps])"
    unfolding fn by (fact place_loop [OF assms(2)])+
  show "dkeys fn = xs" by (rule P(1))
  then show wf: "dwf fn" using assms(2) by (simp add: dwf_def dkeys_def)
  show "\<forall>x ns. (x, ns) \<in> set fn \<longrightarrow> set ns \<subseteq> set nodes"
  proof (intro allI impI)
    fix x ns assume in_fn: "(x, ns) \<in> set fn"
    then have "x \<in> set xs" using P(1) by (metis dkeys_def fst_conv image_eqI set_map)
    then obtain i where "i < length xs" "x = xs ! i" by (auto simp: in_set_conv_nth)
    with P(2) dget_in_dwf [OF wf in_fn] show "set ns \<subseteq> set nodes"
      using strided_node_in [OF ne] by auto
  qed
qed

lemma place_nonempty:
  assumes "place nodes xs reps = Inr fn" "distinct xs" "(x, ns) \<in> set fn" "1 \<le> reps"
  shows "ns \<noteq> []"
proof -
  note F = place_facts [OF assms(1,2)]
  from assms(1) obtain t where t: "build_tree nodes = Inr t" by (auto simp: place_def rbind_eq_Inr)
  have fn: "fn = place_loop (leaves t) (stride_of (length (leaves t)) (int (length xs) * reps)) (nat reps) xs"
    using assms(1) t by (auto simp: place_def Let_def split: if_splits)
  have "x \<in> set xs" using F(1) assms(3) by (metis dkeys_def fst_conv image_eqI set_map)
  then obtain i where i: "i < length xs" "x = xs ! i" by (auto simp: in_set_conv_nth)
  have "dget fn x = Some ns" using dget_in_dwf [OF F(2) assms(3)] .
  then have "length ns = nat reps" using place_loop(2) [OF assms(2) i(1)] i(2) by (auto simp: fn)
  with assms(4) show ?thesis by auto
qed

lemma place_spread:
  assumes "place nodes xs reps = Inr fn" "distinct xs" "distinct nodes" "0 < reps"
  shows "spread fn (nat reps)"
proof -
  note F = place_facts [OF assms(1,2)]
  from assms(1) obtain t where t: "build_tree nodes = Inr t" by (auto simp: place_def rbind_eq_Inr)
  then have "nodes \<noteq> []" using build_tree_empty by auto
  then have lv: "leaves t = nodes" using build_tree_ok [of nodes] t by auto
  let ?slots = "int (length xs) * reps"
  have le: "?slots \<le> int (length nodes)" "?slots \<noteq> 0"
    and fn: "fn = place_loop nodes (stride_of (length nodes) ?slots) (nat reps) xs"
    using assms(1) t lv by (auto simp: place_def Let_def split: if_splits)
  have eq: "?slots = int (length xs * nat reps)" using assms(4) by simp
  have "0 < ?slots" using le(2) eq by linarith
  note P = place_loop_nodes [OF assms(2,3) eq this le(1) fn]
  then show ?thesis using F(2) dget_in_dwf [OF F(2)] unfolding spread_def by blast
qed

lemma place_ok:
  assumes "nodes \<noteq> []" "0 < int (length xs) * reps" "int (length xs) * reps \<le> int (length nodes)"
  shows "\<exists>fn. place nodes xs reps = Inr fn"
  using build_tree_ok [OF assms(1)] assms(2,3) by (auto simp: place_def Let_def)

lemma fragment_writes_in:
  "(node, key, b) \<in> set (fragment_writes rt d fn) \<longleftrightarrow>
     (\<exists>x ns. (x, ns) \<in> set fn \<and> node \<in> set ns \<and> key = frag_key rt x \<and> b = dgetdef (d_fragments d) x [])"
proof (induction fn)
  case (Cons q fn)
  obtain x ns where q: "q = (x, ns)" by fastforce
  have "fragment_writes rt d (q # fn)
      = map (\<lambda>node. (node, frag_key rt x, dgetdef (d_fragments d) x [])) ns @ fragment_writes rt d fn"
    by (simp add: fragment_writes_def q)
  then have "(node, key, b) \<in> set (fragment_writes rt d (q # fn)) \<longleftrightarrow>
      node \<in> set ns \<and> key = frag_key rt x \<and> b = dgetdef (d_fragments d) x [] \<or>
      (node, key, b) \<in> set (fragment_writes rt d fn)"
    by auto
  then show ?case unfolding Cons.IH q by auto
qed (simp add: fragment_writes_def)

lemma propagate_Inr:
  assumes "propagate sha put rt s leaf nodes (Some p) tier = Inr (m, s')"
  obtains d where "manifest_of sha leaf d m" "m_k m = rs_k p" "m_n m = rs_n p"
    "place nodes (d_xs d) (shard_replicas p) = Inr (m_fragment_nodes m)"
    "put_seq put (fragment_writes (m_root m) d (m_fragment_nodes m)) s = Inr s'"
proof -
  from assms obtain d fn where *: "disperse leaf (rs_k p) (rs_n p) None = Inr d"
    "place nodes (d_xs d) (shard_replicas p) = Inr fn"
    "put_seq put (fragment_writes (merkle_root sha leaf) d fn) s = Inr s'"
    "m = \<lparr>m_root = merkle_root sha leaf, m_k = rs_k p, m_n = rs_n p, m_orig_len = d_orig_len d, m_tier = tier,
          m_replicas = shard_replicas p, m_fragment_nodes = fn\<rparr>"
    by (auto simp: propagate_def Let_def rbind_eq_Inr)
  have "dwf fn" using place_facts(2) [OF *(2) disperse_Inr(6) [OF *(1)]] .
  with * that show thesis by (auto simp: manifest_of_def)
qed

context frag_store
begin

text \<open>After a write every copy on every node reads back as the genuine fragment.\<close>

lemma propagated_copy:
  assumes "manifest_of sha leaf d m" "put_seq put (fragment_writes (m_root m) d (m_fragment_nodes m)) s = Inr s'"
    and "(x, ns) \<in> set (m_fragment_nodes m)" "node \<in> set ns"
    and "\<And>x y ns ms n n'. (x, ns) \<in> set (m_fragment_nodes m) \<Longrightarrow> (y, ms) \<in> set (m_fragment_nodes m) \<Longrightarrow>
           n \<in> set ns \<Longrightarrow> n' \<in> set ms \<Longrightarrow> fslot n (frag_key (m_root m) x) = fslot n' (frag_key (m_root m) y) \<Longrightarrow> x = y"
  shows "get s' node (frag_key (m_root m) x) = Inr (Some (dgetdef (d_fragments d) x []))"
proof (rule get_put_seq [OF assms(2)])
  show "\<exists>(n, f, e) \<in> set (fragment_writes (m_root m) d (m_fragment_nodes m)). fslot node (frag_key (m_root m) x) = fslot n f"
    using assms(3,4) fragment_writes_in by fastforce
  show "\<forall>(n, f, e) \<in> set (fragment_writes (m_root m) d (m_fragment_nodes m)).
      fslot node (frag_key (m_root m) x) = fslot n f \<longrightarrow> e = dgetdef (d_fragments d) x []"
  proof (clarsimp simp: fragment_writes_in)
    fix n y ms assume "(y, ms) \<in> set (m_fragment_nodes m)" "n \<in> set ms"
      "fslot node (frag_key (m_root m) x) = fslot n (frag_key (m_root m) y)"
    then have "x = y" using assms(5) [OF assms(3) _ assms(4)] by blast
    then show "dgetdef (d_fragments d) y [] = dgetdef (d_fragments d) x []" by simp
  qed
qed

lemma propagate_ok:
  assumes "1 \<le> rs_k p" "0 \<le> rs_m p" "1 \<le> shard_replicas p" "rs_n p \<le> 255"
    and "rs_n p * shard_replicas p \<le> int (length nodes)" "\<forall>n \<in> set nodes. accepts s n"
  shows "\<exists>m s'. propagate sha put rt s leaf nodes (Some p) tier = Inr (m, s')"
proof -
  have n: "rs_k p \<le> rs_n p" "0 < rs_n p" using assms(1,2) by (simp_all add: rs_n_def)
  obtain d where d: "disperse leaf (rs_k p) (rs_n p) None = Inr d"
    using disperse_default_ok [OF assms(1) n(1) assms(4)] by blast
  have xs: "int (length (d_xs d)) = rs_n p" "distinct (d_xs d)" using disperse_Inr(5,6) [OF d] by auto
  have pos: "0 < rs_n p * shard_replicas p" using n assms(3) by simp
  then have "nodes \<noteq> []" using assms(5) by auto
  then obtain fn where fn: "place nodes (d_xs d) (shard_replicas p) = Inr fn"
    using place_ok [of nodes "d_xs d" "shard_replicas p"] xs(1) pos assms(5) by auto
  have "\<forall>w \<in> set (fragment_writes (merkle_root sha leaf) d fn). accepts s (fst w)"
  proof
    fix w assume w: "w \<in> set (fragment_writes (merkle_root sha leaf) d fn)"
    obtain node key b where "w = (node, key, b)" by (cases w)
    with w show "accepts s (fst w)"
      using place_facts(3) [OF fn xs(2)] assms(6) by (auto simp: fragment_writes_in)
  qed
  then obtain s' where "put_seq put (fragment_writes (merkle_root sha leaf) d fn) s = Inr s'"
    using put_seq_ok by blast
  with d fn show ?thesis by (simp add: propagate_def Let_def)
qed

end

section \<open>Write, seize, read\<close>

lemma gather_length:
  assumes "dwf (m_fragment_nodes m)"
    and "\<And>x ns. (x, ns) \<in> set (m_fragment_nodes m) \<Longrightarrow>
           first_copy (\<lambda>node. get s node (frag_key (m_root m) x)) reachable ns = None \<longleftrightarrow> lost (x, ns)"
  shows "length (gather get s m reachable) = length (filter (\<lambda>sh. \<not> lost sh) (m_fragment_nodes m))"
proof -
  let ?fn = "m_fragment_nodes m" and ?av = "gather get s m reachable"
  have "set (dkeys ?av) = fst ` set (filter (\<lambda>sh. \<not> lost sh) ?fn)"
  proof (intro set_eqI iffI)
    fix x assume "x \<in> set (dkeys ?av)"
    then obtain ns where ns: "dget ?fn x = Some ns"
      "first_copy (\<lambda>node. get s node (frag_key (m_root m) x)) reachable ns \<noteq> None"
      using dget_gather [OF assms(1), of get s reachable x] dget_None_iff [of ?av x] by (auto split: option.splits)
    then have "(x, ns) \<in> set ?fn" "\<not> lost (x, ns)" using assms(2) dget_Some_in by metis+
    then show "x \<in> fst ` set (filter (\<lambda>sh. \<not> lost sh) ?fn)" by force
  next
    fix x assume "x \<in> fst ` set (filter (\<lambda>sh. \<not> lost sh) ?fn)"
    then obtain ns where ns: "(x, ns) \<in> set ?fn" "\<not> lost (x, ns)" by auto
    then have "dget ?av x \<noteq> None"
      using dget_gather [OF assms(1), of get s reachable x] dget_in_dwf [OF assms(1)] assms(2) by auto
    then show "x \<in> set (dkeys ?av)" by (simp add: dget_None_iff)
  qed
  moreover have "distinct (dkeys ?av)" using gather_wf [of get s m reachable] by (simp add: dwf_def dkeys_def)
  then have "length ?av = card (set (dkeys ?av))" by (metis distinct_card dkeys_def length_map)
  moreover have "distinct (map fst (filter (\<lambda>sh. \<not> lost sh) ?fn))"
    using assms(1) by (simp add: dwf_def distinct_map_filter)
  then have "length (filter (\<lambda>sh. \<not> lost sh) ?fn) = card (fst ` set (filter (\<lambda>sh. \<not> lost sh) ?fn))"
    by (metis distinct_card length_map set_map)
  ultimately show ?thesis by simp
qed

lemma fs_get_seize_all:
  "fs_get sha (fold (\<lambda>n fs. fs_seize sha fs n) seized fs) m f
     = (if node_dir sha m \<in> node_dir sha ` set seized then Inr None else fs_get sha fs m f)"
  by (induction seized arbitrary: fs) (auto simp: fs_get_seize)

lemma fs_write_seize_read:
  assumes "distinct nodes" "safe_placement p" "rs_n p \<le> 255"
    and "rs_n p * shard_replicas p \<le> int (length nodes)"
    and "inj_on (node_dir sha) (set nodes)"
    and "\<forall>x y. frag_name sha (frag_key (merkle_root sha leaf) x) = frag_name sha (frag_key (merkle_root sha leaf) y) \<longrightarrow> x = y"
    and "set seized \<subseteq> set nodes" "int (card (set seized)) < (rs_m p + 1) * shard_replicas p" "1 \<le> attempts"
  shows "\<exists>m fs'. propagate sha (fs_put sha) rt fs leaf nodes (Some p) tier = Inr (m, fs') \<and>
           fetch sha (fs_get sha) (fold (\<lambda>n fs. fs_seize sha fs n) seized fs') m None attempts = Inr leaf"
proof -
  have v: "1 \<le> rs_k p" "0 \<le> rs_m p" "1 \<le> shard_replicas p" using assms(2) by (simp_all add: safe_placement_def)
  obtain m fs' where w: "propagate sha (fs_put sha) rt fs leaf nodes (Some p) tier = Inr (m, fs')"
    using fs.propagate_ok [OF v assms(3,4)] by blast
  obtain d where m: "manifest_of sha leaf d m" "m_k m = rs_k p" "m_n m = rs_n p"
    and pl: "place nodes (d_xs d) (shard_replicas p) = Inr (m_fragment_nodes m)"
    and wr: "put_seq (fs_put sha) (fragment_writes (m_root m) d (m_fragment_nodes m)) fs = Inr fs'"
    using w by (rule propagate_Inr)
  have dd: "disperse leaf (rs_k p) (rs_n p) None = Inr d" and rt: "m_root m = merkle_root sha leaf"
    and wf: "dwf (m_fragment_nodes m)" using m by (simp_all add: manifest_of_def)
  note D = disperse_Inr [OF dd]
  note F = place_facts [OF pl D(6)]
  let ?s = "fold (\<lambda>n fs. fs_seize sha fs n) seized fs'"
  let ?fn = "m_fragment_nodes m"
  have read: "fs_get sha ?s node (frag_key (m_root m) x)
      = (if node \<in> set seized then Inr None else Inr (Some (dgetdef (d_fragments d) x [])))"
    if "(x, ns) \<in> set ?fn" "node \<in> set ns" for x ns node
  proof -
    have "node \<in> set nodes" using F(3) that by blast
    then have "node_dir sha node \<in> node_dir sha ` set seized \<longleftrightarrow> node \<in> set seized"
      using assms(5,7) by (auto simp: inj_on_def)
    moreover have "fs_get sha fs' node (frag_key (m_root m) x) = Inr (Some (dgetdef (d_fragments d) x []))"
      by (rule fs.propagated_copy [OF m(1) wr that]) (use assms(6) rt in auto)
    ultimately show ?thesis by (simp add: fs_get_seize_all)
  qed
  have lost: "first_copy (\<lambda>node. fs_get sha ?s node (frag_key (m_root m) x)) None ns = None \<longleftrightarrow> shard_lost (set seized) (x, ns)"
    if "(x, ns) \<in> set ?fn" for x ns
  proof
    assume none: "first_copy (\<lambda>node. fs_get sha ?s node (frag_key (m_root m) x)) None ns = None"
    show "shard_lost (set seized) (x, ns)"
    proof (rule ccontr)
      assume "\<not> shard_lost (set seized) (x, ns)"
      then obtain node where "node \<in> set ns" "node \<notin> set seized" by (auto simp: shard_lost_def)
      with read [OF that] first_copy_exists [of node ns None] none show False
        by (metis (no_types, lifting) node_reachable_def option.case(1))
    qed
  next
    assume "shard_lost (set seized) (x, ns)"
    then show "first_copy (\<lambda>node. fs_get sha ?s node (frag_key (m_root m) x)) None ns = None"
      using read [OF that] first_copy_in [of "\<lambda>node. fs_get sha ?s node (frag_key (m_root m) x)" None ns]
      by (cases "first_copy (\<lambda>node. fs_get sha ?s node (frag_key (m_root m) x)) None ns")
        (auto simp: shard_lost_def)
  qed
  have "fetch sha (fs_get sha) ?s m None attempts = Inr leaf"
  proof (rule fetch_honest [OF m(1) _ _ assms(9)])
    fix x b assume "dget (gather (fs_get sha) ?s m None) x = Some b"
    then obtain ns where ns: "dget ?fn x = Some ns"
      "first_copy (\<lambda>node. fs_get sha ?s node (frag_key (m_root m) x)) None ns = Some b"
      using dget_gather [OF wf, of "fs_get sha" ?s None x] by (auto split: option.splits)
    then obtain node where "node \<in> set ns" "fs_get sha ?s node (frag_key (m_root m) x) = Inr (Some b)"
      using first_copy_in by blast
    with read [OF dget_Some_in [OF ns(1)]] have b: "b = dgetdef (d_fragments d) x []"
      by (auto split: if_splits)
    have "x \<in> set (d_xs d)" using ns(1) F(1) dget_None_iff [of ?fn x] by auto
    then show "(x, b) \<in> set (d_fragments d)"
      unfolding b D(8) by (auto simp: dgetdef_def dget_map_pairs)
  next
    have "length ?fn = nat (rs_n p)" using arg_cong [OF F(1), of length] D(5) by (simp add: dkeys_def)
    moreover have "length (filter (shard_lost (set seized)) ?fn) \<le> nat (rs_m p)"
    proof (rule few_lost [OF place_spread [OF pl D(6) assms(1)]])
      have "int ((nat (rs_m p) + 1) * nat (shard_replicas p)) = (rs_m p + 1) * shard_replicas p"
        using v by (simp add: algebra_simps)
      with assms(8) show "card (set seized) < (nat (rs_m p) + 1) * nat (shard_replicas p)" by linarith
    qed (use v in simp_all)
    moreover have "length (gather (fs_get sha) ?s m None) = length (filter (\<lambda>sh. \<not> shard_lost (set seized) sh) ?fn)"
      by (rule gather_length [OF wf]) (rule lost)
    ultimately show "m_k m \<le> int (length (gather (fs_get sha) ?s m None))"
      using sum_length_filter_compl [of "shard_lost (set seized)" ?fn] v m(2) by (simp add: rs_n_def)
  qed
  with w show ?thesis by blast
qed

section \<open>Properties\<close>

text \<open>
  C5: Write, seize, read. On the file-system store, \<open>propagate\<close> with a validated placement on
  enough distinct nodes succeeds, and after the seizure of any set of fewer than (m + 1) R of
  these nodes \<open>fetch\<close> still returns exactly the leaf, at the first subset tried. Directory names
  of the nodes and file names of the leaf's fragments are assumed not to collide.
\<close>

theorem fs_survives_seizure:
  assumes "distinct nodes" "safe_placement p" "rs_n p \<le> 255"
    and "rs_n p * shard_replicas p \<le> int (length nodes)"
    and "inj_on (node_dir sha) (set nodes)"
    and "\<forall>x y. frag_name sha (frag_key (merkle_root sha leaf) x) = frag_name sha (frag_key (merkle_root sha leaf) y) \<longrightarrow> x = y"
    and "set seized \<subseteq> set nodes" "int (card (set seized)) < (rs_m p + 1) * shard_replicas p"
    and "1 \<le> max_attempts"
  shows "\<exists>m fs'. propagate sha (fs_put sha) runtime fs leaf nodes (Some p) tier = Inr (m, fs') \<and>
           fetch sha (fs_get sha) (fold (\<lambda>n fs. fs_seize sha fs n) seized fs') m None max_attempts = Inr leaf"
  by (rule fs_write_seize_read [OF assms])

theorem fs_survives_seizure_witness:
  "\<exists>m fs'. propagate (\<lambda>b. b) (fs_put (\<lambda>b. b)) (Inl OtherError) [] [0x48, 0x69] [''a'', ''b'', ''c'']
       (Some \<lparr>replicas = 1, rs_k = 2, rs_m = 1, encrypted_at_rest = True, shard_replicas = 1\<rparr>) ''runtime'' = Inr (m, fs') \<and>
     fetch (\<lambda>b. b) (fs_get (\<lambda>b. b)) (fold (\<lambda>n fs. fs_seize (\<lambda>b. b) fs n) [''b''] fs') m None 500 = Inr [0x48, 0x69]"
proof (rule fs_survives_seizure)
  show "inj_on (node_dir (\<lambda>b. b)) (set [''a'', ''b'', ''c''])"
    by (simp add: inj_on_def node_dir_def isalnum_def)
  show "\<forall>x y. frag_name (\<lambda>b. b) (frag_key (merkle_root (\<lambda>b. b) [0x48, 0x69]) x)
      = frag_name (\<lambda>b. b) (frag_key (merkle_root (\<lambda>b. b) [0x48, 0x69]) y) \<longrightarrow> x = y"
    by (simp add: frag_name_def hexdigest_def)
qed (simp_all add: safe_placement_def rs_n_def)

text \<open>
  C6: Integrity of reads. Whatever the store returns and whatever the manifest says, bytes that
  \<open>fetch\<close> returns hash to the commitment in the manifest.
\<close>

theorem fetch_integrity:
  assumes "fetch sha get s m reachable max_attempts = Inr b"
  shows "merkle_root sha b = m_root m"
  by (rule fetch_root [OF assms])

theorem fetch_integrity_witness:
  "merkle_root (\<lambda>b. b) [5]
     = m_root \<lparr>m_root = merkle_root (\<lambda>b. b) [5], m_k = 1, m_n = 2, m_orig_len = 1, m_tier = ''t'',
         m_replicas = 1, m_fragment_nodes = [(1, [''a'']), (2, [''b''])]\<rparr>"
proof (rule fetch_integrity)
  show "fetch (\<lambda>b. b) (\<lambda>s node _. Inr (dget s node)) [(''a'', [5]), (''b'', [5])]
     \<lparr>m_root = merkle_root (\<lambda>b. b) [5], m_k = 1, m_n = 2, m_orig_len = 1, m_tier = ''t'',
         m_replicas = 1, m_fragment_nodes = [(1, [''a'']), (2, [''b''])]\<rparr> None 500 = Inr [5]"
  proof -
    have inv1: "gf_inv 1 = Inr 1" using gf_inv_hom [of 1] by (simp add: gf_of_hom one_gf.rep_eq)
    have mul1: "gf_mul a 1 = a" for a by (simp add: gf_mul_commute [of a])
    show ?thesis
      by (simp add: fetch_def gather_def node_reachable_def dkeys_def reconstruct_def py_take_def dgetdef_def
          fragment_byte_def interpolate_coeffs_def interpolate_step_def add_scaled_def inv1 mul1 numeral_eq_Suc)
  qed
qed

text \<open>
  C7: Routing around wrong fragments. When every fragment served has the right length, at least k
  of them are genuine and all k-subsets fit in the attempt budget, \<open>fetch\<close> returns the leaf
  (for a hash without a collision on the leaf).
\<close>

theorem fetch_routes_around_liars:
  assumes "manifest_of sha leaf d m"
    and "\<forall>x b. dget (gather get s m reachable) x = Some b \<longrightarrow> length b = L"
    and "m_k m \<le> int (length (filter (\<lambda>q. q \<in> set (d_fragments d)) (gather get s m reachable)))"
    and "length (gather get s m reachable) choose nat (m_k m) \<le> max_attempts"
    and "\<forall>b. merkle_root sha b = merkle_root sha leaf \<longrightarrow> b = leaf"
  shows "fetch sha get s m reachable max_attempts = Inr leaf"
  using assms by (intro fetch_routes_around [of sha leaf d m get s reachable L max_attempts]) blast+

lemma disperse_example:
  "disperse [5] 1 2 None = Inr \<lparr>d_k = 1, d_n = 2, d_orig_len = 1, d_xs = [1, 2],
     d_fragments = [(1, [5]), (2, [5])]\<rparr>"
  by (simp add: disperse_def dispersal_points_def eval_poly_def append_fragment_def chunks.simps
      dgetdef_def upt_rec)

theorem fetch_routes_around_liars_witness:
  "fetch (\<lambda>b. b) (\<lambda>s node _. Inr (dget s node)) [(''a'', [9]), (''b'', [5])]
     \<lparr>m_root = merkle_root (\<lambda>b. b) [5], m_k = 1, m_n = 2, m_orig_len = 1, m_tier = ''t'',
         m_replicas = 1, m_fragment_nodes = [(1, [''a'']), (2, [''b''])]\<rparr> None 500 = Inr [5]"
proof (rule fetch_routes_around_liars)
  show "manifest_of (\<lambda>b. b) [5] \<lparr>d_k = 1, d_n = 2, d_orig_len = 1, d_xs = [1, 2], d_fragments = [(1, [5]), (2, [5])]\<rparr>
     \<lparr>m_root = merkle_root (\<lambda>b. b) [5], m_k = 1, m_n = 2, m_orig_len = 1, m_tier = ''t'',
         m_replicas = 1, m_fragment_nodes = [(1, [''a'']), (2, [''b''])]\<rparr>"
    using disperse_example by (simp add: manifest_of_def dwf_def)
  show "\<forall>b. merkle_root (\<lambda>b. b) b = merkle_root (\<lambda>b. b) [5] \<longrightarrow> b = [5]"
    by (simp add: merkle_root_def hexdigest_def)
qed (auto simp: gather_def node_reachable_def)

text \<open>
  The budget defeats the search. If the fragment with the lowest id is served with wrong bytes,
  all others being genuine or not, and the attempt budget is at most the number of subsets that
  contain it, \<open>fetch\<close> raises \<open>IntegrityError\<close>. With the declared default tier (k = 9,
  n = 18) and the default budget of 500 this is the case: 17 over 8 is 24310.
\<close>

theorem low_liar_defeats_fetch:
  assumes "manifest_of sha leaf d m" "nat (m_k m) dvd length leaf"
    and "gather get s m reachable = avail" "sort (dkeys avail) = x # xs"
    and "\<forall>y b. dget avail y = Some b \<longrightarrow> int (length b) * m_k m = int (length leaf)"
    and "(x, g) \<in> set (d_fragments d)" "dget avail x \<noteq> Some g"
    and "max_attempts \<le> length xs choose (nat (m_k m) - 1)" "m_k m \<le> int (length avail)"
    and "\<forall>b. merkle_root sha b = merkle_root sha leaf \<longrightarrow> b = leaf"
  shows "fetch sha get s m reachable max_attempts = Inl IntegrityError \<and>
         500 \<le> (17 :: nat) choose (9 - 1)"
proof
  show "fetch sha get s m reachable max_attempts = Inl IntegrityError"
    using assms by (intro fetch_low_liar [of sha leaf d m get s reachable avail x xs g max_attempts]) blast+
  show "500 \<le> (17 :: nat) choose (9 - 1)" by (simp add: binomial_fact' fact_numeral)
qed

theorem low_liar_defeats_fetch_witness:
  "fetch (\<lambda>b. b) (\<lambda>s node _. Inr (dget s node)) [(''a'', [9]), (''b'', [5])]
     \<lparr>m_root = merkle_root (\<lambda>b. b) [5], m_k = 1, m_n = 2, m_orig_len = 1, m_tier = ''t'',
         m_replicas = 1, m_fragment_nodes = [(1, [''a'']), (2, [''b''])]\<rparr> None 1 = Inl IntegrityError \<and>
   500 \<le> (17 :: nat) choose (9 - 1)"
proof (rule low_liar_defeats_fetch)
  show "manifest_of (\<lambda>b. b) [5] \<lparr>d_k = 1, d_n = 2, d_orig_len = 1, d_xs = [1, 2], d_fragments = [(1, [5]), (2, [5])]\<rparr>
     \<lparr>m_root = merkle_root (\<lambda>b. b) [5], m_k = 1, m_n = 2, m_orig_len = 1, m_tier = ''t'',
         m_replicas = 1, m_fragment_nodes = [(1, [''a'']), (2, [''b''])]\<rparr>"
    using disperse_example by (simp add: manifest_of_def dwf_def)
  show "gather (\<lambda>s node _. Inr (dget s node)) [(''a'', [9]), (''b'', [5])]
     \<lparr>m_root = merkle_root (\<lambda>b. b) [5], m_k = 1, m_n = 2, m_orig_len = 1, m_tier = ''t'',
         m_replicas = 1, m_fragment_nodes = [(1, [''a'']), (2, [''b''])]\<rparr> None = [(1, [9]), (2, [5])]"
    by (simp add: gather_def node_reachable_def)
  show "sort (dkeys [(1 :: byte, [9 :: byte]), (2, [5])]) = [1, 2]" by (simp add: dkeys_def)
  show "(1, [5]) \<in> set (d_fragments \<lparr>d_k = 1, d_n = 2, d_orig_len = 1, d_xs = [1, 2], d_fragments = [(1, [5]), (2, [5])]\<rparr>)"
    by simp
  show "\<forall>b. merkle_root (\<lambda>b. b) b = merkle_root (\<lambda>b. b) [5] \<longrightarrow> b = [5]"
    by (simp add: merkle_root_def hexdigest_def)
qed auto

text \<open>
  A truncated fragment is not routed around. If in the first subset a later fragment is shorter
  than the first, \<open>fetch\<close> fails with the \<open>IndexError\<close> of the reconstruction, even when other
  subsets are intact.
\<close>

theorem truncated_fragment_aborts_fetch:
  assumes "gather get s m reachable = avail" "1 \<le> m_k m" "m_k m \<le> int (length avail)"
    and "take (nat (m_k m)) (sort (dkeys avail)) = x0 # r" "y \<in> set r"
    and "length (dgetdef avail y []) < length (dgetdef avail x0 [])" "1 \<le> max_attempts"
  shows "fetch sha get s m reachable max_attempts = Inl IndexError"
  by (rule fetch_short [OF assms(1,2,3,7,4,5,6)])

theorem truncated_fragment_aborts_fetch_witness:
  "fetch (\<lambda>b. b) (\<lambda>s node _. Inr (dget s node)) [(''a'', [1, 2]), (''b'', [3]), (''c'', [5, 6])]
     \<lparr>m_root = ''r'', m_k = 2, m_n = 3, m_orig_len = 4, m_tier = ''t'', m_replicas = 1,
        m_fragment_nodes = [(1, [''a'']), (2, [''b'']), (3, [''c''])]\<rparr> None 500 = Inl IndexError"
proof (rule truncated_fragment_aborts_fetch)
  show "gather (\<lambda>s node _. Inr (dget s node)) [(''a'', [1, 2]), (''b'', [3]), (''c'', [5, 6])]
     \<lparr>m_root = ''r'', m_k = 2, m_n = 3, m_orig_len = 4, m_tier = ''t'', m_replicas = 1,
        m_fragment_nodes = [(1, [''a'']), (2, [''b'']), (3, [''c''])]\<rparr> None = [(1, [1, 2]), (2, [3]), (3, [5, 6])]"
    by (simp add: gather_def node_reachable_def)
  show "take (nat (m_k \<lparr>m_root = ''r'', m_k = 2, m_n = 3, m_orig_len = 4, m_tier = ''t'', m_replicas = 1,
        m_fragment_nodes = [(1, [''a'']), (2, [''b'']), (3, [''c''])]\<rparr>))
      (sort (dkeys [(1 :: byte, [1 :: byte, 2]), (2, [3]), (3, [5, 6])])) = 1 # [2]"
    by (simp add: dkeys_def)
  show "2 \<in> set [2 :: byte]" by simp
qed (simp_all add: dgetdef_def)

end
