(* ===== verification/Json_Text.thy ===== *)
theory Json_Text
  imports Py_Text
begin

text \<open>
  The JSON text the storage modules exchange: \<open>json.dumps\<close> with its default separators and ASCII
  escapes, and \<open>json.loads\<close> as a recursive descent parser whose fuel is the length of the text.
  Numbers are integers (the manifests, pointers and indices hold no fractions). The result is the
  round trip: parsing a printed value returns the value.
\<close>

datatype json =
    JNull
  | JBool bool
  | JInt int
  | JStr string
  | JList "json list"
  | JObj "(string \<times> json) list"

section \<open>Printing\<close>

definition esc_char :: "char \<Rightarrow> string" where
  "esc_char c =
     (let n = of_char c :: nat in
      if n = 34 \<or> n = 92 then [char_of (92::nat), c]
      else if n = 10 then [char_of (92::nat), CHR ''n'']
      else if n = 13 then [char_of (92::nat), CHR ''r'']
      else if n = 9 then [char_of (92::nat), CHR ''t'']
      else if n = 12 then [char_of (92::nat), CHR ''f'']
      else if n = 8 then [char_of (92::nat), CHR ''b'']
      else if n < 32 \<or> 126 < n
      then [char_of (92::nat), CHR ''u'', CHR ''0'', CHR ''0'', hex_digit (n div 16), hex_digit (n mod 16)]
      else [c])"

definition dq :: char where
  "dq = char_of (34::nat)"

definition str_text :: "string \<Rightarrow> string" where
  "str_text s = [dq] @ concat (map esc_char s) @ [dq]"

fun join :: "string \<Rightarrow> string list \<Rightarrow> string" where
  "join sep [] = []"
| "join sep [s] = s"
| "join sep (s # t # ts) = s @ sep @ join sep (t # ts)"

text \<open>
  \<open>json.dumps\<close> with a blank after each separator (the default) or without
  (\<open>separators=(",", ":")\<close>).
\<close>

fun gap :: "bool \<Rightarrow> string" where
  "gap True = '' ''"
| "gap False = []"

fun dumps_gap :: "bool \<Rightarrow> json \<Rightarrow> string" where
  "dumps_gap b JNull = ''null''"
| "dumps_gap b (JBool x) = (if x then ''true'' else ''false'')"
| "dumps_gap b (JInt i) = int_str i"
| "dumps_gap b (JStr s) = str_text s"
| "dumps_gap b (JList vs) = ''['' @ join (CHR '','' # gap b) (map (dumps_gap b) vs) @ '']''"
| "dumps_gap b (JObj ps) = ''{'' @ join (CHR '','' # gap b) (map (\<lambda>(k, v). str_text k @ CHR '':'' # gap b @ dumps_gap b v) ps) @ ''}''"

abbreviation dumps :: "json \<Rightarrow> string" where
  "dumps \<equiv> dumps_gap True"

section \<open>Parsing\<close>

definition skip_ws :: "string \<Rightarrow> string" where
  "skip_ws s = dropWhile (\<lambda>c. c \<in> {CHR '' '', CHR 0x09, CHR 0x0A, CHR 0x0D}) s"

text \<open>The body of a string literal, after its opening quote.\<close>

fun p_string :: "string \<Rightarrow> (string \<times> string) option" where
  "p_string [] = None"
| "p_string (c # r) =
     (if of_char c = (34::nat) then Some ([], r)
      else if of_char c = (92::nat) then
        (case r of
           [] \<Rightarrow> None
         | e # r' \<Rightarrow>
             if e = CHR ''u'' then
               (case r' of
                  a # b # x # y # q \<Rightarrow>
                    (case (hex_val a, hex_val b, hex_val x, hex_val y) of
                       (Some 0, Some 0, Some i, Some j) \<Rightarrow>
                         map_option (\<lambda>(t, z). (char_of (16 * i + j) # t, z)) (p_string q)
                     | _ \<Rightarrow> None)
                | _ \<Rightarrow> None)
             else
               (case (if of_char e = (34::nat) \<or> of_char e = (92::nat) \<or> e = CHR ''/'' then Some e
                      else if e = CHR ''n'' then Some (char_of (10::nat))
                      else if e = CHR ''r'' then Some (char_of (13::nat))
                      else if e = CHR ''t'' then Some (char_of (9::nat))
                      else if e = CHR ''f'' then Some (char_of (12::nat))
                      else if e = CHR ''b'' then Some (char_of (8::nat))
                      else None) of
                  None \<Rightarrow> None
                | Some d \<Rightarrow> map_option (\<lambda>(t, z). (d # t, z)) (p_string r')))
      else if of_char c < (32::nat) then None
      else map_option (\<lambda>(t, z). (c # t, z)) (p_string r))"

definition not_fraction :: "string \<Rightarrow> bool" where
  "not_fraction r \<longleftrightarrow> r = [] \<or> hd r \<notin> {CHR ''.'', CHR ''e'', CHR ''E''}"

definition p_digits :: "string \<Rightarrow> (nat \<times> string) option" where
  "p_digits s =
     (case s of
        [] \<Rightarrow> None
      | c # r \<Rightarrow>
          if c = CHR ''0'' then Some (0, r)
          else if is_digit c then Some (str_nat (takeWhile is_digit s), dropWhile is_digit s)
          else None)"

definition p_number :: "string \<Rightarrow> (json \<times> string) option" where
  "p_number s =
     (let (neg, ds) = (if s \<noteq> [] \<and> hd s = CHR ''-'' then (True, tl s) else (False, s)) in
      case p_digits ds of
        None \<Rightarrow> None
      | Some (n, r) \<Rightarrow>
          if not_fraction r then Some (JInt (if neg then - int n else int n), r) else None)"

definition next_is :: "char \<Rightarrow> string \<Rightarrow> bool" where
  "next_is c s \<longleftrightarrow> s \<noteq> [] \<and> hd s = c"

fun p_value :: "nat \<Rightarrow> string \<Rightarrow> (json \<times> string) option"
and p_items :: "nat \<Rightarrow> string \<Rightarrow> (json list \<times> string) option"
and p_members :: "nat \<Rightarrow> string \<Rightarrow> ((string \<times> json) list \<times> string) option" where
  "p_value 0 s = None"
| "p_value (Suc n) s =
     (if next_is dq s then map_option (\<lambda>(t, r). (JStr t, r)) (p_string (tl s))
      else if next_is (CHR ''['') s then
        (let r = skip_ws (tl s) in
         if next_is (CHR '']'') r then Some (JList [], tl r)
         else map_option (\<lambda>(vs, q). (JList vs, q)) (p_items n r))
      else if next_is (CHR ''{'') s then
        (let r = skip_ws (tl s) in
         if next_is (CHR ''}'') r then Some (JObj [], tl r)
         else map_option (\<lambda>(ps, q). (JObj (fold (\<lambda>(k, v) d. dset d k v) ps []), q)) (p_members n r))
      else if take 4 s = ''null'' then Some (JNull, drop 4 s)
      else if take 4 s = ''true'' then Some (JBool True, drop 4 s)
      else if take 5 s = ''false'' then Some (JBool False, drop 5 s)
      else p_number s)"
| "p_items 0 s = None"
| "p_items (Suc n) s =
     (case p_value n s of
        None \<Rightarrow> None
      | Some (v, r) \<Rightarrow>
          (let r = skip_ws r in
           if next_is (CHR '']'') r then Some ([v], tl r)
           else if next_is (CHR '','') r
             then map_option (\<lambda>(vs, q). (v # vs, q)) (p_items n (skip_ws (tl r)))
           else None))"
| "p_members 0 s = None"
| "p_members (Suc n) s =
     (if next_is dq s then
        (case p_string (tl s) of
           None \<Rightarrow> None
         | Some (k, r) \<Rightarrow>
             (let r = skip_ws r in
              if next_is (CHR '':'') r then
                (case p_value n (skip_ws (tl r)) of
                   None \<Rightarrow> None
                 | Some (v, q) \<Rightarrow>
                     (let q = skip_ws q in
                      if next_is (CHR ''}'') q then Some ([(k, v)], tl q)
                      else if next_is (CHR '','') q
                        then map_option (\<lambda>(ps, z). ((k, v) # ps, z)) (p_members n (skip_ws (tl q)))
                      else None))
              else None))
      else None)"

text \<open>\<open>json.loads\<close> of bytes; malformed text raises a \<open>ValueError\<close>.\<close>

definition loads :: "bytes \<Rightarrow> json result" where
  "loads b =
     (case utf8_decode b of
        None \<Rightarrow> Inl ValueError
      | Some s \<Rightarrow>
          (case p_value (Suc (length s)) (skip_ws s) of
             None \<Rightarrow> Inl ValueError
           | Some (v, r) \<Rightarrow> if skip_ws r = [] then Inr v else Inl ValueError))"

text \<open>\<open>json.loads\<close> of a text.\<close>

definition loads_str :: "string \<Rightarrow> json result" where
  "loads_str s =
     (case p_value (Suc (length s)) (skip_ws s) of
        None \<Rightarrow> Inl ValueError
      | Some (v, r) \<Rightarrow> if skip_ws r = [] then Inr v else Inl ValueError)"

text \<open>\<open>json.dumps(v).encode("utf-8")\<close>.\<close>

definition dump_bytes :: "json \<Rightarrow> bytes" where
  "dump_bytes v = utf8 (dumps v)"

section \<open>Round trip\<close>

lemma dq_eq: "dq = CHR 0x22"
  by (simp add: dq_def char_of_def bit_iff_odd)

lemma of_char_eqD: "of_char c = (n :: nat) \<Longrightarrow> c = char_of n"
  by auto

lemma p_string_esc:
  "p_string (esc_char c @ t) = map_option (\<lambda>(u, z). (c # u, z)) (p_string t)"
proof -
  let ?n = "of_char c :: nat"
  have n: "?n < 256" by (rule of_char_less)
  have d: "?n div 16 < 16" "?n mod 16 < 16"
    using n by (auto intro: less_mult_imp_div_less)
  have bk: "char_of (16 * (?n div 16) + ?n mod 16) = c" by simp
  have bs: "of_char (char_of (92::nat)) = (92::nat)" by simp
  have h0: "hex_val (CHR ''0'') = Some 0" by (simp add: hex_val_def)
  show ?thesis
  proof (cases "?n = 34 \<or> ?n = 92 \<or> ?n \<in> {10, 13, 9, 12, 8}")
    case True
    then show ?thesis
      by (auto simp: esc_char_def Let_def dest: of_char_eqD)
  next
    case False
    show ?thesis
    proof (cases "?n < 32 \<or> 126 < ?n")
      case True
      with False have "esc_char c = [char_of (92::nat), CHR ''u'', CHR ''0'', CHR ''0'', hex_digit (?n div 16), hex_digit (?n mod 16)]"
        by (simp add: esc_char_def Let_def)
      then show ?thesis using d bk h0 by simp
    next
      case inner: False
      with False have "esc_char c = [c]" by (simp add: esc_char_def Let_def)
      then show ?thesis using False inner by simp
    qed
  qed
qed

lemma p_string_text: "p_string (concat (map esc_char s) @ dq # r) = Some (s, r)"
proof (induction s)
  case Nil
  then show ?case by (simp add: dq_def)
next
  case (Cons c s)
  then show ?case by (simp add: p_string_esc)
qed

fun jwf :: "json \<Rightarrow> bool" where
  "jwf (JList vs) \<longleftrightarrow> (\<forall>v \<in> set vs. jwf v)"
| "jwf (JObj ps) \<longleftrightarrow> distinct (map fst ps) \<and> (\<forall>p \<in> set ps. jwf (snd p))"
| "jwf _ \<longleftrightarrow> True"

text \<open>The nesting fuel a value needs; the text is always at least that long.\<close>

fun need :: "json \<Rightarrow> nat" where
  "need (JList vs) = 1 + sum_list (map (\<lambda>v. 1 + need v) vs)"
| "need (JObj ps) = 1 + sum_list (map (\<lambda>p. 1 + need (snd p)) ps)"
| "need _ = 1"

definition ok_tail :: "string \<Rightarrow> bool" where
  "ok_tail r \<longleftrightarrow> r = [] \<or> hd r \<in> {CHR '','', CHR '']'', CHR ''}''}"

lemma ok_tail_simps [simp]:
  "ok_tail []" "ok_tail (CHR '','' # r)" "ok_tail (CHR '']'' # r)" "ok_tail (CHR ''}'' # r)"
  by (simp_all add: ok_tail_def)

lemma digit_chars:
  "\<not> is_digit (CHR '','')" "\<not> is_digit (CHR '']'')" "\<not> is_digit (CHR ''}'')" "\<not> is_digit (CHR ''-'')"
  "\<not> is_digit (CHR ''['')" "\<not> is_digit (CHR ''{'')" "\<not> is_digit (CHR ''n'')" "\<not> is_digit (CHR ''t'')"
  "\<not> is_digit (CHR ''f'')" "\<not> is_digit (CHR 0x22)" "\<not> is_digit (CHR '' '')" "\<not> is_digit (CHR 0x09)"
  "\<not> is_digit (CHR 0x0A)" "\<not> is_digit (CHR 0x0D)"
  by (simp_all add: is_digit_def)

lemma p_digits_nat_str:
  assumes "ok_tail r" shows "p_digits (nat_str n @ r) = Some (n, r)"
proof -
  obtain c t where ct: "nat_str n = c # t" by (cases "nat_str n") auto
  have dig: "is_digit c" using nat_str_digits [of c n] ct by simp
  have r: "takeWhile is_digit r = []" "dropWhile is_digit r = r"
    using assms by (cases r; auto simp: ok_tail_def digit_chars)+
  have all: "\<forall>x \<in> set (nat_str n). is_digit x" using nat_str_digits by blast
  have zero: "CHR ''0'' = digit_char 0" by (simp add: digit_char_def char_of_def bit_iff_odd)
  show ?thesis
  proof (cases "c = CHR ''0''")
    case True
    then have "n = 0" using nat_str_hd [of n] ct zero by simp
    then show ?thesis by (simp add: nat_str_0 p_digits_def)
  next
    case False
    have "takeWhile is_digit (nat_str n @ r) = nat_str n" "dropWhile is_digit (nat_str n @ r) = r"
      using all r by (simp_all add: takeWhile_append2 dropWhile_append2)
    then show ?thesis using False dig ct str_nat_str [of n] by (simp add: p_digits_def)
  qed
qed

lemma ok_tail_not_fraction: "ok_tail r \<Longrightarrow> not_fraction r"
  by (auto simp: ok_tail_def not_fraction_def)

lemma nat_str_hd_digit: "is_digit (hd (nat_str n @ r))"
  using nat_str_digits [of "hd (nat_str n)" n] by (simp add: hd_append)

lemma p_number_int_str:
  assumes "ok_tail r" shows "p_number (int_str i @ r) = Some (JInt i, r)"
proof (cases "i < 0")
  case True
  then show ?thesis
    using p_digits_nat_str [OF assms] ok_tail_not_fraction [OF assms]
    by (simp add: p_number_def int_str_def)
next
  case False
  have "hd (nat_str (nat i) @ r) \<noteq> CHR ''-''"
    using nat_str_hd_digit [of "nat i" r] digit_chars(4) by metis
  with False show ?thesis
    using p_digits_nat_str [OF assms] ok_tail_not_fraction [OF assms]
    by (simp add: p_number_def int_str_def)
qed

lemma int_str_start:
  "int_str i \<noteq> []" "is_digit (hd (int_str i @ r)) \<or> hd (int_str i @ r) = CHR ''-''"
  using nat_str_hd_digit by (simp_all add: int_str_def)

definition ok_start :: "char \<Rightarrow> bool" where
  "ok_start c \<longleftrightarrow> c \<notin> {CHR '' '', CHR 0x09, CHR 0x0A, CHR 0x0D, CHR '']'', CHR ''}'', CHR '',''}"

lemma dumps_start: "dumps_gap b v \<noteq> [] \<and> ok_start (hd (dumps_gap b v @ r))"
proof (cases v)
  case (JInt i)
  have "\<not> is_digit c" if "c \<in> {CHR '' '', CHR 0x09, CHR 0x0A, CHR 0x0D, CHR '']'', CHR ''}'', CHR '',''}" for c
    using that by (auto simp: digit_chars)
  with JInt int_str_start [of i] show ?thesis by (force simp: ok_start_def)
qed (auto simp: str_text_def dq_eq ok_start_def)

lemma skip_ws_start: "s \<noteq> [] \<Longrightarrow> ok_start (hd s) \<Longrightarrow> skip_ws s = s"
  by (cases s) (auto simp: skip_ws_def ok_start_def)

lemma skip_ws_dumps: "skip_ws (dumps_gap b v @ r) = dumps_gap b v @ r"
  using dumps_start [of b v r] skip_ws_start [of "dumps_gap b v @ r"] by blast

lemma skip_ws_space: "skip_ws (gap b @ s) = skip_ws s"
  by (cases b) (simp_all add: skip_ws_def)

lemma skip_ws_marks [simp]:
  "skip_ws (CHR '','' # s) = CHR '','' # s" "skip_ws (CHR '']'' # s) = CHR '']'' # s"
  "skip_ws (CHR ''}'' # s) = CHR ''}'' # s" "skip_ws (CHR '':'' # s) = CHR '':'' # s"
  "skip_ws (CHR 0x22 # s) = CHR 0x22 # s" "skip_ws [] = []"
  by (simp_all add: skip_ws_def)

lemma fold_dset_distinct:
  "distinct (map fst (d @ ps)) \<Longrightarrow> fold (\<lambda>(k, v) d. dset d k v) ps d = d @ ps"
proof (induction ps arbitrary: d)
  case (Cons p ps)
  obtain k v where p: "p = (k, v)" by fastforce
  have "dset d k v = d @ [(k, v)]" if "k \<notin> set (map fst d)" for d :: "('a, 'b) dict"
    using that by (induction d k v rule: dset.induct) auto
  then have "dset d k v = d @ [p]" using Cons.prems p by simp
  with Cons p show ?case by simp
qed simp

lemma p_items_join:
  assumes "vs \<noteq> []" "sum_list (map (\<lambda>v. 1 + need v) vs) \<le> n"
    and "\<And>v n r. v \<in> set vs \<Longrightarrow> need v \<le> n \<Longrightarrow> ok_tail r \<Longrightarrow> p_value n (dumps_gap b v @ r) = Some (v, r)"
  shows "p_items n (join (CHR '','' # gap b) (map (dumps_gap b) vs) @ CHR '']'' # r) = Some (vs, r)"
  using assms
proof (induction vs arbitrary: n)
  case (Cons v vs)
  then obtain m where n: "n = Suc m" by (cases n) auto
  show ?case
  proof (cases vs)
    case Nil
    with Cons.prems n show ?thesis by (simp add: next_is_def)
  next
    case (Cons w ws)
    have IH: "p_items m (join (CHR '','' # gap b) (map (dumps_gap b) vs) @ CHR '']'' # r) = Some (vs, r)"
      using Cons.IH Cons.prems n \<open>vs = w # ws\<close> by simp
    obtain t where t: "join (CHR '','' # gap b) (map (dumps_gap b) vs) @ CHR '']'' # r = dumps_gap b w @ t"
      using \<open>vs = w # ws\<close> by (cases ws) auto
    have "p_value m (dumps_gap b v @ CHR '','' # gap b @ dumps_gap b w @ t) = Some (v, CHR '','' # gap b @ dumps_gap b w @ t)"
      using Cons.prems n by simp
    then show ?thesis
      using IH n t \<open>vs = w # ws\<close> by (simp add: next_is_def skip_ws_space skip_ws_dumps)
  qed
qed simp

definition member_text :: "bool \<Rightarrow> string \<times> json \<Rightarrow> string" where
  "member_text b = (\<lambda>(k, v). str_text k @ CHR '':'' # gap b @ dumps_gap b v)"

lemma member_text_append: "member_text b (k, v) @ r = CHR 0x22 # concat (map esc_char k) @ dq # CHR '':'' # gap b @ dumps_gap b v @ r"
  by (simp add: member_text_def str_text_def dq_eq)

lemma p_members_join:
  assumes "ps \<noteq> []" "sum_list (map (\<lambda>p. 1 + need (snd p)) ps) \<le> n"
    and "\<And>p n r. p \<in> set ps \<Longrightarrow> need (snd p) \<le> n \<Longrightarrow> ok_tail r \<Longrightarrow>
           p_value n (dumps_gap b (snd p) @ r) = Some (snd p, r)"
  shows "p_members n (join (CHR '','' # gap b) (map (member_text b) ps) @ CHR ''}'' # r) = Some (ps, r)"
  using assms
proof (induction ps arbitrary: n)
  case (Cons p ps)
  then obtain m where n: "n = Suc m" by (cases n) auto
  obtain k v where p: "p = (k, v)" by fastforce
  have val: "p_value m (dumps_gap b v @ z) = Some (v, z)" if "ok_tail z" for z
    using Cons.prems(2) Cons.prems(3) [of p m z] n p that by simp
  show ?case
  proof (cases ps)
    case Nil
    with n p show ?thesis
      by (simp add: member_text_append next_is_def dq_eq p_string_text [unfolded dq_eq]
          skip_ws_space skip_ws_dumps val)
  next
    case (Cons q qs)
    have IH: "p_members m (join (CHR '','' # gap b) (map (member_text b) ps) @ CHR ''}'' # r) = Some (ps, r)"
      using Cons.IH Cons.prems n \<open>ps = q # qs\<close> by simp
    obtain t where t: "join (CHR '','' # gap b) (map (member_text b) ps) @ CHR ''}'' # r = CHR 0x22 # t"
      using \<open>ps = q # qs\<close> by (cases qs; cases q) (auto simp: member_text_append)
    then show ?thesis
      using IH n p \<open>ps = q # qs\<close>
      by (simp add: member_text_append next_is_def dq_eq p_string_text [unfolded dq_eq]
          skip_ws_space skip_ws_dumps val)
  qed
qed simp

lemma p_value_dumps:
  "jwf v \<Longrightarrow> need v \<le> n \<Longrightarrow> ok_tail r \<Longrightarrow> p_value n (dumps_gap b v @ r) = Some (v, r)"
proof (induction v arbitrary: n r)
  case JNull
  then show ?case by (cases n) (simp_all add: next_is_def dq_eq)
next
  case (JBool x)
  then show ?case by (cases n) (simp_all add: next_is_def dq_eq)
next
  case (JInt i)
  have "hd (int_str i @ r) \<notin> {CHR 0x22, CHR ''['', CHR ''{'', CHR ''n'', CHR ''t'', CHR ''f''}"
    using int_str_start(2) [of i r] by (auto simp: digit_chars)
  then have "\<not> next_is dq (int_str i @ r)" "\<not> next_is (CHR ''['') (int_str i @ r)"
    "\<not> next_is (CHR ''{'') (int_str i @ r)" "take 4 (int_str i @ r) \<noteq> ''null''"
    "take 4 (int_str i @ r) \<noteq> ''true''" "take 5 (int_str i @ r) \<noteq> ''false''"
    by (cases "int_str i @ r"; auto simp: next_is_def dq_eq)+
  with JInt p_number_int_str show ?case by (cases n) simp_all
next
  case (JStr s)
  then show ?case
    by (cases n) (simp_all add: str_text_def next_is_def p_string_text)
next
  case (JList vs)
  then obtain m where n: "n = Suc m" by (cases n) auto
  show ?case
  proof (cases "vs = []")
    case True
    with n show ?thesis by (simp add: next_is_def dq_eq)
  next
    case False
    then obtain w ws where vs: "vs = w # ws" by (cases vs) auto
    have items: "p_items m (join (CHR '','' # gap b) (map (dumps_gap b) vs) @ CHR '']'' # r) = Some (vs, r)"
      using JList n False by (intro p_items_join) auto
    obtain t where t: "join (CHR '','' # gap b) (map (dumps_gap b) vs) @ CHR '']'' # r = dumps_gap b w @ t"
      using vs by (cases ws) auto
    have "\<not> next_is (CHR '']'') (dumps_gap b w @ t)"
      using dumps_start [of b w t] by (auto simp: next_is_def ok_start_def)
    with items t n show ?thesis
      by (simp add: next_is_def [of _ "_ # _"] dq_eq skip_ws_dumps Let_def)
  qed
next
  case (JObj ps)
  then obtain m where n: "n = Suc m" by (cases n) auto
  have tx: "dumps_gap b (JObj ps) = ''{'' @ join (CHR '','' # gap b) (map (member_text b) ps) @ ''}''"
    by (simp add: member_text_def)
  show ?case
  proof (cases "ps = []")
    case True
    with n show ?thesis by (simp add: next_is_def dq_eq)
  next
    case False
    have "p_members m (join (CHR '','' # gap b) (map (member_text b) ps) @ CHR ''}'' # r) = Some (ps, r)"
    proof (rule p_members_join [OF False])
      fix p n r assume "p \<in> set ps" "need (snd p) \<le> n" "ok_tail r"
      with JObj.IH [of p "snd p"] JObj.prems(1) show "p_value n (dumps_gap b (snd p) @ r) = Some (snd p, r)"
        by (cases p) auto
    qed (use JObj.prems n in simp)
    moreover obtain t where "join (CHR '','' # gap b) (map (member_text b) ps) @ CHR ''}'' # r = CHR 0x22 # t"
      using False by (cases ps rule: remdups_adj.cases) (auto simp: member_text_append)
    moreover have "fold (\<lambda>(k, v) d. dset d k v) ps [] = ps"
      using JObj.prems(1) fold_dset_distinct [of "[]" ps] by simp
    ultimately show ?thesis using n unfolding tx by (simp add: next_is_def dq_eq)
  qed
qed

lemma join_length: "sum_list (map (\<lambda>s. length s) ts) + length ts \<le> Suc (length (join (CHR '','' # gap b) ts))"
  by (induction "CHR '','' # gap b" ts rule: join.induct) auto

lemma sum_list_Suc_le:
  assumes "\<And>x. x \<in> set xs \<Longrightarrow> f x \<le> (g x :: nat)"
  shows "sum_list (map (\<lambda>x. 1 + f x) xs) \<le> sum_list (map g xs) + length xs"
proof -
  have "sum_list (map (\<lambda>x. 1 + f x) xs) = sum_list (map f xs) + length xs" by (induction xs) auto
  with sum_list_mono [of xs f g] assms show ?thesis by simp
qed

lemma need_length: "need v \<le> length (dumps_gap b v)"
proof (induction v)
  case (JInt i)
  show ?case using int_str_start(1) [of i] by (simp add: Suc_le_eq)
next
  case (JList vs)
  then have "sum_list (map (\<lambda>v. 1 + need v) vs) \<le> sum_list (map (\<lambda>v. length (dumps_gap b v)) vs) + length vs"
    by (rule sum_list_Suc_le)
  also have "\<dots> \<le> Suc (length (join (CHR '','' # gap b) (map (dumps_gap b) vs)))"
    using join_length [where b = b and ts = "map (dumps_gap b) vs"] by (simp add: comp_def)
  finally show ?case by simp
next
  case (JObj ps)
  have "need (snd p) \<le> length (member_text b p)" if "p \<in> set ps" for p
  proof -
    obtain k v where p: "p = (k, v)" by fastforce
    then have "need v \<le> length (dumps_gap b v)" using JObj that by (metis prod_set_simps(2) singletonI snds.intros snd_conv)
    with p show ?thesis by (simp add: member_text_def)
  qed
  then have "sum_list (map (\<lambda>p. 1 + need (snd p)) ps) \<le> sum_list (map (\<lambda>p. length (member_text b p)) ps) + length ps"
    by (rule sum_list_Suc_le)
  also have "\<dots> \<le> Suc (length (join (CHR '','' # gap b) (map (member_text b) ps)))"
    using join_length [where b = b and ts = "map (member_text b) ps"] by (simp add: comp_def)
  finally show ?case by (simp add: member_text_def)
qed (simp_all add: str_text_def)

theorem loads_str_dumps [simp]:
  assumes "jwf v" shows "loads_str (dumps_gap b v) = Inr v"
proof -
  have "p_value (Suc (length (dumps_gap b v))) (dumps_gap b v @ []) = Some (v, [])"
    using assms need_length [of v b] by (intro p_value_dumps) simp_all
  moreover have "skip_ws (dumps_gap b v) = dumps_gap b v" using skip_ws_dumps [of b v "[]"] by simp
  ultimately show ?thesis by (simp add: loads_str_def del: p_value.simps)
qed

theorem loads_dump_bytes [simp]:
  assumes "jwf v" shows "loads (dump_bytes v) = Inr v"
  using loads_str_dumps [OF assms, of True] by (simp add: loads_def loads_str_def dump_bytes_def del: p_value.simps)

text \<open>Every value a parser returns has distinct keys in its objects.\<close>

lemma jwf_empty: "jwf (JObj [])"
  by simp

lemma jwf_dset: "jwf (JObj d) \<Longrightarrow> jwf w \<Longrightarrow> jwf (JObj (dset d k w))"
proof -
  assume d: "jwf (JObj d)" "jwf w"
  have "dwf (dset d k w)" using d(1) dwf_dset [of d k w] by (simp add: dwf_def)
  moreover have "q \<in> set (dset d k w) \<Longrightarrow> q \<in> set d \<or> q = (k, w)" for q
    by (induction d k w rule: dset.induct) (auto split: if_splits)
  ultimately show ?thesis using d by (fastforce simp: dwf_def)
qed

lemma jwf_fold: "jwf (JObj d) \<Longrightarrow> \<forall>p \<in> set ps. jwf (snd p) \<Longrightarrow> jwf (JObj (fold (\<lambda>(k, v) d. dset d k v) ps d))"
proof (induction ps arbitrary: d)
  case (Cons p ps)
  obtain k w where p: "p = (k, w)" by fastforce
  with Cons.prems have "jwf (JObj (dset d k w))" by (intro jwf_dset) simp_all
  from Cons.IH [OF this] Cons.prems(2) p show ?case by (simp del: jwf.simps(2))
qed simp

lemmas jwf_built = jwf_fold [OF jwf_empty]

lemma parsed_jwf:
  "p_value n s = Some (v, r) \<Longrightarrow> jwf v"
  "p_items n s = Some (vs, r) \<Longrightarrow> \<forall>v \<in> set vs. jwf v"
  "p_members n s = Some (ps, r) \<Longrightarrow> \<forall>p \<in> set ps. jwf (snd p)"
proof (induction n s and n s and n s arbitrary: v r and vs r and ps r rule: p_value_p_items_p_members.induct)
  case (2 n s)
  show ?case
    using "2.prems" "2.IH" jwf_built
    by (auto simp: Let_def p_number_def jwf_empty simp del: jwf.simps(2) split: if_splits option.splits prod.splits)
next
  case (4 n s)
  then show ?case by (fastforce simp: Let_def split: option.splits prod.splits if_splits)
next
  case (6 n s)
  then show ?case by (fastforce simp: Let_def split: option.splits prod.splits if_splits)
qed simp_all

lemma loads_str_jwf: "loads_str s = Inr v \<Longrightarrow> jwf v"
  using parsed_jwf(1) by (auto simp: loads_str_def simp del: p_value.simps split: option.splits if_splits)

end
