(* ===== verification/Manifest_Store.thy ===== *)
theory Manifest_Store
  imports Leaf_Propagation Json_Text "HOL-Library.Multiset"
begin

text \<open>
  \<open>automation/manifest_store.py\<close>: a leaf's manifest is replicated to nodes chosen by rendezvous
  hashing of its root, and read back from any of them. The manifest travels as JSON text. Node
  weights are digests; two nodes of equal weight would be ranked in the unspecified order of a
  Python set, here in the order of the node list.
\<close>

section \<open>The code\<close>

definition rv_weight :: "(bytes \<Rightarrow> bytes) \<Rightarrow> string \<Rightarrow> string \<Rightarrow> bytes" where
  "rv_weight sha rt node = sha (utf8 (rt @ ''|'' @ node))"

definition ranked :: "(bytes \<Rightarrow> bytes) \<Rightarrow> string \<Rightarrow> string list \<Rightarrow> string list" where
  "ranked sha rt nodes = rev (sort_key (rv_weight sha rt) (rev (remdups nodes)))"

definition manifest_nodes :: "(bytes \<Rightarrow> bytes) \<Rightarrow> string \<Rightarrow> string list \<Rightarrow> int \<Rightarrow> string list result" where
  "manifest_nodes sha rt nodes reps =
     (if reps < 1 \<or> int (length nodes) < reps then Inl ValueError
      else Inr (py_take reps (ranked sha rt nodes)))"

definition manifest_key :: "string \<Rightarrow> string" where
  "manifest_key rt = ''manifest:'' @ rt"

definition manifest_json :: "PropagationManifest \<Rightarrow> json" where
  "manifest_json m = JObj
     [(''fragment_nodes'', JObj (sort_key fst
         (map (\<lambda>(x, nl). (nat_str (unat x), JList (map JStr nl))) (m_fragment_nodes m)))),
      (''k'', JInt (m_k m)), (''n'', JInt (m_n m)), (''orig_len'', JInt (m_orig_len m)),
      (''replicas'', JInt (m_replicas m)), (''root'', JStr (m_root m)), (''tier'', JStr (m_tier m))]"

definition serialize :: "PropagationManifest \<Rightarrow> bytes" where
  "serialize m = dump_bytes (manifest_json m)"

text \<open>\<open>d[key]\<close> on a parsed value, and the conversions \<open>_deserialize\<close> applies.\<close>

fun jindex :: "json \<Rightarrow> string \<Rightarrow> json result" where
  "jindex (JObj d) key = (case dget d key of None \<Rightarrow> Inl KeyError | Some v \<Rightarrow> Inr v)"
| "jindex _ key = Inl TypeError"

text \<open>\<open>int\<close> of a JSON string reads a signed decimal numeral.\<close>

definition jint_str :: "string \<Rightarrow> int result" where
  "jint_str s =
     (let (neg, ds) = (if s \<noteq> [] \<and> hd s = CHR ''-'' then (True, tl s) else (False, s)) in
      if ds = [] \<or> \<not> list_all is_digit ds then Inl ValueError
      else Inr (if neg then - int (str_nat ds) else int (str_nat ds)))"

fun jint :: "json \<Rightarrow> int result" where
  "jint (JInt i) = Inr i"
| "jint (JBool b) = Inr (if b then 1 else 0)"
| "jint (JStr s) = jint_str s"
| "jint _ = Inl TypeError"

fun jstr :: "json \<Rightarrow> string result" where
  "jstr (JStr s) = Inr s"
| "jstr _ = Inl OtherError"

text \<open>\<open>list(nl)\<close> of a parsed value: the elements, the characters of a string, the keys of an object.\<close>

fun jnodes :: "json \<Rightarrow> string list result" where
  "jnodes (JList vs) = rmap jstr vs"
| "jnodes (JStr s) = Inr (map (\<lambda>c. [c]) s)"
| "jnodes (JObj d) = Inr (dkeys d)"
| "jnodes _ = Inl TypeError"

definition jpoint :: "string \<Rightarrow> byte result" where
  "jpoint s = rbind (jint_str s) (\<lambda>i. if 0 \<le> i \<and> i < 256 then Inr (word_of_int i) else Inl OtherError)"

definition jfragments :: "json \<Rightarrow> (byte, string list) dict result" where
  "jfragments v =
     (case v of
        JObj d \<Rightarrow>
          rfold (\<lambda>(x, nl) out. rbind (jpoint x) (\<lambda>i. rbind (jnodes nl) (\<lambda>ns. Inr (dset out i ns)))) d []
      | _ \<Rightarrow> Inl AttributeError)"

text \<open>
  A manifest whose root, tier or node names are not strings, or whose fragment ids are not bytes,
  is not represented: \<open>OtherError\<close>.
\<close>

definition deserialize :: "bytes \<Rightarrow> PropagationManifest result" where
  "deserialize blob =
     rbind (loads blob) (\<lambda>d.
     rbind (rbind (jindex d ''root'') jstr) (\<lambda>rt.
     rbind (rbind (jindex d ''k'') jint) (\<lambda>k.
     rbind (rbind (jindex d ''n'') jint) (\<lambda>n.
     rbind (rbind (jindex d ''orig_len'') jint) (\<lambda>ol.
     rbind (rbind (jindex d ''tier'') jstr) (\<lambda>tier.
     rbind (rbind (jindex d ''replicas'') jint) (\<lambda>reps.
     rbind (rbind (jindex d ''fragment_nodes'') jfragments) (\<lambda>fn.
       Inr \<lparr>m_root = rt, m_k = k, m_n = n, m_orig_len = ol, m_tier = tier, m_replicas = reps,
            m_fragment_nodes = fn\<rparr>))))))))"

definition publish_manifest ::
    "(bytes \<Rightarrow> bytes) \<Rightarrow> ('s \<Rightarrow> string \<Rightarrow> string \<Rightarrow> bytes \<Rightarrow> 's result) \<Rightarrow> 's \<Rightarrow> PropagationManifest \<Rightarrow>
     string list \<Rightarrow> int \<Rightarrow> (string list \<times> 's) result" where
  "publish_manifest sha put_blob s m nodes reps =
     (let blob = serialize m in
      rbind (manifest_nodes sha (m_root m) nodes reps) (\<lambda>targets.
      rbind (put_seq put_blob (map (\<lambda>node. (node, manifest_key (m_root m), blob)) targets) s) (\<lambda>s'.
        Inr (targets, s'))))"

fun resolve_loop ::
    "(string \<Rightarrow> bytes option result) \<Rightarrow> string \<Rightarrow> string set option \<Rightarrow> string list \<Rightarrow> PropagationManifest result" where
  "resolve_loop read rt reachable [] = Inl ManifestUnavailable"
| "resolve_loop read rt reachable (node # ns) =
     (if \<not> node_reachable reachable node then resolve_loop read rt reachable ns
      else case read node of
             Inr (Some blob) \<Rightarrow>
               rbind (deserialize blob) (\<lambda>m.
                 if m_root m \<noteq> rt then resolve_loop read rt reachable ns else Inr m)
           | _ \<Rightarrow> resolve_loop read rt reachable ns)"

definition resolve_manifest ::
    "(bytes \<Rightarrow> bytes) \<Rightarrow> ('s \<Rightarrow> string \<Rightarrow> string \<Rightarrow> bytes option result) \<Rightarrow> 's \<Rightarrow> string \<Rightarrow> string list \<Rightarrow>
     int \<Rightarrow> string set option \<Rightarrow> PropagationManifest result" where
  "resolve_manifest sha get_blob s rt nodes reps reachable =
     rbind (manifest_nodes sha rt nodes reps) (\<lambda>targets.
       resolve_loop (\<lambda>node. get_blob s node (manifest_key rt)) rt reachable targets)"

section \<open>Rendezvous ranking\<close>

lemma set_ranked: "set (ranked sha rt nodes) = set nodes"
  by (simp add: ranked_def)

lemma distinct_ranked: "distinct (ranked sha rt nodes)"
  by (simp add: ranked_def)

text \<open>
  Writer and reader may list the nodes in different orders and with repetitions: as long as no two
  nodes have the same weight they compute the same ranking.
\<close>

lemma ranked_order_independent:
  assumes "set nodes = set nodes'" "inj_on (rv_weight sha rt) (set nodes)"
  shows "ranked sha rt nodes = ranked sha rt nodes'"
proof -
  let ?w = "rv_weight sha rt"
  have "mset (rev (remdups nodes)) = mset (rev (remdups nodes'))"
    using assms(1) by (simp add: set_eq_iff_mset_remdups_eq [symmetric])
  then have "sort_key ?w (rev (remdups nodes)) = sort_key ?w (rev (remdups nodes'))"
    using assms(2) by (intro sort_key_inj_key_eq) simp_all
  then show ?thesis by (simp add: ranked_def)
qed

lemma manifest_nodes_Inr:
  "manifest_nodes sha rt nodes reps = Inr targets \<longleftrightarrow>
     1 \<le> reps \<and> reps \<le> int (length nodes) \<and> targets = take (nat reps) (ranked sha rt nodes)"
  by (auto simp: manifest_nodes_def py_take_def)

section \<open>Serialisation round trip\<close>

lemma insort_key_map: "insort_key f (g x) (map g ys) = map g (insort_key (\<lambda>y. f (g y)) x ys)"
  by (induction ys) auto

lemma sort_key_map: "sort_key f (map g xs) = map g (sort_key (\<lambda>y. f (g y)) xs)"
  by (induction xs) (auto simp: insort_key_map)

text \<open>The manifest as read back: its fragment table sorted by the printed ids.\<close>

definition canonical :: "PropagationManifest \<Rightarrow> PropagationManifest" where
  "canonical m = m\<lparr>m_fragment_nodes := sort_key (\<lambda>p. nat_str (unat (fst p))) (m_fragment_nodes m)\<rparr>"

definition frag_entry :: "byte \<times> string list \<Rightarrow> string \<times> json" where
  "frag_entry = (\<lambda>(x, nl). (nat_str (unat x), JList (map JStr nl)))"

lemma frag_entries:
  "sort_key fst (map frag_entry fn) = map frag_entry (sort_key (\<lambda>p. nat_str (unat (fst p))) fn)"
proof -
  have "(\<lambda>p. fst (frag_entry p)) = (\<lambda>p. nat_str (unat (fst p)))" by (auto simp: frag_entry_def)
  then show ?thesis by (simp add: sort_key_map)
qed

lemma dwf_sort_key: "dwf d \<Longrightarrow> dwf (sort_key f d)"
proof -
  assume "dwf d"
  moreover have "mset (map fst (sort_key f d)) = mset (map fst d)" by simp
  ultimately show ?thesis unfolding dwf_def by (metis mset_eq_imp_distinct_iff)
qed

lemma jint_str_nat [simp]: "jint_str (nat_str n) = Inr (int n)"
proof -
  obtain c t where ct: "nat_str n = c # t" by (cases "nat_str n") auto
  have "is_digit c" using nat_str_digits [of c n] ct by simp
  then have "c \<noteq> CHR ''-''" using digit_chars(4) by metis
  moreover have "list_all is_digit (nat_str n)" using nat_str_digits by (auto simp: list_all_iff)
  ultimately show ?thesis using ct str_nat_str [of n] by (simp add: jint_str_def)
qed

lemma jpoint_nat_str [simp]: "jpoint (nat_str (unat x)) = Inr x"
proof -
  have "int (unat x) < 256" using unat_byte_less [of x] by linarith
  then have "uint x < 256" by simp
  then show ?thesis by (simp add: jpoint_def)
qed

lemma jfragments_entries:
  assumes "distinct (map fst (out @ fn))"
  shows "rfold (\<lambda>(x, nl) out. rbind (jpoint x) (\<lambda>i. rbind (jnodes nl) (\<lambda>ns. Inr (dset out i ns)))) (map frag_entry fn) out
       = Inr (out @ fn)"
  using assms
proof (induction fn arbitrary: out)
  case (Cons p fn)
  obtain x nl where p: "p = (x, nl)" by fastforce
  have "rmap jstr (map JStr nl) = Inr nl" by (induction nl) auto
  moreover have "dset out x nl = out @ [(x, nl)]"
    using fold_dset_distinct [of out "[(x, nl)]"] Cons.prems p by simp
  ultimately show ?case using Cons p by (simp add: frag_entry_def)
qed simp

lemma manifest_json_wf: "dwf (m_fragment_nodes m) \<Longrightarrow> jwf (manifest_json m)"
proof -
  assume wf: "dwf (m_fragment_nodes m)"
  let ?s = "sort_key (\<lambda>p. nat_str (unat (fst p))) (m_fragment_nodes m)"
  have "distinct (map fst ?s)" using dwf_sort_key [OF wf] by (simp add: dwf_def)
  then have "distinct (map (\<lambda>p. nat_str (unat (fst p))) ?s)"
    by (simp add: distinct_map inj_on_def word_unat_eq_iff [symmetric])
  then have "distinct (map fst (map frag_entry ?s))"
    by (simp add: frag_entry_def comp_def split_def)
  moreover have "\<forall>p \<in> set (map frag_entry ?s). jwf (snd p)" by (auto simp: frag_entry_def)
  ultimately show ?thesis
    by (simp add: manifest_json_def frag_entry_def [symmetric] frag_entries)
qed

lemma deserialize_serialize:
  assumes "dwf (m_fragment_nodes m)"
  shows "deserialize (serialize m) = Inr (canonical m)"
proof -
  let ?s = "sort_key (\<lambda>p. nat_str (unat (fst p))) (m_fragment_nodes m)"
  have "distinct (map fst ([] @ ?s))" using dwf_sort_key [OF assms] by (simp add: dwf_def)
  from jfragments_entries [OF this]
  have "jfragments (JObj (map frag_entry ?s)) = Inr ?s" by (simp add: jfragments_def)
  moreover have "loads (serialize m) = Inr (manifest_json m)"
    by (simp add: serialize_def manifest_json_wf [OF assms])
  ultimately show ?thesis
    by (simp add: deserialize_def manifest_json_def frag_entry_def [symmetric] frag_entries canonical_def)
qed

lemma canonical_root [simp]: "m_root (canonical m) = m_root m"
  by (simp add: canonical_def)

lemma manifest_of_canonical: "manifest_of sha leaf d m \<Longrightarrow> manifest_of sha leaf d (canonical m)"
  by (simp add: manifest_of_def canonical_def dwf_sort_key)

lemma set_canonical [simp]: "set (m_fragment_nodes (canonical m)) = set (m_fragment_nodes m)"
  by (simp add: canonical_def)

section \<open>Publish and resolve\<close>

lemma resolve_loop_finds:
  assumes "deserialize blob = Inr m" "m_root m = rt"
    and "\<And>node. node \<in> set ns \<Longrightarrow> node_reachable reachable node \<Longrightarrow> read node = Inr (Some blob) \<or> read node = Inr None"
    and "\<exists>node \<in> set ns. node_reachable reachable node \<and> read node = Inr (Some blob)"
  shows "resolve_loop read rt reachable ns = Inr m"
  using assms(3,4)
proof (induction ns)
  case (Cons node ns)
  show ?case
  proof (cases "node_reachable reachable node \<and> read node = Inr (Some blob)")
    case True
    then show ?thesis using assms(1,2) by simp
  next
    case False
    then have "\<exists>node \<in> set ns. node_reachable reachable node \<and> read node = Inr (Some blob)"
      using Cons.prems(2) by auto
    moreover have "node_reachable reachable node \<Longrightarrow> read node = Inr None" using False Cons.prems(1) by auto
    ultimately show ?thesis using Cons by (cases "node_reachable reachable node") auto
  qed
qed simp

lemma resolve_loop_root: "resolve_loop read rt reachable ns = Inr m \<Longrightarrow> m_root m = rt"
  by (induction ns) (auto simp: rbind_eq_Inr split: if_splits sum.splits option.splits)

context mesh_store
begin

lemma publish_manifest_Inr:
  assumes "publish_manifest sha put_blob s m nodes reps = Inr (targets, s')"
  shows "manifest_nodes sha (m_root m) nodes reps = Inr targets"
    and "put_seq put_blob (map (\<lambda>node. (node, manifest_key (m_root m), serialize m)) targets) s = Inr s'"
  using assms by (auto simp: publish_manifest_def Let_def rbind_eq_Inr)

lemma published_blob:
  assumes "put_seq put_blob (map (\<lambda>node. (node, key, blob)) targets) s = Inr s'" "node \<in> set targets"
  shows "get_blob s' node key = Inr (Some blob)"
  using assms(2) by (intro blobs.get_put_seq [OF assms(1)]) auto

lemma unpublished_blob:
  assumes "put_seq put_blob (map (\<lambda>node. (node, key, blob)) targets) s = Inr s'"
    and "\<And>n. n \<in> set targets \<Longrightarrow> bslot node k \<noteq> bslot n key"
  shows "get_blob s' node k = get_blob s node k"
  using assms(2) by (intro blobs.get_put_seq_other [OF assms(1)]) auto

lemma resolve_published:
  assumes "publish_manifest sha put_blob s m nodes reps = Inr (targets, s')" "dwf (m_fragment_nodes m)"
    and "\<And>node. node \<in> set targets \<Longrightarrow> get_blob s'' node (manifest_key (m_root m)) \<in> {get_blob s' node (manifest_key (m_root m)), Inr None}"
    and "\<exists>node \<in> set targets. node_reachable reachable node \<and>
           get_blob s'' node (manifest_key (m_root m)) = get_blob s' node (manifest_key (m_root m))"
  shows "resolve_manifest sha get_blob s'' (m_root m) nodes reps reachable = Inr (canonical m)"
proof -
  note P = publish_manifest_Inr [OF assms(1)]
  have "resolve_loop (\<lambda>node. get_blob s'' node (manifest_key (m_root m))) (m_root m) reachable targets = Inr (canonical m)"
  proof (rule resolve_loop_finds [OF deserialize_serialize [OF assms(2)]])
    show "\<exists>node \<in> set targets. node_reachable reachable node \<and> get_blob s'' node (manifest_key (m_root m)) = Inr (Some (serialize m))"
      using assms(4) published_blob [OF P(2)] by auto
  qed (use assms(3) published_blob [OF P(2)] in auto)
  then show ?thesis by (simp add: resolve_manifest_def P(1))
qed

end

section \<open>Properties\<close>

text \<open>
  C11: Manifest round trip. Reading back a serialised manifest gives the same commitment,
  parameters and tier, and for every fragment the same list of nodes.
\<close>

theorem manifest_round_trip:
  assumes "dwf (m_fragment_nodes m)"
  shows "\<exists>m'. deserialize (serialize m) = Inr m' \<and> m_root m' = m_root m \<and> m_k m' = m_k m \<and>
           m_n m' = m_n m \<and> m_orig_len m' = m_orig_len m \<and> m_tier m' = m_tier m \<and>
           m_replicas m' = m_replicas m \<and>
           (\<forall>x. dget (m_fragment_nodes m') x = dget (m_fragment_nodes m) x)"
proof -
  have "dget (m_fragment_nodes (canonical m)) x = dget (m_fragment_nodes m) x" for x
  proof -
    have "dwf (m_fragment_nodes (canonical m))" by (simp add: canonical_def dwf_sort_key assms)
    then show ?thesis
      using assms set_canonical [of m] by (metis dget_def dwf_def map_of_inject_set)
  qed
  then show ?thesis using deserialize_serialize [OF assms] by (auto simp: canonical_def)
qed

theorem manifest_round_trip_witness:
  "\<exists>m'. deserialize (serialize \<lparr>m_root = ''sha256:ab'', m_k = 2, m_n = 3, m_orig_len = 7, m_tier = ''hardened'',
       m_replicas = 1, m_fragment_nodes = [(2, [''b'']), (10, [''c'', ''d'']), (1, [])]\<rparr>) = Inr m' \<and> m_k m' = 2"
  using manifest_round_trip [of "\<lparr>m_root = ''sha256:ab'', m_k = 2, m_n = 3, m_orig_len = 7, m_tier = ''hardened'',
       m_replicas = 1, m_fragment_nodes = [(2, [''b'']), (10, [''c'', ''d'']), (1, [])]\<rparr>"]
  by (auto simp: dwf_def)

text \<open>
  One bad replica stops a lookup. If the first reachable replica of a root serves bytes that
  are not JSON, \<open>resolve_manifest\<close> raises \<open>ValueError\<close>, whatever the other replicas hold.
\<close>

theorem garbage_replica_aborts_resolve:
  assumes "manifest_nodes sha rt nodes reps = Inr (node # rest)" "node_reachable reachable node"
    and "get_blob s node (manifest_key rt) = Inr (Some blob)" "loads blob = Inl ValueError"
  shows "resolve_manifest sha get_blob s rt nodes reps reachable = Inl ValueError"
  using assms by (simp add: resolve_manifest_def deserialize_def)

theorem garbage_replica_aborts_resolve_witness:
  "resolve_manifest (\<lambda>b. b) (\<lambda>s node _. Inr (dget s node))
     [(''b'', []), (''a'', serialize \<lparr>m_root = ''r'', m_k = 1, m_n = 1, m_orig_len = 1, m_tier = ''t'',
         m_replicas = 1, m_fragment_nodes = [(1, [''a''])]\<rparr>)] ''r'' [''a'', ''b''] 2 None = Inl ValueError"
proof (rule garbage_replica_aborts_resolve)
  show "manifest_nodes (\<lambda>b. b) ''r'' [''a'', ''b''] 2 = Inr (''b'' # [''a''])"
    by (simp add: manifest_nodes_def ranked_def rv_weight_def utf8_def utf8_char_def py_take_def)
  show "loads [] = Inl ValueError"
    by (simp add: loads_def next_is_def p_number_def p_digits_def)
qed (simp_all add: node_reachable_def)

end
