(* ===== verification/Mesh_Namespace.thy ===== *)
theory Mesh_Namespace
  imports Manifest_Store
begin

text \<open>
  \<open>automation/mesh_namespace.py\<close>: the mutable name layer. A pointer (path, root, version,
  timestamp, writer) is replicated to the rendezvous nodes of its path; a reader takes the
  highest (version, timestamp, writer) among the reachable replicas.
\<close>

section \<open>The code\<close>

definition ref_nodes :: "(bytes \<Rightarrow> bytes) \<Rightarrow> string \<Rightarrow> string list \<Rightarrow> int \<Rightarrow> string list result" where
  "ref_nodes sha key nodes reps =
     (if reps < 1 \<or> int (length nodes) < reps then Inl ValueError
      else Inr (py_take reps (ranked sha key nodes)))"

definition blob_key :: "string \<Rightarrow> string" where
  "blob_key name = ''ns:'' @ name"

definition publish_blob ::
    "(bytes \<Rightarrow> bytes) \<Rightarrow> ('s \<Rightarrow> string \<Rightarrow> string \<Rightarrow> bytes \<Rightarrow> 's result) \<Rightarrow> 's \<Rightarrow> string \<Rightarrow> bytes \<Rightarrow>
     string list \<Rightarrow> int \<Rightarrow> (string list \<times> 's) result" where
  "publish_blob sha put_blob s name blob nodes reps =
     rbind (ref_nodes sha name nodes reps) (\<lambda>targets.
     rbind (put_seq put_blob (map (\<lambda>node. (node, blob_key name, blob)) targets) s) (\<lambda>s'.
       Inr (targets, s')))"

text \<open>The bytes of every reachable replica; an errored read is an absent replica.\<close>

fun read_copies :: "(string \<Rightarrow> bytes option result) \<Rightarrow> string set option \<Rightarrow> string list \<Rightarrow> bytes list" where
  "read_copies read reachable [] = []"
| "read_copies read reachable (node # ns) =
     (if \<not> node_reachable reachable node then read_copies read reachable ns
      else case read node of
             Inr (Some b) \<Rightarrow> b # read_copies read reachable ns
           | _ \<Rightarrow> read_copies read reachable ns)"

definition read_all ::
    "(bytes \<Rightarrow> bytes) \<Rightarrow> ('s \<Rightarrow> string \<Rightarrow> string \<Rightarrow> bytes option result) \<Rightarrow> 's \<Rightarrow> string \<Rightarrow> string list \<Rightarrow>
     int \<Rightarrow> string set option \<Rightarrow> bytes list result" where
  "read_all sha get_blob s name nodes reps reachable =
     rbind (ref_nodes sha name nodes reps) (\<lambda>targets.
       Inr (read_copies (\<lambda>node. get_blob s node (blob_key name)) reachable targets))"

record NamespaceRef =
  n_path :: string
  n_root :: string
  n_version :: int
  n_updated_at :: string
  n_writer :: string

definition ref_less :: "NamespaceRef \<Rightarrow> NamespaceRef \<Rightarrow> bool" where
  "ref_less a b \<longleftrightarrow>
     n_version a < n_version b \<or>
     n_version a = n_version b \<and>
       (n_updated_at a < n_updated_at b \<or>
        n_updated_at a = n_updated_at b \<and> n_writer a < n_writer b)"

definition ref_json :: "NamespaceRef \<Rightarrow> json" where
  "ref_json r = JObj [(''path'', JStr (n_path r)), (''root'', JStr (n_root r)),
     (''updated_at'', JStr (n_updated_at r)), (''version'', JInt (n_version r)), (''writer'', JStr (n_writer r))]"

definition ref_to_bytes :: "NamespaceRef \<Rightarrow> bytes" where
  "ref_to_bytes r = dump_bytes (ref_json r)"

definition ref_from_bytes :: "bytes \<Rightarrow> NamespaceRef result" where
  "ref_from_bytes b =
     rbind (loads b) (\<lambda>d.
     rbind (rbind (jindex d ''path'') jstr) (\<lambda>path.
     rbind (rbind (jindex d ''root'') jstr) (\<lambda>rt.
     rbind (rbind (jindex d ''version'') jint) (\<lambda>version.
     rbind (rbind (jindex d ''updated_at'') jstr) (\<lambda>updated.
     rbind (rbind (jindex d ''writer'') jstr) (\<lambda>writer.
       Inr \<lparr>n_path = path, n_root = rt, n_version = version, n_updated_at = updated, n_writer = writer\<rparr>))))))"

definition publish_ref ::
    "(bytes \<Rightarrow> bytes) \<Rightarrow> ('s \<Rightarrow> string \<Rightarrow> string \<Rightarrow> bytes \<Rightarrow> 's result) \<Rightarrow> 's \<Rightarrow> NamespaceRef \<Rightarrow>
     string list \<Rightarrow> int \<Rightarrow> (string list \<times> 's) result" where
  "publish_ref sha put_blob s r nodes reps =
     publish_blob sha put_blob s (n_path r) (ref_to_bytes r) nodes reps"

definition better_ref :: "string \<Rightarrow> bytes \<Rightarrow> NamespaceRef option \<Rightarrow> NamespaceRef option result" where
  "better_ref path b best =
     (case ref_from_bytes b of
        Inl e \<Rightarrow> if e = ValueError \<or> e = KeyError then Inr best else Inl e
      | Inr r \<Rightarrow>
          if n_path r \<noteq> path then Inr best
          else case best of
                 None \<Rightarrow> Inr (Some r)
               | Some q \<Rightarrow> Inr (Some (if ref_less q r then r else q)))"

definition resolve_ref ::
    "(bytes \<Rightarrow> bytes) \<Rightarrow> ('s \<Rightarrow> string \<Rightarrow> string \<Rightarrow> bytes option result) \<Rightarrow> 's \<Rightarrow> string \<Rightarrow> string list \<Rightarrow>
     int \<Rightarrow> string set option \<Rightarrow> NamespaceRef option result" where
  "resolve_ref sha get_blob s path nodes reps reachable =
     rbind (read_all sha get_blob s path nodes reps reachable) (\<lambda>blobs.
       rfold (better_ref path) blobs None)"

section \<open>The order on pointers\<close>

lemma ref_less_irrefl [simp]: "\<not> ref_less r r"
  by (simp add: ref_less_def)

lemma ref_less_trans: "ref_less a b \<Longrightarrow> ref_less b c \<Longrightarrow> ref_less a c"
  by (auto simp: ref_less_def)

lemma ref_less_linear_trans: "\<not> ref_less b a \<Longrightarrow> ref_less b c \<Longrightarrow> \<not> ref_less c a"
  by (auto simp: ref_less_def)

section \<open>Last writer wins\<close>

lemma ref_round_trip [simp]: "ref_from_bytes (ref_to_bytes r) = Inr r"
  by (simp add: ref_from_bytes_def ref_to_bytes_def ref_json_def)

text \<open>The valid pointers for a path among some replica bytes.\<close>

definition valid_refs :: "string \<Rightarrow> bytes list \<Rightarrow> NamespaceRef set" where
  "valid_refs path blobs = {r. n_path r = path \<and> (\<exists>b \<in> set blobs. ref_from_bytes b = Inr r)}"

lemma better_ref_step:
  assumes "better_ref path b best = Inr best'"
  shows "(best' = best \<and> (\<forall>r \<in> valid_refs path [b]. \<exists>q. best = Some q \<and> \<not> ref_less q r))
       \<or> (\<exists>r. best' = Some r \<and> r \<in> valid_refs path [b] \<and> (\<forall>q. best = Some q \<longrightarrow> ref_less q r))"
  using assms by (auto simp: better_ref_def valid_refs_def split: sum.splits if_splits option.splits)

lemma resolve_fold:
  assumes "rfold (better_ref path) blobs best = Inr (Some r)"
  shows "(r \<in> valid_refs path blobs \<or> best = Some r) \<and> (\<forall>q \<in> valid_refs path blobs. \<not> ref_less r q) \<and>
         (\<forall>q. best = Some q \<longrightarrow> \<not> ref_less r q)"
  using assms
proof (induction blobs arbitrary: best)
  case Nil
  then show ?case by (simp add: valid_refs_def)
next
  case (Cons b blobs)
  then obtain best' where b': "better_ref path b best = Inr best'" "rfold (better_ref path) blobs best' = Inr (Some r)"
    by (auto simp: rbind_eq_Inr)
  note IH = Cons.IH [OF b'(2)]
  have split: "valid_refs path (b # blobs) = valid_refs path [b] \<union> valid_refs path blobs"
    by (auto simp: valid_refs_def)
  from better_ref_step [OF b'(1)] show ?case
  proof
    assume *: "best' = best \<and> (\<forall>r \<in> valid_refs path [b]. \<exists>q. best = Some q \<and> \<not> ref_less q r)"
    have "\<not> ref_less r p" if "p \<in> valid_refs path [b]" for p
    proof -
      from * that obtain q where "best = Some q" "\<not> ref_less q p" by blast
      moreover then have "\<not> ref_less r q" using IH * by simp
      ultimately show ?thesis by (auto simp: ref_less_def)
    qed
    with IH * show ?thesis unfolding split by auto
  next
    assume "\<exists>p. best' = Some p \<and> p \<in> valid_refs path [b] \<and> (\<forall>q. best = Some q \<longrightarrow> ref_less q p)"
    then obtain p where p: "best' = Some p" "p \<in> valid_refs path [b]" "\<forall>q. best = Some q \<longrightarrow> ref_less q p"
      by blast
    have rp: "\<not> ref_less r p" using IH p(1) by simp
    have one: "x = p" if "x \<in> valid_refs path [b]" for x using that p(2) by (auto simp: valid_refs_def)
    have "\<not> ref_less r q" if "best = Some q" for q
      using p(3) rp that by (auto simp: ref_less_def)
    moreover have "r \<in> valid_refs path (b # blobs)" using IH p unfolding split by auto
    ultimately show ?thesis using IH rp one unfolding split by auto
  qed
qed

lemma resolve_fold_None:
  assumes "rfold (better_ref path) blobs best = Inr None"
  shows "valid_refs path blobs = {} \<and> best = None"
  using assms
proof (induction blobs arbitrary: best)
  case Nil
  then show ?case by (simp add: valid_refs_def)
next
  case (Cons b blobs)
  then obtain best' where b': "better_ref path b best = Inr best'" "rfold (better_ref path) blobs best' = Inr None"
    by (auto simp: rbind_eq_Inr)
  from Cons.IH [OF b'(2)] have "valid_refs path blobs = {}" "best' = None" by auto
  with better_ref_step [OF b'(1)] have "best = None" "valid_refs path [b] = {}" by auto
  with \<open>valid_refs path blobs = {}\<close> show ?case by (auto simp: valid_refs_def)
qed

lemma resolve_copies:
  "blobs \<noteq> [] \<Longrightarrow> set blobs \<subseteq> {ref_to_bytes r} \<Longrightarrow> n_path r = path \<Longrightarrow>
     rfold (better_ref path) blobs best = Inr (Some r) \<longleftrightarrow> (case best of None \<Rightarrow> True | Some q \<Rightarrow> q = r \<or> ref_less q r)"
proof (induction blobs arbitrary: best)
  case (Cons b blobs)
  then have b: "better_ref path b best = Inr (Some (case best of None \<Rightarrow> r | Some q \<Rightarrow> if ref_less q r then r else q))"
    by (auto simp: better_ref_def split: option.splits)
  show ?case
  proof (cases "blobs = []")
    case True
    with b show ?thesis by (auto split: option.splits)
  next
    case False
    then have "rfold (better_ref path) blobs (Some p) = Inr (Some r) \<longleftrightarrow> p = r \<or> ref_less p r" for p
      using Cons.IH [of "Some p"] Cons.prems by auto
    with b show ?thesis by (auto split: option.splits)
  qed
qed simp

lemma read_copies_all:
  "(\<And>node. node \<in> set ns \<Longrightarrow> node_reachable reachable node \<Longrightarrow> read node = Inr (Some b)) \<Longrightarrow>
     set (read_copies read reachable ns) \<subseteq> {b} \<and>
     (read_copies read reachable ns = [] \<longleftrightarrow> (\<forall>node \<in> set ns. \<not> node_reachable reachable node))"
  by (induction ns) auto

lemma set_read_copies:
  "set (read_copies read reachable ns) = {b. \<exists>node \<in> set ns. node_reachable reachable node \<and> read node = Inr (Some b)}"
  by (induction ns) (auto split: sum.splits option.splits)

context mesh_store
begin

lemma publish_blob_Inr:
  assumes "publish_blob sha put_blob s name blob nodes reps = Inr (targets, s')"
  shows "ref_nodes sha name nodes reps = Inr targets"
    and "put_seq put_blob (map (\<lambda>node. (node, blob_key name, blob)) targets) s = Inr s'"
    and "set targets \<subseteq> set nodes" "targets \<noteq> []"
proof -
  show r: "ref_nodes sha name nodes reps = Inr targets"
    and "put_seq put_blob (map (\<lambda>node. (node, blob_key name, blob)) targets) s = Inr s'"
    using assms by (auto simp: publish_blob_def rbind_eq_Inr)
  have t: "targets = take (nat reps) (ranked sha name nodes)" "1 \<le> reps" "reps \<le> int (length nodes)"
    using r by (auto simp: ref_nodes_def py_take_def split: if_splits)
  then show "set targets \<subseteq> set nodes" using set_take_subset set_ranked by metis
  have "nodes \<noteq> []" using t by auto
  then have "ranked sha name nodes \<noteq> []" using set_ranked [of sha name nodes] by force
  with t show "targets \<noteq> []" by auto
qed

lemma resolve_published_ref:
  assumes "ref_nodes sha (n_path r) nodes reps = Inr targets"
    and "\<And>node. node \<in> set targets \<Longrightarrow> get_blob s node (blob_key (n_path r)) = Inr (Some (ref_to_bytes r))"
    and "\<exists>node \<in> set targets. node_reachable reachable node"
  shows "resolve_ref sha get_blob s (n_path r) nodes reps reachable = Inr (Some r)"
proof -
  let ?b = "read_copies (\<lambda>node. get_blob s node (blob_key (n_path r))) reachable targets"
  have "set ?b \<subseteq> {ref_to_bytes r} \<and> (?b = [] \<longleftrightarrow> (\<forall>node \<in> set targets. \<not> node_reachable reachable node))"
    by (rule read_copies_all) (use assms(2) in simp)
  then have "rfold (better_ref (n_path r)) ?b None = Inr (Some r)"
    using assms(3) resolve_copies [of ?b r "n_path r" None] by auto
  then show ?thesis by (simp add: resolve_ref_def read_all_def assms(1))
qed

end

section \<open>Properties\<close>

text \<open>
  C10: Last writer wins. A pointer that \<open>resolve_ref\<close> returns was stored under the path by a
  reachable replica, and no valid pointer on any reachable replica is newer by (version,
  timestamp, writer). It returns none only if no reachable replica holds a valid pointer.
\<close>

theorem resolve_ref_newest:
  assumes "ref_nodes sha path nodes reps = Inr targets"
    and "resolve_ref sha get_blob s path nodes reps reachable = Inr best"
    and "stored = {r. n_path r = path \<and> (\<exists>node \<in> set targets. node_reachable reachable node \<and>
                     (\<exists>b. get_blob s node (blob_key path) = Inr (Some b) \<and> ref_from_bytes b = Inr r))}"
  shows "case best of None \<Rightarrow> stored = {} | Some r \<Rightarrow> r \<in> stored \<and> (\<forall>q \<in> stored. \<not> ref_less r q)"
proof -
  let ?b = "read_copies (\<lambda>node. get_blob s node (blob_key path)) reachable targets"
  have "rfold (better_ref path) ?b None = Inr best"
    using assms(1,2) by (simp add: resolve_ref_def read_all_def)
  moreover have "stored = valid_refs path ?b"
    unfolding assms(3) valid_refs_def set_read_copies by auto
  ultimately show ?thesis
    using resolve_fold [of path ?b None] resolve_fold_None [of path ?b None] by (auto split: option.splits)
qed

theorem resolve_ref_newest_witness:
  "case Some \<lparr>n_path = ''/a'', n_root = ''r2'', n_version = 2, n_updated_at = ''t'', n_writer = ''w''\<rparr> of
     None \<Rightarrow> False
   | Some r \<Rightarrow> r \<in> {r. n_path r = ''/a'' \<and> (\<exists>node \<in> set [''m'', ''k'']. node_reachable None node \<and>
        (\<exists>b. (Inr (dget
            [(''m'', ref_to_bytes \<lparr>n_path = ''/a'', n_root = ''r1'', n_version = 1, n_updated_at = ''t'', n_writer = ''w''\<rparr>),
             (''k'', ref_to_bytes \<lparr>n_path = ''/a'', n_root = ''r2'', n_version = 2, n_updated_at = ''t'', n_writer = ''w''\<rparr>)]
            node) :: bytes option result) = Inr (Some b) \<and> ref_from_bytes b = Inr r))}"
proof -
  let ?s = "[(''m'', ref_to_bytes \<lparr>n_path = ''/a'', n_root = ''r1'', n_version = 1, n_updated_at = ''t'', n_writer = ''w''\<rparr>),
             (''k'', ref_to_bytes \<lparr>n_path = ''/a'', n_root = ''r2'', n_version = 2, n_updated_at = ''t'', n_writer = ''w''\<rparr>)]"
  have t: "ref_nodes (\<lambda>b. b) ''/a'' [''k'', ''m''] 2 = Inr [''m'', ''k'']"
    by (simp add: ref_nodes_def ranked_def rv_weight_def utf8_def utf8_char_def py_take_def)
  then have "resolve_ref (\<lambda>b. b) (\<lambda>s node _. Inr (dget s node)) ?s ''/a'' [''k'', ''m''] 2 None
      = Inr (Some \<lparr>n_path = ''/a'', n_root = ''r2'', n_version = 2, n_updated_at = ''t'', n_writer = ''w''\<rparr>)"
    by (simp add: resolve_ref_def read_all_def node_reachable_def better_ref_def ref_less_def)
  from resolve_ref_newest [OF t this refl] show ?thesis by simp
qed

end
