(* ===== verification/Mesh_Sync.thy ===== *)
theory Mesh_Sync
  imports Mesh_Namespace
begin

text \<open>
  \<open>automation/mesh_sync.py\<close> and \<open>automation/continuity.py\<close>: the file service on the mesh. A
  store object is a record of its four operations over a state; a clock reading and a fresh id are
  arguments where the code takes them. The directory index is a set of paths, kept as a list
  without repetitions. An index blob with entries that are neither strings nor unhashable is not
  represented (\<open>OtherError\<close>).
\<close>

section \<open>The file service\<close>

record 's mesh_ops =
  op_put :: "'s \<Rightarrow> string \<Rightarrow> string \<Rightarrow> bytes \<Rightarrow> 's result"
  op_get :: "'s \<Rightarrow> string \<Rightarrow> string \<Rightarrow> bytes option result"
  op_put_blob :: "'s \<Rightarrow> string \<Rightarrow> string \<Rightarrow> bytes \<Rightarrow> 's result"
  op_get_blob :: "'s \<Rightarrow> string \<Rightarrow> string \<Rightarrow> bytes option result"

definition INDEX :: string where
  "INDEX = ''__index__''"

definition is_container :: "json \<Rightarrow> bool" where
  "is_container v \<longleftrightarrow> (case v of JList _ \<Rightarrow> True | JObj _ \<Rightarrow> True | _ \<Rightarrow> False)"

text \<open>\<open>set(json.loads(b))\<close>; \<open>None\<close> stands for the two exceptions the caller skips over.\<close>

definition index_paths :: "bytes \<Rightarrow> string list option result" where
  "index_paths b =
     (case loads b of
        Inl e \<Rightarrow> if e = ValueError \<or> e = TypeError then Inr None else Inl e
      | Inr v \<Rightarrow>
          (case v of
             JList vs \<Rightarrow>
               if \<exists>x \<in> set vs. is_container x then Inr None
               else rbind (rmap jstr vs) (\<lambda>ps. Inr (Some ps))
           | JStr s \<Rightarrow> Inr (Some (map (\<lambda>c. [c]) s))
           | JObj d \<Rightarrow> Inr (Some (dkeys d))
           | _ \<Rightarrow> Inr None))"

definition index_merge :: "bytes \<Rightarrow> string list \<Rightarrow> string list result" where
  "index_merge b paths =
     rbind (index_paths b) (\<lambda>ps. Inr (case ps of None \<Rightarrow> paths | Some qs \<Rightarrow> List.union qs paths))"

definition index_read ::
    "(bytes \<Rightarrow> bytes) \<Rightarrow> 's mesh_ops \<Rightarrow> 's \<Rightarrow> string list \<Rightarrow> int \<Rightarrow> string set option \<Rightarrow> string list result" where
  "index_read sha ops s nodes reps reachable =
     rbind (read_all sha (op_get_blob ops) s INDEX nodes reps reachable) (\<lambda>blobs.
       rfold index_merge blobs [])"

definition index_bytes :: "string list \<Rightarrow> bytes" where
  "index_bytes paths = dump_bytes (JList (map JStr (sort paths)))"

definition index_add ::
    "(bytes \<Rightarrow> bytes) \<Rightarrow> 's mesh_ops \<Rightarrow> 's \<Rightarrow> string list \<Rightarrow> string \<Rightarrow> int \<Rightarrow> 's result" where
  "index_add sha ops s nodes path reps =
     rbind (index_read sha ops s nodes reps None) (\<lambda>paths.
     rbind (publish_blob sha (op_put_blob ops) s INDEX (index_bytes (List.insert path paths)) nodes reps) (\<lambda>(_, s').
       Inr s'))"

definition put_file ::
    "(bytes \<Rightarrow> bytes) \<Rightarrow> 's mesh_ops \<Rightarrow> Placement result \<Rightarrow> string \<Rightarrow> 's \<Rightarrow> string list \<Rightarrow> string \<Rightarrow> bytes \<Rightarrow>
     string \<Rightarrow> Placement option \<Rightarrow> int \<Rightarrow> (NamespaceRef \<times> 's) result" where
  "put_file sha ops runtime now s nodes path data writer placement reps =
     rbind (propagate sha (op_put ops) runtime s data nodes placement ''runtime'') (\<lambda>(m, s1).
     rbind (publish_manifest sha (op_put_blob ops) s1 m nodes reps) (\<lambda>(_, s2).
     rbind (resolve_ref sha (op_get_blob ops) s2 path nodes reps None) (\<lambda>cur.
     let version = (case cur of Some r \<Rightarrow> n_version r + 1 | None \<Rightarrow> 1);
         ref = \<lparr>n_path = path, n_root = m_root m, n_version = version, n_updated_at = now, n_writer = writer\<rparr> in
     rbind (publish_ref sha (op_put_blob ops) s2 ref nodes reps) (\<lambda>(_, s3).
     rbind (index_add sha ops s3 nodes path reps) (\<lambda>s4.
       Inr (ref, s4))))))"

definition get_file ::
    "(bytes \<Rightarrow> bytes) \<Rightarrow> 's mesh_ops \<Rightarrow> 's \<Rightarrow> string list \<Rightarrow> string \<Rightarrow> int \<Rightarrow> string set option \<Rightarrow>
     (bytes \<times> NamespaceRef) result" where
  "get_file sha ops s nodes path reps reachable =
     rbind (resolve_ref sha (op_get_blob ops) s path nodes reps reachable) (\<lambda>ref.
       case ref of
         None \<Rightarrow> Inl FileNotFound
       | Some r \<Rightarrow>
           rbind (resolve_manifest sha (op_get_blob ops) s (n_root r) nodes reps reachable) (\<lambda>m.
           rbind (fetch sha (op_get ops) s m reachable 500) (\<lambda>b. Inr (b, r))))"

definition list_files ::
    "(bytes \<Rightarrow> bytes) \<Rightarrow> 's mesh_ops \<Rightarrow> 's \<Rightarrow> string list \<Rightarrow> int \<Rightarrow> string set option \<Rightarrow> string list result" where
  "list_files sha ops s nodes reps reachable =
     rbind (index_read sha ops s nodes reps reachable) (\<lambda>paths. Inr (sort paths))"

text \<open>
  The local directory: its files by relative path, in the order of \<open>sorted(rglob)\<close>. A backslash
  in a relative path becomes a slash.
\<close>

definition logical_path :: "string \<Rightarrow> string" where
  "logical_path rel = ''/'' @ map (\<lambda>c. if of_char c = (92 :: nat) then CHR ''/'' else c) rel"

definition push_dir ::
    "(bytes \<Rightarrow> bytes) \<Rightarrow> 's mesh_ops \<Rightarrow> Placement result \<Rightarrow> string \<Rightarrow> 's \<Rightarrow> string list \<Rightarrow> (string \<times> bytes) list \<Rightarrow>
     string \<Rightarrow> Placement option \<Rightarrow> int \<Rightarrow> (string list \<times> 's) result" where
  "push_dir sha ops runtime now s nodes local writer placement reps =
     rfold (\<lambda>(rel, data) (pushed, s).
        rbind (put_file sha ops runtime now s nodes (logical_path rel) data writer placement reps) (\<lambda>(_, s').
          Inr (pushed @ [logical_path rel], s'))) local ([], s)"

definition lstrip_slash :: "string \<Rightarrow> string" where
  "lstrip_slash path = dropWhile (\<lambda>c. c = CHR ''/'') path"

definition pull_dir ::
    "(bytes \<Rightarrow> bytes) \<Rightarrow> 's mesh_ops \<Rightarrow> 's \<Rightarrow> string list \<Rightarrow> int \<Rightarrow> string set option \<Rightarrow> (string, bytes) dict \<Rightarrow>
     (string list \<times> (string, bytes) dict) result" where
  "pull_dir sha ops s nodes reps reachable local =
     rbind (list_files sha ops s nodes reps reachable) (\<lambda>paths.
       rfold (\<lambda>path (pulled, local).
          case get_file sha ops s nodes path reps reachable of
            Inl FileNotFound \<Rightarrow> Inr (pulled, local)
          | Inl e \<Rightarrow> Inl e
          | Inr (data, _) \<Rightarrow> Inr (pulled @ [path], dset local (lstrip_slash path) data)) paths ([], local))"

section \<open>Continuity\<close>

definition CLIPBOARD :: string where
  "CLIPBOARD = ''/continuity/clipboard''"

definition inbox_prefix :: "string \<Rightarrow> string" where
  "inbox_prefix device = ''/continuity/inbox/'' @ device @ ''/''"

definition handoff_path :: "string \<Rightarrow> string" where
  "handoff_path activity = ''/continuity/handoff/'' @ activity"

definition clipboard_set ::
    "(bytes \<Rightarrow> bytes) \<Rightarrow> 's mesh_ops \<Rightarrow> Placement result \<Rightarrow> string \<Rightarrow> 's \<Rightarrow> string list \<Rightarrow> bytes \<Rightarrow> string \<Rightarrow>
     Placement option \<Rightarrow> 's result" where
  "clipboard_set sha ops runtime now s nodes data writer placement =
     rbind (put_file sha ops runtime now s nodes CLIPBOARD data writer placement 5) (\<lambda>(_, s'). Inr s')"

definition clipboard_get ::
    "(bytes \<Rightarrow> bytes) \<Rightarrow> 's mesh_ops \<Rightarrow> 's \<Rightarrow> string list \<Rightarrow> string set option \<Rightarrow> bytes option result" where
  "clipboard_get sha ops s nodes reachable =
     (case get_file sha ops s nodes CLIPBOARD 5 reachable of
        Inr (data, _) \<Rightarrow> Inr (Some data)
      | Inl e \<Rightarrow> if e = FileNotFound then Inr None else Inl e)"

definition beam ::
    "(bytes \<Rightarrow> bytes) \<Rightarrow> 's mesh_ops \<Rightarrow> Placement result \<Rightarrow> string \<Rightarrow> string \<Rightarrow> 's \<Rightarrow> string list \<Rightarrow> string \<Rightarrow> bytes \<Rightarrow>
     string \<Rightarrow> Placement option \<Rightarrow> (string \<times> 's) result" where
  "beam sha ops runtime now uuid s nodes to_device data writer placement =
     (let path = inbox_prefix to_device @ uuid in
      rbind (put_file sha ops runtime now s nodes path data writer placement 5) (\<lambda>(_, s'). Inr (path, s')))"

definition inbox ::
    "(bytes \<Rightarrow> bytes) \<Rightarrow> 's mesh_ops \<Rightarrow> 's \<Rightarrow> string list \<Rightarrow> string \<Rightarrow> string set option \<Rightarrow> (string \<times> bytes) list result" where
  "inbox sha ops s nodes device reachable =
     rbind (list_files sha ops s nodes 5 reachable) (\<lambda>paths.
       rfold (\<lambda>path out.
          if startswith path (inbox_prefix device)
          then rbind (get_file sha ops s nodes path 5 reachable) (\<lambda>(data, _). Inr (out @ [(path, data)]))
          else Inr out) paths [])"

definition handoff_set ::
    "(bytes \<Rightarrow> bytes) \<Rightarrow> 's mesh_ops \<Rightarrow> Placement result \<Rightarrow> string \<Rightarrow> 's \<Rightarrow> string list \<Rightarrow> string \<Rightarrow> bytes \<Rightarrow>
     string \<Rightarrow> Placement option \<Rightarrow> (NamespaceRef \<times> 's) result" where
  "handoff_set sha ops runtime now s nodes activity state device placement =
     put_file sha ops runtime now s nodes (handoff_path activity) state device placement 5"

definition handoff_get ::
    "(bytes \<Rightarrow> bytes) \<Rightarrow> 's mesh_ops \<Rightarrow> 's \<Rightarrow> string list \<Rightarrow> string \<Rightarrow> string set option \<Rightarrow>
     (bytes \<times> string \<times> int) option result" where
  "handoff_get sha ops s nodes activity reachable =
     (case get_file sha ops s nodes (handoff_path activity) 5 reachable of
        Inr (data, ref) \<Rightarrow> Inr (Some (data, n_writer ref, n_version ref))
      | Inl e \<Rightarrow> if e = FileNotFound then Inr None else Inl e)"

section \<open>Reading back what was written\<close>

text \<open>Slots separate a set of keys when no two of them share a slot on any of the nodes.\<close>

definition separate :: "(string \<Rightarrow> string \<Rightarrow> 'a) \<Rightarrow> string list \<Rightarrow> string set \<Rightarrow> bool" where
  "separate slot nodes keys \<longleftrightarrow>
     (\<forall>n \<in> set nodes. \<forall>n' \<in> set nodes. \<forall>k \<in> keys. \<forall>k' \<in> keys. slot n k = slot n' k' \<longrightarrow> k = k')"

lemma ref_nodes_sub: "ref_nodes sha name nodes reps = Inr targets \<Longrightarrow> set targets \<subseteq> set nodes"
  using set_take_subset set_ranked by (metis ref_nodes_def py_take_def Inl_Inr_False Inr_inject order_trans subset_refl)

lemma read_copies_cong:
  "(\<And>n. n \<in> set ns \<Longrightarrow> read n = read' n) \<Longrightarrow> read_copies read reachable ns = read_copies read' reachable ns"
  by (induction ns) (simp_all cong: sum.case_cong option.case_cong)

lemma read_all_cong:
  assumes "\<And>n. n \<in> set nodes \<Longrightarrow> get_blob s n (blob_key name) = get_blob s' n (blob_key name)"
  shows "read_all sha get_blob s name nodes reps reachable = read_all sha get_blob s' name nodes reps reachable"
proof (cases "ref_nodes sha name nodes reps")
  case (Inr targets)
  have "read_copies (\<lambda>n. get_blob s n (blob_key name)) reachable targets
      = read_copies (\<lambda>n. get_blob s' n (blob_key name)) reachable targets"
    by (rule read_copies_cong) (use assms ref_nodes_sub [OF Inr] in blast)
  then show ?thesis by (simp add: read_all_def Inr)
qed (simp add: read_all_def)

text \<open>The index: what is written is read back, and reading never yields a path twice.\<close>

lemma rmap_jstr_JStr [simp]: "rmap jstr (map JStr ps) = Inr ps"
  by (induction ps) simp_all

lemma index_paths_bytes [simp]: "index_paths (index_bytes paths) = Inr (Some (sort paths))"
  by (auto simp: index_paths_def index_bytes_def is_container_def)

lemma index_merge_bytes [simp]: "index_merge (index_bytes paths) ps = Inr (List.union (sort paths) ps)"
  by (simp add: index_merge_def)

lemma index_merge_distinct: "index_merge b ps = Inr qs \<Longrightarrow> distinct ps \<Longrightarrow> distinct qs"
  by (auto simp: index_merge_def rbind_eq_Inr split: option.splits)

lemma index_fold_distinct: "rfold index_merge blobs ps = Inr qs \<Longrightarrow> distinct ps \<Longrightarrow> distinct qs"
proof (induction blobs arbitrary: ps)
  case (Cons b blobs)
  then obtain rs where "index_merge b ps = Inr rs" "rfold index_merge blobs rs = Inr qs" by (auto simp: rbind_eq_Inr)
  with Cons.IH Cons.prems(2) index_merge_distinct show ?case by blast
qed simp

lemma index_read_distinct: "index_read sha ops s nodes reps reachable = Inr paths \<Longrightarrow> distinct paths"
  by (auto simp: index_read_def rbind_eq_Inr dest: index_fold_distinct)

lemma index_union_same:
  "set blobs \<subseteq> {index_bytes paths} \<Longrightarrow>
     \<exists>qs. rfold index_merge blobs ps = Inr qs \<and> set qs = set ps \<union> (if blobs = [] then {} else set paths)"
proof (induction blobs arbitrary: ps)
  case (Cons b blobs)
  have b: "b = index_bytes paths" "set blobs \<subseteq> {index_bytes paths}" using Cons.prems by auto
  from Cons.IH [OF b(2), of "List.union (sort paths) ps"] show ?case by (auto simp: b(1) split: if_splits)
qed simp

lemma blob_keys_distinct: "manifest_key rt \<noteq> blob_key p" "blob_key p = blob_key q \<longleftrightarrow> p = q"
  by (simp_all add: manifest_key_def blob_key_def)

context mesh_store
begin

definition ops_rec :: "'s mesh_ops" where
  "ops_rec = \<lparr>op_put = put, op_get = get, op_put_blob = put_blob, op_get_blob = get_blob\<rparr>"

lemma ops_rec_simps [simp]:
  "op_put ops_rec = put" "op_get ops_rec = get" "op_put_blob ops_rec = put_blob" "op_get_blob ops_rec = get_blob"
  by (simp_all add: ops_rec_def)

lemma blob_written:
  assumes "publish_blob sha put_blob s name blob nodes reps = Inr (targets, s')"
  shows "node \<in> set targets \<Longrightarrow> get_blob s' node (blob_key name) = Inr (Some blob)"
    and "get s' n f = get s n f"
    and "separate bslot nodes K \<Longrightarrow> blob_key name \<in> K \<Longrightarrow> k \<in> K \<Longrightarrow> k \<noteq> blob_key name \<Longrightarrow> n \<in> set nodes \<Longrightarrow>
         get_blob s' n k = get_blob s n k"
proof -
  note P = publish_blob_Inr [OF assms]
  show "node \<in> set targets \<Longrightarrow> get_blob s' node (blob_key name) = Inr (Some blob)"
    using published_blob [OF P(2)] .
  show "get s' n f = get s n f" by (rule get_put_blob_seq [OF P(2)])
  show "get_blob s' n k = get_blob s n k"
    if "separate bslot nodes K" "blob_key name \<in> K" "k \<in> K" "k \<noteq> blob_key name" "n \<in> set nodes"
    by (rule unpublished_blob [OF P(2)]) (use that P(3) in \<open>auto simp: separate_def\<close>)
qed

lemma put_file_Inr:
  assumes "put_file sha ops_rec rt now s nodes path data writer (Some p) reps = Inr (ref, s4)"
  obtains m s1 ts1 s2 cur ts2 s3 ts3 paths where
    "propagate sha put rt s data nodes (Some p) ''runtime'' = Inr (m, s1)"
    "publish_manifest sha put_blob s1 m nodes reps = Inr (ts1, s2)"
    "resolve_ref sha get_blob s2 path nodes reps None = Inr cur"
    "ref = \<lparr>n_path = path, n_root = m_root m,
            n_version = (case cur of Some r \<Rightarrow> n_version r + 1 | None \<Rightarrow> 1), n_updated_at = now, n_writer = writer\<rparr>"
    "publish_blob sha put_blob s2 path (ref_to_bytes ref) nodes reps = Inr (ts2, s3)"
    "index_read sha ops_rec s3 nodes reps None = Inr paths"
    "publish_blob sha put_blob s3 INDEX (index_bytes (List.insert path paths)) nodes reps = Inr (ts3, s4)"
  using assms
  by (auto simp: put_file_def Let_def rbind_eq_Inr publish_ref_def index_add_def split: prod.splits)

lemma get_file_after_put:
  assumes w: "put_file sha ops_rec rt now s nodes path data writer (Some p) reps = Inr (ref, s')"
    and path: "path \<noteq> INDEX"
    and fsep: "separate fslot nodes (range (frag_key (merkle_root sha data)))"
    and bsep: "separate bslot nodes {manifest_key (merkle_root sha data), blob_key path, blob_key INDEX}"
    and R: "1 \<le> shard_replicas p" "0 \<le> rs_m p"
  shows "get_file sha ops_rec s' nodes path reps None = Inr (data, ref)"
proof -
  obtain m s1 ts1 s2 cur ts2 s3 ts3 paths where
    pr: "propagate sha put rt s data nodes (Some p) ''runtime'' = Inr (m, s1)" and
    pm: "publish_manifest sha put_blob s1 m nodes reps = Inr (ts1, s2)" and
    ref: "n_path ref = path" "n_root ref = m_root m" and
    pb: "publish_blob sha put_blob s2 path (ref_to_bytes ref) nodes reps = Inr (ts2, s3)" and
    ix: "publish_blob sha put_blob s3 INDEX (index_bytes (List.insert path paths)) nodes reps = Inr (ts3, s')"
    by (rule put_file_Inr [OF w]) auto
  obtain d where m: "manifest_of sha data d m" "m_k m = rs_k p" "m_n m = rs_n p"
    and pl: "place nodes (d_xs d) (shard_replicas p) = Inr (m_fragment_nodes m)"
    and wr: "put_seq put (fragment_writes (m_root m) d (m_fragment_nodes m)) s = Inr s1"
    using pr by (rule propagate_Inr)
  have rt: "m_root m = merkle_root sha data" and wf: "dwf (m_fragment_nodes m)"
    and dd: "disperse data (rs_k p) (rs_n p) None = Inr d"
    using m by (simp_all add: manifest_of_def)
  note D = disperse_Inr [OF dd]
  note F = place_facts [OF pl D(6)]
  let ?K = "{manifest_key (m_root m), blob_key path, blob_key INDEX}"
  have bsep': "separate bslot nodes ?K" using bsep rt by simp
  note PM = publish_manifest_Inr [OF pm]
  have ts1: "set ts1 \<subseteq> set nodes" "ts1 \<noteq> []"
  proof -
    have t: "ts1 = take (nat reps) (ranked sha (m_root m) nodes)" "1 \<le> reps" "reps \<le> int (length nodes)"
      using PM(1) by (auto simp: manifest_nodes_Inr)
    then show "set ts1 \<subseteq> set nodes" using set_take_subset set_ranked by metis
    have "nodes \<noteq> []" using t by auto
    then have "ranked sha (m_root m) nodes \<noteq> []" using set_ranked [of sha "m_root m" nodes] by force
    with t show "ts1 \<noteq> []" by auto
  qed
  note PB = publish_blob_Inr [OF pb]
  have gb: "get_blob s' node (manifest_key (m_root m)) = get_blob s2 node (manifest_key (m_root m))"
    if "node \<in> set nodes" for node
    using blob_written(3) [OF ix bsep', of "manifest_key (m_root m)" node]
      blob_written(3) [OF pb bsep', of "manifest_key (m_root m)" node] that blob_keys_distinct(1) by auto
  have "get_blob s' node (blob_key path) = Inr (Some (ref_to_bytes ref))" if "node \<in> set ts2" for node
    using blob_written(3) [OF ix bsep', of "blob_key path" node] blob_written(1) [OF pb that] that PB(3)
      path blob_keys_distinct(2) by auto
  then have r: "resolve_ref sha get_blob s' path nodes reps None = Inr (Some ref)"
    using resolve_published_ref [of sha ref nodes reps ts2 s' None] PB(1,4) ref(1)
    by (cases ts2) (auto simp: node_reachable_def)
  have rm: "resolve_manifest sha get_blob s' (m_root m) nodes reps None = Inr (canonical m)"
  proof (rule resolve_published [OF pm wf])
    show "\<exists>node \<in> set ts1. node_reachable None node \<and>
        get_blob s' node (manifest_key (m_root m)) = get_blob s2 node (manifest_key (m_root m))"
      using ts1 gb by (cases ts1) (auto simp: node_reachable_def)
  qed (use gb ts1 in auto)
  have gs: "get s' n f = get s1 n f" for n f
    using blob_written(2) [OF ix, of n f] blob_written(2) [OF pb, of n f] get_put_blob_seq [OF PM(2), of n f] by simp
  have copy: "get s' node (frag_key (m_root m) x) = Inr (Some (dgetdef (d_fragments d) x []))"
    if "(x, ns) \<in> set (m_fragment_nodes m)" "node \<in> set ns" for x ns node
    unfolding gs
  proof (rule propagated_copy [OF m(1) wr that])
    fix x y ns ms n n'
    assume "(x, ns) \<in> set (m_fragment_nodes m)" "(y, ms) \<in> set (m_fragment_nodes m)" "n \<in> set ns" "n' \<in> set ms"
      and eq: "fslot n (frag_key (m_root m) x) = fslot n' (frag_key (m_root m) y)"
    then have "n \<in> set nodes" "n' \<in> set nodes" using F(3) by blast+
    with fsep eq rt have "frag_key (m_root m) x = frag_key (m_root m) y" by (auto simp: separate_def)
    then show "x = y" by simp
  qed
  let ?c = "canonical m"
  have wfc: "dwf (m_fragment_nodes ?c)" using manifest_of_canonical [OF m(1)] by (simp add: manifest_of_def)
  have nonempty: "ns \<noteq> []" if "(x, ns) \<in> set (m_fragment_nodes m)" for x ns
    using place_nonempty [OF pl D(6) that R(1)] .
  have read: "first_copy (\<lambda>node. get s' node (frag_key (m_root ?c) x)) None ns = Some (dgetdef (d_fragments d) x [])"
    if "(x, ns) \<in> set (m_fragment_nodes ?c)" for x ns
    using that nonempty [of x ns] copy [of x ns] by (cases ns) (auto simp: node_reachable_def)
  have "fetch sha get s' ?c None 500 = Inr data"
  proof (rule fetch_honest [OF manifest_of_canonical [OF m(1)]])
    fix x b assume "dget (gather get s' ?c None) x = Some b"
    then obtain ns where ns: "dget (m_fragment_nodes ?c) x = Some ns" "b = dgetdef (d_fragments d) x []"
      using dget_gather [OF wfc, of get s' None x] read [OF dget_Some_in] by (auto split: option.splits)
    then have "x \<in> set (dkeys (m_fragment_nodes m))"
      using dget_Some_in [OF ns(1)] by (auto simp: dkeys_def intro: rev_image_eqI)
    then have "x \<in> set (d_xs d)" using F(1) by simp
    then show "(x, b) \<in> set (d_fragments d)" unfolding ns(2) D(8) by (auto simp: dgetdef_def dget_map_pairs)
  next
    have "length (gather get s' ?c None) = length (filter (\<lambda>sh. \<not> False) (m_fragment_nodes ?c))"
      by (rule gather_length [OF wfc]) (use read in auto)
    moreover have "length (m_fragment_nodes ?c) = length (d_xs d)"
      using arg_cong [OF F(1), of length] by (simp add: canonical_def dkeys_def)
    ultimately show "m_k ?c \<le> int (length (gather get s' ?c None))"
      using D(5) m(2) R(2) by (simp add: canonical_def rs_n_def)
  qed simp
  with r rm ref show ?thesis by (simp add: get_file_def)
qed

lemma publish_blob_ok:
  assumes "1 \<le> reps" "reps \<le> int (length nodes)" "\<forall>n \<in> set nodes. accepts s n"
  shows "\<exists>targets s'. publish_blob sha put_blob s name blob nodes reps = Inr (targets, s')"
proof -
  obtain targets where t: "ref_nodes sha name nodes reps = Inr targets" using assms(1,2) by (simp add: ref_nodes_def)
  have "\<exists>s'. put_seq put_blob (map (\<lambda>node. (node, blob_key name, blob)) targets) s = Inr s'"
    by (rule blobs.put_seq_ok) (use assms(3) ref_nodes_sub [OF t] in auto)
  with t show ?thesis by (auto simp: publish_blob_def)
qed

lemma publish_manifest_ok:
  assumes "1 \<le> reps" "reps \<le> int (length nodes)" "\<forall>n \<in> set nodes. accepts s n"
  shows "\<exists>targets s'. publish_manifest sha put_blob s m nodes reps = Inr (targets, s')"
proof -
  obtain targets where t: "manifest_nodes sha (m_root m) nodes reps = Inr targets" "set targets \<subseteq> set nodes"
    using assms(1,2) set_take_subset [of "nat reps" "ranked sha (m_root m) nodes"]
    by (auto simp: manifest_nodes_def py_take_def set_ranked)
  have "\<exists>s'. put_seq put_blob (map (\<lambda>node. (node, manifest_key (m_root m), serialize m)) targets) s = Inr s'"
    by (rule blobs.put_seq_ok) (use assms(3) t(2) in auto)
  with t show ?thesis by (auto simp: publish_manifest_def Let_def)
qed

lemma names_unchanged_by_content:
  assumes "propagate sha put rt s data nodes (Some p) ''runtime'' = Inr (m, s1)"
    and "publish_manifest sha put_blob s1 m nodes reps = Inr (ts, s2)"
    and "separate bslot nodes (insert (blob_key name) (insert (manifest_key (m_root m)) K))" "n \<in> set nodes"
  shows "get_blob s2 n (blob_key name) = get_blob s n (blob_key name)"
proof -
  obtain d where "put_seq put (fragment_writes (m_root m) d (m_fragment_nodes m)) s = Inr s1"
    using assms(1) by (rule propagate_Inr)
  then have "get_blob s1 n (blob_key name) = get_blob s n (blob_key name)" by (rule get_blob_put_seq)
  moreover have "get_blob s2 n (blob_key name) = get_blob s1 n (blob_key name)"
  proof (rule unpublished_blob [OF publish_manifest_Inr(2) [OF assms(2)]])
    fix t assume "t \<in> set ts"
    then have "t \<in> set nodes"
      using publish_manifest_Inr(1) [OF assms(2)] set_take_subset [of "nat reps" "ranked sha (m_root m) nodes"]
      by (auto simp: manifest_nodes_Inr set_ranked)
    then show "bslot n (blob_key name) \<noteq> bslot t (manifest_key (m_root m))"
      using assms(3,4) blob_keys_distinct(1) [of "m_root m" name] by (auto simp: separate_def)
  qed
  ultimately show ?thesis by simp
qed

lemma put_file_ok:
  assumes p: "1 \<le> rs_k p" "0 \<le> rs_m p" "1 \<le> shard_replicas p" "rs_n p \<le> 255"
      "rs_n p * shard_replicas p \<le> int (length nodes)"
    and acc: "\<forall>n \<in> set nodes. accepts s n" and reps: "1 \<le> reps" "reps \<le> int (length nodes)"
    and path: "path \<noteq> INDEX"
    and sep: "separate bslot nodes {manifest_key (merkle_root sha data), blob_key path, blob_key INDEX}"
    and cur: "resolve_ref sha get_blob s path nodes reps None = Inr cur"
    and ix: "index_read sha ops_rec s nodes reps None = Inr paths"
  shows "\<exists>ref s'. put_file sha ops_rec rt now s nodes path data writer (Some p) reps = Inr (ref, s') \<and>
           n_version ref = (case cur of Some r \<Rightarrow> n_version r + 1 | None \<Rightarrow> 1) \<and> n_writer ref = writer \<and>
           list_files sha ops_rec s' nodes reps None = Inr (sort (List.insert path paths))"
proof -
  obtain m s1 where pr: "propagate sha put rt s data nodes (Some p) ''runtime'' = Inr (m, s1)"
    using propagate_ok [OF p acc] by blast
  obtain d where rt: "m_root m = merkle_root sha data"
    and ps: "put_seq put (fragment_writes (m_root m) d (m_fragment_nodes m)) s = Inr s1"
    using pr by (rule propagate_Inr) (auto simp: manifest_of_def)
  have a1: "\<forall>n \<in> set nodes. accepts s1 n" using acc accepts_put_seq [OF ps] by simp
  obtain ts s2 where pm: "publish_manifest sha put_blob s1 m nodes reps = Inr (ts, s2)"
    using publish_manifest_ok [OF reps a1] by blast
  have a2: "\<forall>n \<in> set nodes. accepts s2 n" using a1 blobs.accepts_put_seq [OF publish_manifest_Inr(2) [OF pm]] by simp
  have seps: "separate bslot nodes (insert (blob_key path) (insert (manifest_key (m_root m)) {blob_key INDEX}))"
    "separate bslot nodes (insert (blob_key INDEX) (insert (manifest_key (m_root m)) {blob_key path}))"
    using sep rt by (simp_all add: insert_commute)
  note keep = names_unchanged_by_content [OF pr pm]
  have cur2: "resolve_ref sha get_blob s2 path nodes reps None = Inr cur"
    using cur read_all_cong [of nodes get_blob s2 path s, OF keep [OF seps(1)]] by (simp add: resolve_ref_def)
  define ref where "ref = \<lparr>n_path = path, n_root = m_root m,
    n_version = (case cur of Some r \<Rightarrow> n_version r + 1 | None \<Rightarrow> 1), n_updated_at = now, n_writer = writer\<rparr>"
  obtain ts2 s3 where pb: "publish_blob sha put_blob s2 path (ref_to_bytes ref) nodes reps = Inr (ts2, s3)"
    using publish_blob_ok [OF reps a2] by blast
  have a3: "\<forall>n \<in> set nodes. accepts s3 n" using a2 blobs.accepts_put_seq [OF publish_blob_Inr(2) [OF pb]] by simp
  have "get_blob s3 n (blob_key INDEX) = get_blob s n (blob_key INDEX)" if "n \<in> set nodes" for n
    using blob_written(3) [OF pb sep, of "blob_key INDEX" n] keep [OF seps(2) that] that path blob_keys_distinct(2) by auto
  then have ix3: "index_read sha ops_rec s3 nodes reps None = Inr paths"
    using ix read_all_cong [of nodes get_blob s3 INDEX s] by (simp add: index_read_def)
  obtain ts3 s4 where px: "publish_blob sha put_blob s3 INDEX (index_bytes (List.insert path paths)) nodes reps = Inr (ts3, s4)"
    using publish_blob_ok [OF reps a3] by blast
  have w: "put_file sha ops_rec rt now s nodes path data writer (Some p) reps = Inr (ref, s4)"
    by (simp add: put_file_def pr pm cur2 Let_def publish_ref_def index_add_def ref_def [symmetric] pb ix3 px)
  let ?b = "read_copies (\<lambda>n. get_blob s4 n (blob_key INDEX)) None ts3"
  have b: "set ?b \<subseteq> {index_bytes (List.insert path paths)} \<and> (?b = [] \<longleftrightarrow> (\<forall>n \<in> set ts3. \<not> node_reachable None n))"
    by (rule read_copies_all) (rule blob_written(1) [OF px])
  then have "?b \<noteq> []" using publish_blob_Inr(4) [OF px] by (cases ts3) (auto simp: node_reachable_def)
  with b obtain qs where qs: "index_read sha ops_rec s4 nodes reps None = Inr qs" "set qs = insert path (set paths)"
    using index_union_same [of ?b "List.insert path paths" "[]"]
    by (auto simp: index_read_def read_all_def publish_blob_Inr(1) [OF px])
  have "sort qs = sort (List.insert path paths)"
    using index_read_distinct [OF qs(1)] index_read_distinct [OF ix] qs(2)
    by (intro sorted_distinct_set_unique) auto
  with w qs(1) show ?thesis by (auto simp: list_files_def ref_def)
qed

end

section \<open>Properties\<close>

definition http_ops :: "(string, string) dict \<Rightarrow> network mesh_ops" where
  "http_ops urls = \<lparr>op_put = http_put urls, op_get = http_get urls,
                    op_put_blob = http_put_blob urls, op_get_blob = http_get_blob urls\<rparr>"

lemma http_ops_rec: "http_ops urls = http.ops_rec urls"
  by (simp add: http_ops_def http.ops_rec_def)

lemma http_separate: "separate (http_slot urls) nodes K"
  by (auto simp: separate_def http_slot_def)

text \<open>
  The drive over HTTP. If every node of the mesh is up, the placement is valid and fits the
  mesh, and the current pointer and index can be read, \<open>put_file\<close> succeeds. Its version is one
  more than the current one (1 for a new path), \<open>get_file\<close> on any device then returns exactly the
  bytes and the new pointer, and the listing is the old one with the path added. The path must not
  be the name of the index.
\<close>

theorem http_put_get_file:
  assumes "safe_placement p" "rs_n p \<le> 255" "rs_n p * shard_replicas p \<le> int (length nodes)"
    and "\<forall>n \<in> set nodes. http_accepts urls net n" "1 \<le> reps" "reps \<le> int (length nodes)"
    and "path \<noteq> INDEX"
    and "resolve_ref sha (http_get_blob urls) net path nodes reps None = Inr cur"
    and "index_read sha (http_ops urls) net nodes reps None = Inr paths"
  shows "\<exists>ref net'.
     put_file sha (http_ops urls) runtime now net nodes path data writer (Some p) reps = Inr (ref, net') \<and>
     n_version ref = (case cur of Some r \<Rightarrow> n_version r + 1 | None \<Rightarrow> 1) \<and>
     get_file sha (http_ops urls) net' nodes path reps None = Inr (data, ref) \<and>
     list_files sha (http_ops urls) net' nodes reps None = Inr (sort (List.insert path paths))"
proof -
  have p: "1 \<le> rs_k p" "0 \<le> rs_m p" "1 \<le> shard_replicas p" using assms(1) by (simp_all add: safe_placement_def)
  note ok = http.put_file_ok [OF p assms(2-7) http_separate assms(8) assms(9) [unfolded http_ops_rec],
      of runtime now data writer]
  then obtain ref net' where w: "put_file sha (http.ops_rec urls) runtime now net nodes path data writer (Some p) reps = Inr (ref, net')"
      "n_version ref = (case cur of Some r \<Rightarrow> n_version r + 1 | None \<Rightarrow> 1)"
      "list_files sha (http.ops_rec urls) net' nodes reps None = Inr (sort (List.insert path paths))"
    by blast
  moreover have "get_file sha (http.ops_rec urls) net' nodes path reps None = Inr (data, ref)"
    by (rule http.get_file_after_put [OF w(1) assms(7) http_separate http_separate p(3,2)])
  ultimately show ?thesis unfolding http_ops_rec by blast
qed

theorem http_put_get_file_witness:
  "\<exists>ref net'.
     put_file (\<lambda>b. b) (http_ops [(''a'', ''u1''), (''b'', ''u2'')]) (Inl OtherError) ''t'' [(''u1'', []), (''u2'', [])]
       [''a'', ''b''] ''/x'' [0x48, 0x69] ''dev''
       (Some \<lparr>replicas = 1, rs_k = 1, rs_m = 1, encrypted_at_rest = True, shard_replicas = 1\<rparr>) 2 = Inr (ref, net') \<and>
     n_version ref = 1 \<and>
     get_file (\<lambda>b. b) (http_ops [(''a'', ''u1''), (''b'', ''u2'')]) net' [''a'', ''b''] ''/x'' 2 None = Inr ([0x48, 0x69], ref) \<and>
     list_files (\<lambda>b. b) (http_ops [(''a'', ''u1''), (''b'', ''u2'')]) net' [''a'', ''b''] 2 None = Inr [''/x'']"
proof -
  let ?u = "[(''a'', ''u1''), (''b'', ''u2'')]" and ?n = "[(''u1'', []), (''u2'', [])] :: network"
  have none: "http_get_blob ?u ?n node key = Inr None" for node key
    by (simp add: http_get_blob_def url_get_def node_get_def dget_def)
  have none': "read_copies (\<lambda>n. http_get_blob ?u ?n n key) None ns = []" for key ns
    by (induction ns) (simp_all add: none)
  have r: "ref_nodes (\<lambda>b. b) name [''a'', ''b''] 2 = Inr (py_take 2 (ranked (\<lambda>b. b) name [''a'', ''b'']))" for name
    by (simp add: ref_nodes_def)
  have "resolve_ref (\<lambda>b. b) (http_get_blob ?u) ?n ''/x'' [''a'', ''b''] 2 None = Inr None"
    "index_read (\<lambda>b. b) (http_ops ?u) ?n [''a'', ''b''] 2 None = Inr []"
    by (simp_all add: resolve_ref_def index_read_def read_all_def r none' http_ops_def)
  from http_put_get_file [OF _ _ _ _ _ _ _ this,
      of "\<lparr>replicas = 1, rs_k = 1, rs_m = 1, encrypted_at_rest = True, shard_replicas = 1\<rparr>"
         "Inl OtherError" "''t''" "[0x48, 0x69]" "''dev''"]
  show ?thesis by (simp add: safe_placement_def rs_n_def http_accepts_def dget_def INDEX_def)
qed

end
