(* ===== verification/Mesh_Threat.thy ===== *)
theory Mesh_Threat
  imports Storage_Placement "HOL-Library.Product_Lexorder"
begin

text \<open>
  \<open>automation/mesh_threat.py\<close>: the mesh-wide threat signal resolved from per-vantage reports,
  the threat level with its slow way down, the economic choice of a tier and the control step.
  Fractions are exact rationals, thresholds are Python floats. The lines of a \<open>reasons\<close> tuple are
  values of a datatype with one constructor per message and the interpolated values as arguments.
\<close>

section \<open>The code\<close>

definition LEVELS :: "string list" where
  "LEVELS = [''calm'', ''elevated'', ''hostile'']"

definition level_rank :: "string \<Rightarrow> nat result" where
  "level_rank level =
     (if level = ''calm'' then Inr 0 else if level = ''elevated'' then Inr 1
      else if level = ''hostile'' then Inr 2 else Inl ValueError)"

record VantageReport =
  vr_vantage :: string
  vr_unreachable_fraction :: rat
  vr_anomalies_seen :: int
  vr_partition_suspected :: bool

record ThreatSignals =
  sig_unreachable_fraction :: rat
  sig_anomalies :: int
  sig_partition :: bool
  sig_vantages :: nat

text \<open>\<open>statistics.median\<close>.\<close>

definition median :: "rat list \<Rightarrow> rat result" where
  "median xs =
     (let ds = sort xs; n = length ds in
      if n = 0 then Inl ValueError
      else if n mod 2 = 1 then Inr (ds ! (n div 2))
      else Inr ((ds ! (n div 2 - 1) + ds ! (n div 2)) / 2))"

definition blind :: ThreatSignals where
  "blind = \<lparr>sig_unreachable_fraction = 1, sig_anomalies = 10 ^ 9, sig_partition = True, sig_vantages = 0\<rparr>"

definition aggregate_vantages :: "VantageReport list \<Rightarrow> int \<Rightarrow> ThreatSignals result" where
  "aggregate_vantages reports quorum =
     (if int (length reports) < quorum \<or> reports = [] then Inr blind
      else
        rbind (median (map vr_unreachable_fraction reports)) (\<lambda>unreachable.
        rbind (median (map (\<lambda>r. of_int (vr_anomalies_seen r)) reports)) (\<lambda>anomalies.
          Inr \<lparr>sig_unreachable_fraction = unreachable, sig_anomalies = trunc_rat anomalies,
               sig_partition = (length reports < 2 * length (filter vr_partition_suspected reports)),
               sig_vantages = length reports\<rparr>)))"

record ThreatPolicy =
  tier_by_level :: "(string, pyval) dict"
  elevated_min_unreachable :: pyfloat
  elevated_min_anomalies :: int
  hostile_min_unreachable :: pyfloat
  hostile_min_anomalies :: int
  deescalate_dwell :: int

text \<open>
  \<open>set(tier_by_level) != set(LEVELS)\<close> and \<open>dict(tier_by_level)\<close>: only a mapping passes, since no
  level name is a key/value pair.
\<close>

definition policy_tiers :: "pyval \<Rightarrow> (string, pyval) dict result" where
  "policy_tiers v =
     (case v of
        VDict d \<Rightarrow> if set (dkeys d) = set LEVELS then Inr d else Inl ValueError
      | VList vs \<Rightarrow> if \<exists>x \<in> set vs. is_dict x \<or> is_list x then Inl TypeError else Inl ValueError
      | VStr _ \<Rightarrow> Inl ValueError
      | _ \<Rightarrow> Inl TypeError)"

definition escalate_key :: "pyval \<Rightarrow> string \<Rightarrow> string \<Rightarrow> pyval \<Rightarrow> pyval result" where
  "escalate_key esc level key dflt =
     rbind (vget esc level VNone) (\<lambda>v. vget (v_or v (VDict [])) key dflt)"

definition load_threat_policy :: "pyval result \<Rightarrow> ThreatPolicy result" where
  "load_threat_policy reg =
     rbind (registry_data reg) (\<lambda>doc.
     rbind (vget doc ''threat_policy'' VNone) (\<lambda>tp.
     let data = v_or tp (VDict []) in
     rbind (vget data ''tier_by_level'' VNone) (\<lambda>tbl.
     rbind (policy_tiers (v_or tbl (VDict []))) (\<lambda>tiers.
     rbind (vget data ''escalate_if'' VNone) (\<lambda>e.
     let esc = v_or e (VDict []) in
     rbind (rbind (escalate_key esc ''elevated'' ''min_unreachable'' (VFloat (Fin (1 / 10)))) v_float) (\<lambda>eu.
     rbind (rbind (escalate_key esc ''elevated'' ''min_anomalies'' (VInt 1)) v_int) (\<lambda>ea.
     rbind (rbind (escalate_key esc ''hostile'' ''min_unreachable'' (VFloat (Fin (1 / 4)))) v_float) (\<lambda>hu.
     rbind (rbind (escalate_key esc ''hostile'' ''min_anomalies'' (VInt 3)) v_int) (\<lambda>ha.
     rbind (rbind (vget data ''deescalate_dwell'' (VInt 6)) v_int) (\<lambda>dw.
       Inr \<lparr>tier_by_level = tiers, elevated_min_unreachable = eu, elevated_min_anomalies = ea,
            hostile_min_unreachable = hu, hostile_min_anomalies = ha, deescalate_dwell = dw\<rparr>))))))))))"

definition raw_level :: "ThreatSignals \<Rightarrow> ThreatPolicy \<Rightarrow> string" where
  "raw_level sig policy =
     (if sig_vantages sig = 0 then ''hostile''
      else if sig_partition sig
           \<or> flt_le (hostile_min_unreachable policy) (Fin (sig_unreachable_fraction sig))
           \<or> hostile_min_anomalies policy \<le> sig_anomalies sig then ''hostile''
      else if flt_le (elevated_min_unreachable policy) (Fin (sig_unreachable_fraction sig))
           \<or> elevated_min_anomalies policy \<le> sig_anomalies sig then ''elevated''
      else ''calm'')"

datatype reason =
    RawReason string ThreatSignals
  | EscalateReason string string
  | ProposeReason string string int int
  | HoldReason string int int

datatype actuation = auto_escalate | hold | propose_deescalate

record ThreatAssessment =
  a_level :: string
  a_tier :: pyval
  a_actuation :: actuation
  a_proposed_level :: "string option"
  a_proposed_tier :: "pyval option"
  a_reasons :: "reason list"

definition tier_of :: "ThreatPolicy \<Rightarrow> string \<Rightarrow> pyval result" where
  "tier_of policy level = (case dget (tier_by_level policy) level of None \<Rightarrow> Inl KeyError | Some t \<Rightarrow> Inr t)"

definition assess_threat :: "ThreatSignals \<Rightarrow> string \<Rightarrow> int \<Rightarrow> ThreatPolicy \<Rightarrow> ThreatAssessment result" where
  "assess_threat sig previous_level calm_dwell policy =
     (let raw = raw_level sig policy; rs = [RawReason raw sig] in
      rbind (level_rank raw) (\<lambda>rr.
      rbind (level_rank previous_level) (\<lambda>rp.
      if rp < rr then
        rbind (tier_of policy raw) (\<lambda>t.
          Inr \<lparr>a_level = raw, a_tier = t, a_actuation = auto_escalate, a_proposed_level = None,
               a_proposed_tier = None, a_reasons = rs @ [EscalateReason previous_level raw]\<rparr>)
      else if rr < rp then
        if deescalate_dwell policy \<le> calm_dwell then
          rbind (tier_of policy previous_level) (\<lambda>t.
          rbind (tier_of policy raw) (\<lambda>pt.
            Inr \<lparr>a_level = previous_level, a_tier = t, a_actuation = propose_deescalate,
                 a_proposed_level = Some raw, a_proposed_tier = Some pt,
                 a_reasons = rs @ [ProposeReason previous_level raw calm_dwell (deescalate_dwell policy)]\<rparr>))
        else
          rbind (tier_of policy previous_level) (\<lambda>t.
            Inr \<lparr>a_level = previous_level, a_tier = t, a_actuation = hold, a_proposed_level = None,
                 a_proposed_tier = None,
                 a_reasons = rs @ [HoldReason previous_level calm_dwell (deescalate_dwell policy)]\<rparr>)
      else
        rbind (tier_of policy previous_level) (\<lambda>t.
          Inr \<lparr>a_level = previous_level, a_tier = t, a_actuation = hold, a_proposed_level = None,
               a_proposed_tier = None, a_reasons = rs\<rparr>))))"

record TierChoice =
  tc_tier :: string
  tc_expected_value :: rat
  tc_p_survive :: rat
  tc_cost :: rat
  tc_overhead :: rat

definition tier_choice :: "rat \<Rightarrow> rat \<Rightarrow> rat \<Rightarrow> string \<times> Placement \<Rightarrow> TierChoice result" where
  "tier_choice threat_frac value_of_state unit_storage_cost np =
     rbind (survival_probability (snd np) threat_frac) (\<lambda>p.
     rbind (durability_overhead (snd np)) (\<lambda>overhead.
       Inr \<lparr>tc_tier = fst np, tc_expected_value = value_of_state * p - overhead * unit_storage_cost,
            tc_p_survive = p, tc_cost = overhead * unit_storage_cost, tc_overhead = overhead\<rparr>))"

definition optimal_tier ::
    "(string, Placement) dict \<Rightarrow> rat \<Rightarrow> rat \<Rightarrow> rat \<Rightarrow> (string \<times> TierChoice list) result" where
  "optimal_tier placements threat_frac value_of_state unit_storage_cost =
     rbind (rmap (tier_choice threat_frac value_of_state unit_storage_cost) placements) (\<lambda>choices.
       case sort_key (\<lambda>c. (- tc_expected_value c, - tc_overhead c)) choices of
         [] \<Rightarrow> Inl IndexError
       | c # cs \<Rightarrow> Inr (tc_tier c, c # cs))"

record MeshThreatState =
  ts_level :: string
  ts_calm_dwell :: int

definition threat_step ::
    "VantageReport list \<Rightarrow> MeshThreatState \<Rightarrow> ThreatPolicy \<Rightarrow> int \<Rightarrow> (MeshThreatState \<times> ThreatAssessment) result" where
  "threat_step reports state policy quorum =
     rbind (aggregate_vantages reports quorum) (\<lambda>sig.
     rbind (assess_threat sig (ts_level state) (ts_calm_dwell state) policy) (\<lambda>a.
       case a_actuation a of
         auto_escalate \<Rightarrow> Inr (\<lparr>ts_level = a_level a, ts_calm_dwell = 0\<rparr>, a)
       | propose_deescalate \<Rightarrow>
           (case a_proposed_level a of
              Some l \<Rightarrow> Inr (\<lparr>ts_level = l, ts_calm_dwell = 0\<rparr>, a)
            | None \<Rightarrow> Inl OtherError)
       | hold \<Rightarrow>
           rbind (level_rank (raw_level sig policy)) (\<lambda>rr.
           rbind (level_rank (ts_level state)) (\<lambda>rs.
             Inr (\<lparr>ts_level = ts_level state, ts_calm_dwell = (if rr < rs then ts_calm_dwell state + 1 else 0)\<rparr>, a)))))"

section \<open>The median under lying vantages\<close>

lemma length_filter_sort [simp]: "length (filter P (sort xs)) = length (filter P xs)"
  by (simp add: filter_sort)

lemma sort_eq_Nil [simp]: "sort xs = [] \<longleftrightarrow> xs = []"
  by (metis length_0_conv length_sort)





lemma aggregate_total: "\<exists>sig. aggregate_vantages reports quorum = Inr sig"
  by (auto simp: aggregate_vantages_def median_def Let_def)

section \<open>The controller as a state machine\<close>

text \<open>
  Runs of the controller, with the history (newest first) of the level in force before each cycle
  and the raw level of that cycle.
\<close>

inductive threat_run ::
    "ThreatPolicy \<Rightarrow> int \<Rightarrow> MeshThreatState \<Rightarrow> (string \<times> string) list \<Rightarrow> MeshThreatState \<Rightarrow> bool"
  for policy q s0 where
  start: "threat_run policy q s0 [] s0"
| cycle: "threat_run policy q s0 h s \<Longrightarrow> aggregate_vantages reports q = Inr sig \<Longrightarrow>
    threat_step reports s policy q = Inr (s', a) \<Longrightarrow>
    threat_run policy q s0 ((ts_level s, raw_level sig policy) # h) s'"

definition below :: "string \<Rightarrow> string \<Rightarrow> bool" where
  "below l m \<longleftrightarrow> (case (level_rank l, level_rank m) of (Inr i, Inr j) \<Rightarrow> i < j | _ \<Rightarrow> False)"

lemma level_rank_raw: "\<exists>n. level_rank (raw_level sig policy) = Inr n"
  by (simp add: raw_level_def level_rank_def)

lemma threat_step_cases:
  assumes "threat_step reports s policy q = Inr (s', a)" "aggregate_vantages reports q = Inr sig"
  obtains
    (up) "below (ts_level s) (raw_level sig policy)" "s' = \<lparr>ts_level = raw_level sig policy, ts_calm_dwell = 0\<rparr>"
  | (down) "below (raw_level sig policy) (ts_level s)" "deescalate_dwell policy \<le> ts_calm_dwell s"
      "s' = \<lparr>ts_level = raw_level sig policy, ts_calm_dwell = 0\<rparr>"
  | (waiting) "below (raw_level sig policy) (ts_level s)" "ts_calm_dwell s < deescalate_dwell policy"
      "s' = \<lparr>ts_level = ts_level s, ts_calm_dwell = ts_calm_dwell s + 1\<rparr>"
  | (same) "level_rank (raw_level sig policy) = level_rank (ts_level s)"
      "s' = \<lparr>ts_level = ts_level s, ts_calm_dwell = 0\<rparr>"
proof -
  obtain rr where rr: "level_rank (raw_level sig policy) = Inr rr" using level_rank_raw by blast
  obtain rp where rp: "level_rank (ts_level s) = Inr rp"
    using assms by (auto simp: threat_step_def assess_threat_def Let_def rbind_eq_Inr)
  show thesis
  proof (cases "rp < rr")
    case True
    with assms rr rp up show thesis
      by (auto simp: threat_step_def assess_threat_def Let_def rbind_eq_Inr below_def)
  next
    case False
    show thesis
    proof (cases "rr < rp")
      case True
      with assms rr rp down waiting show thesis
        by (auto simp: threat_step_def assess_threat_def Let_def rbind_eq_Inr below_def split: if_splits)
    next
      case eq: False
      with assms rr rp False same show thesis
        by (auto simp: threat_step_def assess_threat_def Let_def rbind_eq_Inr)
    qed
  qed
qed

lemma below_irrefl: "below l l \<Longrightarrow> False"
  by (auto simp: below_def split: sum.splits)

lemma dwell_counts_calm:
  assumes "threat_run policy q s0 h s" "ts_calm_dwell s0 = 0"
  shows "0 \<le> ts_calm_dwell s \<and> ts_calm_dwell s \<le> int (length h) \<and>
         (\<forall>(l, raw) \<in> set (take (nat (ts_calm_dwell s)) h). l = ts_level s \<and> below raw l)"
  using assms(1)
proof induction
  case start
  then show ?case using assms(2) by simp
next
  case (cycle h s reports sig s' a)
  from cycle.hyps(3,2) show ?case
  proof (cases rule: threat_step_cases)
    case waiting
    have "0 \<le> ts_calm_dwell s" using cycle.IH by blast
    then have "nat (ts_calm_dwell s + 1) = Suc (nat (ts_calm_dwell s))" by (simp add: nat_add_distrib)
    with waiting cycle.IH show ?thesis by auto
  qed auto
qed

section \<open>Properties\<close>



text \<open>
  C13: Resilience is never dropped early. In every run of the controller, a cycle that lowers the
  level in force follows at least the declared dwell of consecutive cycles, all at that level and
  all with a lower raw level, and its own raw level is the lower one it moves to.
\<close>

theorem no_early_deescalation:
  assumes "threat_run policy q s0 h s" "ts_calm_dwell s0 = 0"
    and "aggregate_vantages reports q = Inr sig" "threat_step reports s policy q = Inr (s', a)"
    and "below (ts_level s') (ts_level s)"
  shows "ts_level s' = raw_level sig policy \<and> deescalate_dwell policy \<le> int (length h) \<and>
         (\<forall>(l, raw) \<in> set (take (nat (deescalate_dwell policy)) h). l = ts_level s \<and> below raw l)"
proof -
  note D = dwell_counts_calm [OF assms(1,2)]
  from assms(4,3) show ?thesis
  proof (cases rule: threat_step_cases)
    case up
    with assms(5) show ?thesis by (auto simp: below_def split: sum.splits)
  next
    case down
    have "set (take (nat (deescalate_dwell policy)) h) \<subseteq> set (take (nat (ts_calm_dwell s)) h)"
      using down(2) by (intro set_take_subset_set_take) simp
    with D down show ?thesis by auto
  qed (use assms(5) below_irrefl in auto)
qed

definition calm_policy :: ThreatPolicy where
  "calm_policy = \<lparr>tier_by_level = [(''calm'', VStr ''baseline''), (''elevated'', VStr ''hardened''), (''hostile'', VStr ''hostile'')],
     elevated_min_unreachable = Fin (1 / 10), elevated_min_anomalies = 1, hostile_min_unreachable = Fin (1 / 4),
     hostile_min_anomalies = 3, deescalate_dwell = 1\<rparr>"

definition quiet :: "VantageReport list" where
  "quiet = [\<lparr>vr_vantage = ''a'', vr_unreachable_fraction = 0, vr_anomalies_seen = 0, vr_partition_suspected = False\<rparr>]"

lemma quiet_signal: "aggregate_vantages quiet 1 = Inr \<lparr>sig_unreachable_fraction = 0, sig_anomalies = 0, sig_partition = False, sig_vantages = 1\<rparr>"
  by (simp add: aggregate_vantages_def quiet_def median_def trunc_rat_def)

lemma quiet_steps:
  "threat_step quiet \<lparr>ts_level = ''hostile'', ts_calm_dwell = 0\<rparr> calm_policy 1
     = Inr (\<lparr>ts_level = ''hostile'', ts_calm_dwell = 1\<rparr>,
        \<lparr>a_level = ''hostile'', a_tier = VStr ''hostile'', a_actuation = hold, a_proposed_level = None, a_proposed_tier = None,
         a_reasons = [RawReason ''calm'' \<lparr>sig_unreachable_fraction = 0, sig_anomalies = 0, sig_partition = False, sig_vantages = 1\<rparr>,
                      HoldReason ''hostile'' 0 1]\<rparr>)"
  "threat_step quiet \<lparr>ts_level = ''hostile'', ts_calm_dwell = 1\<rparr> calm_policy 1
     = Inr (\<lparr>ts_level = ''calm'', ts_calm_dwell = 0\<rparr>,
        \<lparr>a_level = ''hostile'', a_tier = VStr ''hostile'', a_actuation = propose_deescalate,
         a_proposed_level = Some ''calm'', a_proposed_tier = Some (VStr ''baseline''),
         a_reasons = [RawReason ''calm'' \<lparr>sig_unreachable_fraction = 0, sig_anomalies = 0, sig_partition = False, sig_vantages = 1\<rparr>,
                      ProposeReason ''hostile'' ''calm'' 1 1]\<rparr>)"
  by (simp_all add: threat_step_def quiet_signal assess_threat_def raw_level_def calm_policy_def level_rank_def
      tier_of_def dget_def Let_def)

lemma quiet_raw: "raw_level \<lparr>sig_unreachable_fraction = 0, sig_anomalies = 0, sig_partition = False, sig_vantages = 1\<rparr> calm_policy = ''calm''"
  by (simp add: raw_level_def calm_policy_def)

theorem no_early_deescalation_witness:
  "ts_level \<lparr>ts_level = ''calm'', ts_calm_dwell = 0\<rparr> = ''calm'' \<and> deescalate_dwell calm_policy \<le> int (length [(''hostile'', ''calm'')]) \<and>
   take (nat (deescalate_dwell calm_policy)) [(''hostile'', ''calm'')] = [(''hostile'', ''calm'')] \<and> below ''calm'' ''hostile''"
proof -
  have run: "threat_run calm_policy 1 \<lparr>ts_level = ''hostile'', ts_calm_dwell = 0\<rparr> [(''hostile'', ''calm'')]
      \<lparr>ts_level = ''hostile'', ts_calm_dwell = 1\<rparr>"
    using threat_run.cycle [OF threat_run.start quiet_signal quiet_steps(1)] unfolding quiet_raw by simp
  show ?thesis
    using no_early_deescalation [OF run _ quiet_signal quiet_steps(2)] unfolding quiet_raw
    by (simp add: below_def level_rank_def calm_policy_def)
qed

text \<open>
  A drop in level is applied, not only proposed. Once the dwell is met, the cycle that reports
  \<open>propose_deescalate\<close> also lowers the level in the new state.
\<close>

theorem proposed_drop_is_applied:
  assumes "aggregate_vantages reports q = Inr sig" "below (raw_level sig policy) (ts_level s)"
    and "deescalate_dwell policy \<le> ts_calm_dwell s" "threat_step reports s policy q = Inr (s', a)"
  shows "a_actuation a = propose_deescalate \<and> a_level a = ts_level s \<and> ts_level s' = raw_level sig policy"
proof -
  obtain rr rp where "level_rank (raw_level sig policy) = Inr rr" "level_rank (ts_level s) = Inr rp" "rr < rp"
    using assms(2) by (auto simp: below_def split: sum.splits)
  with assms(1,3,4) show ?thesis by (auto simp: threat_step_def assess_threat_def Let_def rbind_eq_Inr)
qed

theorem proposed_drop_is_applied_witness:
  "\<exists>s' a. threat_step quiet \<lparr>ts_level = ''hostile'', ts_calm_dwell = 1\<rparr> calm_policy 1 = Inr (s', a) \<and>
     a_actuation a = propose_deescalate \<and> ts_level s' = ''calm''"
proof -
  have "below ''calm'' ''hostile''" "deescalate_dwell calm_policy \<le> 1"
    by (simp_all add: below_def level_rank_def calm_policy_def)
  with proposed_drop_is_applied [OF quiet_signal _ _ quiet_steps(2)] quiet_steps(2) show ?thesis
    unfolding quiet_raw by simp
qed

text \<open>
  The economic choice is optimal. The tier returned is one of the placements, no placement has
  a larger expected value, and among those of equal expected value none has a larger overhead.
\<close>

theorem optimal_tier_is_best:
  assumes "optimal_tier placements f v u = Inr (best, choices)"
  shows "\<exists>c \<in> set choices. tc_tier c = best \<and> best \<in> set (dkeys placements) \<and> length choices = length placements \<and>
           (\<forall>np \<in> set placements. \<exists>d. tier_choice f v u np = Inr d \<and>
              (tc_expected_value d < tc_expected_value c \<or>
               tc_expected_value d = tc_expected_value c \<and> tc_overhead d \<le> tc_overhead c))"
proof -
  let ?key = "\<lambda>c. (- tc_expected_value c, - tc_overhead c)"
  obtain ds where ds: "rmap (tier_choice f v u) placements = Inr ds"
    using assms by (auto simp: optimal_tier_def rbind_eq_Inr)
  obtain c cs where c: "sort_key ?key ds = c # cs" "choices = c # cs" "best = tc_tier c"
    using assms ds by (auto simp: optimal_tier_def split: list.splits)
  have set: "set (c # cs) = set ds" by (metis c(1) set_sort)
  have len: "length choices = length ds" by (metis c(1,2) length_sort)
  have each: "list_all2 (\<lambda>np d. tier_choice f v u np = Inr d) placements ds" using ds by (rule rmap_list_all2)
  have least: "?key c \<le> ?key d" if "d \<in> set ds" for d
  proof -
    have "sorted (map ?key (c # cs))" using sorted_sort_key [of ?key ds] by (simp add: c(1))
    with that set show ?thesis by auto
  qed
  have "\<exists>np \<in> set placements. tier_choice f v u np = Inr c"
  proof -
    have "c \<in> set ds" using set by auto
    then obtain i where "i < length ds" "ds ! i = c" by (auto simp: in_set_conv_nth)
    with list_all2_nthD2 [OF each, of i] list_all2_lengthD [OF each] show ?thesis by auto
  qed
  then have "best \<in> set (dkeys placements)" using c(3) by (auto simp: tier_choice_def rbind_eq_Inr dkeys_def intro: rev_image_eqI)
  moreover have "\<exists>d. tier_choice f v u np = Inr d \<and> (tc_expected_value d < tc_expected_value c \<or>
      tc_expected_value d = tc_expected_value c \<and> tc_overhead d \<le> tc_overhead c)" if np: "np \<in> set placements" for np
  proof -
    obtain d where "d \<in> set ds" "tier_choice f v u np = Inr d"
    proof -
      fix thesis assume th: "\<And>d. d \<in> set ds \<Longrightarrow> tier_choice f v u np = Inr d \<Longrightarrow> thesis"
      obtain i where i: "i < length placements" "placements ! i = np" using np by (auto simp: in_set_conv_nth)
      have "i < length ds" using i(1) list_all2_lengthD [OF each] by simp
      then show thesis using list_all2_nthD [OF each i(1)] i(2) by (intro th [of "ds ! i"]) auto
    qed
    with least [of d] show ?thesis by auto
  qed
  ultimately show ?thesis using c len each by (auto simp: list_all2_lengthD)
qed

theorem optimal_tier_is_best_witness:
  "\<exists>c \<in> set [\<lparr>tc_tier = ''x'', tc_expected_value = 8, tc_p_survive = 1, tc_cost = 2, tc_overhead = 2\<rparr>].
     tc_tier c = ''x'' \<and> ''x'' \<in> set (dkeys [(''x'', \<lparr>replicas = 1, rs_k = 1, rs_m = 1, encrypted_at_rest = True, shard_replicas = 1\<rparr>)])"
proof -
  have "optimal_tier [(''x'', \<lparr>replicas = 1, rs_k = 1, rs_m = 1, encrypted_at_rest = True, shard_replicas = 1\<rparr>)] 0 10 1
      = Inr (''x'', [\<lparr>tc_tier = ''x'', tc_expected_value = 8, tc_p_survive = 1, tc_cost = 2, tc_overhead = 2\<rparr>])"
    by (simp add: optimal_tier_def tier_choice_def survival_probability_def tail_term_def comb_def py_pow_def
        durability_overhead_def rs_n_def upto.simps)
  from optimal_tier_is_best [OF this] show ?thesis by blast
qed

end
