(* ===== verification/Vantage_Reports.thy ===== *)
theory Vantage_Reports
  imports Mesh_Threat
begin

text \<open>
  \<open>automation/vantage_reports.py\<close>: a node's own report and the collector that fans the reports
  in. A report is a dict; a report file is given by its path and the outcome of reading and parsing
  it; a probe of a peer is an injected function that may raise. The reason of a rejection is a
  datatype with one constructor per message. A clock reading is an argument.
\<close>

section \<open>The code\<close>

text \<open>\<open>round(x, 6)\<close>: to the nearest millionth, ties to the even one.\<close>

definition round6 :: "rat \<Rightarrow> rat" where
  "round6 q =
     (let y = q * 1000000; n = \<lfloor>y\<rfloor>; d = y - of_int n in
      of_int (if d < 1 / 2 then n else if 1 / 2 < d then n + 1 else if even n then n else n + 1) / 1000000)"

definition build_report :: "string \<Rightarrow> string \<Rightarrow> int \<Rightarrow> int \<Rightarrow> int \<Rightarrow> bool option \<Rightarrow> pyval result" where
  "build_report now vantage peers_total peers_unreachable anomalies_seen partition_suspected =
     (if peers_total < 0 \<or> peers_unreachable < 0 \<or> anomalies_seen < 0 then Inl ValueError
      else if peers_total < peers_unreachable then Inl ValueError
      else
        let fr = (if peers_total \<noteq> 0 then of_int peers_unreachable / of_int peers_total else 0);
            part = (case partition_suspected of
                      Some b \<Rightarrow> b
                    | None \<Rightarrow> if peers_total \<noteq> 0 then peers_total div 2 < peers_unreachable else False)
        in Inr (VDict [(''vantage'', VStr vantage), (''unreachable_fraction'', VFloat (Fin (round6 fr))),
                       (''anomalies_seen'', VInt anomalies_seen), (''partition_suspected'', VBool part),
                       (''observed_at'', VStr now)]))"

definition unreachable_peers :: "(string \<Rightarrow> bool result) \<Rightarrow> string list \<Rightarrow> int" where
  "unreachable_peers reach peers =
     fold (\<lambda>peer n. let ok = (case reach peer of Inr b \<Rightarrow> b | Inl _ \<Rightarrow> False) in if ok then n else n + 1) peers 0"

definition probe_and_report :: "string \<Rightarrow> string \<Rightarrow> string list \<Rightarrow> (string \<Rightarrow> bool result) \<Rightarrow> int \<Rightarrow> pyval result" where
  "probe_and_report now vantage peers reach anomalies_seen =
     build_report now vantage (int (length peers)) (unreachable_peers reach peers) anomalies_seen None"

datatype report_error = NotAnObject | BadVantage | BadFraction | BadAnomalies | BadPartition

text \<open>A number in [0, 1]; converting a huge integer to a float raises.\<close>

definition fraction_ok :: "pyval \<Rightarrow> bool result" where
  "fraction_ok uf =
     (case uf of
        VInt i \<Rightarrow> rbind (v_float uf) (\<lambda>x. Inr (flt_le (Fin 0) x \<and> flt_le x (Fin 1)))
      | VFloat x \<Rightarrow> Inr (flt_le (Fin 0) x \<and> flt_le x (Fin 1))
      | _ \<Rightarrow> Inr False)"

definition valid_report :: "pyval \<Rightarrow> report_error option result" where
  "valid_report r =
     (case r of
        VDict d \<Rightarrow>
          (case dgetdef d ''vantage'' VNone of
             VStr v \<Rightarrow>
               if v = [] then Inr (Some BadVantage)
               else
                 rbind (fraction_ok (dgetdef d ''unreachable_fraction'' VNone)) (\<lambda>ok.
                 if \<not> ok then Inr (Some BadFraction)
                 else
                   (case dgetdef d ''anomalies_seen'' (VInt 0) of
                      VInt an \<Rightarrow>
                        if an < 0 then Inr (Some BadAnomalies)
                        else
                          (case dgetdef d ''partition_suspected'' (VBool False) of
                             VBool _ \<Rightarrow> Inr None
                           | _ \<Rightarrow> Inr (Some BadPartition))
                    | _ \<Rightarrow> Inr (Some BadAnomalies)))
           | _ \<Rightarrow> Inr (Some BadVantage))
      | _ \<Rightarrow> Inr (Some NotAnObject))"

datatype rejection = Unreadable | Malformed report_error | DuplicateVantage string

record report_doc =
  doc_quorum :: int
  doc_reports :: "pyval list"
  doc_rejected :: "(string \<times> rejection) list"
  doc_collected_at :: string

definition vantage_of :: "pyval \<Rightarrow> pyval result" where
  "vantage_of raw = vindex raw ''vantage''"

text \<open>One report file; the state is the kept reports, the rejections and the vantages seen.\<close>

definition collect_one ::
    "string \<times> pyval result \<Rightarrow> pyval list \<times> (string \<times> rejection) list \<times> pyval list \<Rightarrow>
     (pyval list \<times> (string \<times> rejection) list \<times> pyval list) result" where
  "collect_one file st =
     (case (file, st) of ((p, outcome), (reports, rejected, seen)) \<Rightarrow>
        case outcome of
          Inl e \<Rightarrow> if e = FileNotFound \<or> e = ValueError then Inr (reports, rejected @ [(p, Unreadable)], seen) else Inl e
        | Inr raw \<Rightarrow>
            rbind (valid_report raw) (\<lambda>err.
              case err of
                Some e \<Rightarrow> Inr (reports, rejected @ [(p, Malformed e)], seen)
              | None \<Rightarrow>
                  rbind (vantage_of raw) (\<lambda>v.
                    if v \<in> set seen
                    then Inr (reports, rejected @ [(p, DuplicateVantage (case v of VStr s \<Rightarrow> s | _ \<Rightarrow> []))], seen)
                    else Inr (reports @ [raw], rejected, v # seen))))"

definition collect_reports :: "string \<Rightarrow> (string \<times> pyval result) list \<Rightarrow> int \<Rightarrow> report_doc result" where
  "collect_reports now files quorum =
     rbind (rfold collect_one files ([], [], [])) (\<lambda>(reports, rejected, _).
       Inr \<lparr>doc_quorum = quorum, doc_reports = reports, doc_rejected = rejected, doc_collected_at = now\<rparr>)"

section \<open>What the collector keeps\<close>

text \<open>
  The collector's invariant: kept reports are valid, come from an input file and name different
  vantages, which are exactly the ones seen; every file is either kept or rejected.
\<close>

definition collect_inv ::
    "(string \<times> pyval result) list \<Rightarrow> nat \<Rightarrow> pyval list \<times> (string \<times> rejection) list \<times> pyval list \<Rightarrow> bool" where
  "collect_inv files n st \<longleftrightarrow>
     (case st of (reports, rejected, seen) \<Rightarrow>
        (\<forall>r \<in> set reports. valid_report r = Inr None \<and> (\<exists>p. (p, Inr r) \<in> set files)) \<and>
        rmap vantage_of reports = Inr (rev seen) \<and> distinct seen \<and>
        length reports + length rejected = n)"

lemma collect_one_inv:
  assumes "file \<in> set files" "collect_inv files n st" "collect_one file st = Inr st'"
  shows "collect_inv files (Suc n) st'"
proof -
  obtain p outcome reports rejected seen where f: "file = (p, outcome)" "st = (reports, rejected, seen)"
    by (metis prod.exhaust)
  show ?thesis
  proof (cases outcome)
    case (Inl e)
    with assms f show ?thesis by (auto simp: collect_one_def collect_inv_def split: if_splits)
  next
    case (Inr raw)
    with assms(3) f obtain err where err: "valid_report raw = Inr err" by (auto simp: collect_one_def rbind_eq_Inr)
    show ?thesis
    proof (cases err)
      case (Some e)
      with assms f Inr err show ?thesis by (auto simp: collect_one_def collect_inv_def)
    next
      case None
      with assms(3) f Inr err obtain v where v: "vantage_of raw = Inr v" by (auto simp: collect_one_def rbind_eq_Inr)
      show ?thesis
      proof (cases "v \<in> set seen")
        case True
        with assms f Inr err None v show ?thesis by (auto simp: collect_one_def collect_inv_def)
      next
        case False
        then have st': "st' = (reports @ [raw], rejected, v # seen)"
          using assms(3) f Inr err None v by (simp add: collect_one_def)
        have "rmap vantage_of (reports @ [raw]) = Inr (rev seen @ [v])"
          using assms(2) f v by (intro rmap_snoc) (auto simp: collect_inv_def)
        with assms(1,2) f Inr err None False st' show ?thesis by (auto simp: collect_inv_def)
      qed
    qed
  qed
qed

lemma unreachable_peers_count: "unreachable_peers reach peers = int (length (filter (\<lambda>p. reach p \<noteq> Inr True) peers))"
proof -
  have "fold (\<lambda>peer n. let ok = (case reach peer of Inr b \<Rightarrow> b | Inl _ \<Rightarrow> False) in if ok then n else n + 1) peers n
      = n + int (length (filter (\<lambda>p. reach p \<noteq> Inr True) peers))" for n :: int
    by (induction peers arbitrary: n) (auto simp: Let_def split: sum.splits)
  then show ?thesis by (simp add: unreachable_peers_def)
qed

lemma round6_bounds: "0 \<le> q \<Longrightarrow> q \<le> 1 \<Longrightarrow> 0 \<le> round6 q \<and> round6 q \<le> 1"
proof -
  assume q: "0 \<le> q" "q \<le> 1"
  let ?y = "q * 1000000"
  have n: "0 \<le> \<lfloor>?y\<rfloor>" "\<lfloor>?y\<rfloor> \<le> 1000000" using q by (auto simp: floor_le_iff)
  have "\<lfloor>?y\<rfloor> + 1 \<le> 1000000" if "\<not> ?y - of_int \<lfloor>?y\<rfloor> < 1 / 2"
  proof (rule ccontr)
    assume "\<not> ?thesis"
    with n have e: "\<lfloor>?y\<rfloor> = 1000000" by linarith
    have "\<not> ?y - 1000000 < 1 / 2" using that unfolding e by simp
    with q show False by simp
  qed
  with n have "0 \<le> (if ?y - of_int \<lfloor>?y\<rfloor> < 1 / 2 then \<lfloor>?y\<rfloor> else if 1 / 2 < ?y - of_int \<lfloor>?y\<rfloor> then \<lfloor>?y\<rfloor> + 1
      else if even \<lfloor>?y\<rfloor> then \<lfloor>?y\<rfloor> else \<lfloor>?y\<rfloor> + 1)"
    "(if ?y - of_int \<lfloor>?y\<rfloor> < 1 / 2 then \<lfloor>?y\<rfloor> else if 1 / 2 < ?y - of_int \<lfloor>?y\<rfloor> then \<lfloor>?y\<rfloor> + 1
      else if even \<lfloor>?y\<rfloor> then \<lfloor>?y\<rfloor> else \<lfloor>?y\<rfloor> + 1) \<le> 1000000"
    by auto
  then show ?thesis unfolding round6_def Let_def by (auto simp del: of_int_add)
qed

section \<open>Properties\<close>

text \<open>
  One valid vote per vantage. Every report in the collected document passed validation, was
  read from one of the files, and no two of them name the same vantage; each file is accounted for
  either as a report or as a rejection.
\<close>

theorem collected_reports_sound:
  assumes "collect_reports now files quorum = Inr doc"
  shows "(\<forall>r \<in> set (doc_reports doc). valid_report r = Inr None \<and> (\<exists>p. (p, Inr r) \<in> set files)) \<and>
         (\<exists>vs. rmap vantage_of (doc_reports doc) = Inr vs \<and> distinct vs) \<and>
         length (doc_reports doc) + length (doc_rejected doc) = length files"
proof -
  obtain reports rejected seen where f: "rfold collect_one files ([], [], []) = Inr (reports, rejected, seen)"
    and d: "doc = \<lparr>doc_quorum = quorum, doc_reports = reports, doc_rejected = rejected, doc_collected_at = now\<rparr>"
    using assms by (auto simp: collect_reports_def rbind_eq_Inr)
  have "collect_inv files (length files) (reports, rejected, seen)"
    by (rule rfold_invariant [OF f]) (simp add: collect_inv_def, rule collect_one_inv)
  with d show ?thesis by (auto simp: collect_inv_def)
qed

theorem collected_reports_sound_witness:
  "\<exists>doc. collect_reports ''t''
      [(''p'', Inr (VDict [(''vantage'', VStr ''a''), (''unreachable_fraction'', VFloat (Fin 0))])),
       (''q'', Inr (VDict [(''vantage'', VStr ''a''), (''unreachable_fraction'', VFloat (Fin 1))])),
       (''r'', Inl ValueError)] 3 = Inr doc \<and>
     length (doc_reports doc) + length (doc_rejected doc) = 3 \<and> length (doc_reports doc) = 1"
proof -
  obtain doc where d: "collect_reports ''t''
      [(''p'', Inr (VDict [(''vantage'', VStr ''a''), (''unreachable_fraction'', VFloat (Fin 0))])),
       (''q'', Inr (VDict [(''vantage'', VStr ''a''), (''unreachable_fraction'', VFloat (Fin 1))])),
       (''r'', Inl ValueError)] 3 = Inr doc" "length (doc_reports doc) = 1"
    by (auto simp: collect_reports_def collect_one_def valid_report_def fraction_ok_def vantage_of_def
        dgetdef_def dget_def)
  with collected_reports_sound [OF d(1)] show ?thesis by auto
qed

text \<open>
  A node's own report is accepted. Probing any peers, some of which may be down or raise,
  yields a report that the collector's validation accepts, for every named vantage and every
  anomaly count that is not negative. A partition is suspected exactly when more than half of the
  peers, rounded down, did not answer.
\<close>

theorem probe_report_valid:
  assumes "vantage \<noteq> []" "0 \<le> anomalies"
  shows "\<exists>d. probe_and_report now vantage peers reach anomalies = Inr (VDict d) \<and> valid_report (VDict d) = Inr None \<and>
           dget d ''partition_suspected''
             = Some (VBool (length peers div 2 < length (filter (\<lambda>p. reach p \<noteq> Inr True) peers)))"
proof -
  let ?u = "length (filter (\<lambda>p. reach p \<noteq> Inr True) peers)"
  have u: "?u \<le> length peers" by (rule length_filter_le)
  let ?fr = "if peers = [] then 0 else rat_of_int (int ?u) / rat_of_int (int (length peers))"
  have "0 \<le> ?fr" "?fr \<le> 1" using u by (auto simp: divide_le_eq)
  then have b: "0 \<le> round6 ?fr \<and> round6 ?fr \<le> 1" by (rule round6_bounds)
  have p: "(if int (length peers) \<noteq> 0 then int (length peers) div 2 < int ?u else False)
      \<longleftrightarrow> length peers div 2 < ?u" using u by auto
  have nl: "\<not> int (length peers) < int ?u" by (simp add: not_less)
  show ?thesis
    using assms nl b p
    by (auto simp: probe_and_report_def build_report_def unreachable_peers_count valid_report_def fraction_ok_def
        dgetdef_def dget_def Let_def)
qed

theorem probe_report_valid_witness:
  "\<exists>d. probe_and_report ''t'' ''a'' [''b'', ''c'', ''d''] (\<lambda>p. if p = ''b'' then Inl OtherError else Inr (p = ''c'')) 0 = Inr (VDict d) \<and>
     dget d ''partition_suspected'' = Some (VBool True)"
  using probe_report_valid [of "''a''" 0 "''t''" "[''b'', ''c'', ''d'']" "\<lambda>p. if p = ''b'' then Inl OtherError else Inr (p = ''c'')"]
  by auto

end
