(* ===== verification/Lazerus.thy ===== *)
theory Lazerus
  imports Py_Values
begin

text \<open>
  \<open>automation/lazerus.py\<close>: the token grammar of integrity receipts and the linter. A pattern is
  a term of a small regular-expression language; \<open>rems\<close> computes what may remain of a text after
  a match of a prefix, and \<open>pat_match\<close> is \<open>re.match\<close> with the pattern's closing \<open>$\<close>, which also
  accepts one newline before the end. Error messages are a datatype with one constructor per
  message.
\<close>

section \<open>Patterns\<close>

datatype pat =
    Lit string
  | Rng nat "nat option" "char \<Rightarrow> bool"
  | Cat pat pat
  | Alt pat pat
  | Times nat pat

definition rng_rems :: "nat \<Rightarrow> nat option \<Rightarrow> (char \<Rightarrow> bool) \<Rightarrow> string \<Rightarrow> string list" where
  "rng_rems lo hi p s =
     (let n = length (takeWhile p s); m = (case hi of None \<Rightarrow> n | Some h \<Rightarrow> min h n) in
      map (\<lambda>i. drop i s) [lo..<Suc m])"

fun iter_rems :: "nat \<Rightarrow> (string \<Rightarrow> string list) \<Rightarrow> string \<Rightarrow> string list" where
  "iter_rems 0 f s = [s]"
| "iter_rems (Suc n) f s = concat (map (iter_rems n f) (f s))"

fun rems :: "pat \<Rightarrow> string \<Rightarrow> string list" where
  "rems (Lit l) s = (if startswith s l then [drop (length l) s] else [])"
| "rems (Rng lo hi p) s = rng_rems lo hi p s"
| "rems (Cat a b) s = concat (map (rems b) (rems a s))"
| "rems (Alt a b) s = rems a s @ rems b s"
| "rems (Times n a) s = iter_rems n (rems a) s"

definition newline :: char where
  "newline = char_of (10 :: nat)"

definition pat_match :: "pat \<Rightarrow> string \<Rightarrow> bool" where
  "pat_match r s \<longleftrightarrow> (\<exists>t \<in> set (rems r s). t = [] \<or> t = [newline])"

fun cats :: "pat list \<Rightarrow> pat" where
  "cats [] = Lit []"
| "cats [r] = r"
| "cats (r # rs) = Cat r (cats rs)"

section \<open>The token grammar\<close>

definition hex_lower :: "char \<Rightarrow> bool" where
  "hex_lower c \<longleftrightarrow> is_digit c \<or> 97 \<le> (of_char c :: nat) \<and> (of_char c :: nat) \<le> 102"

definition alnum_ascii :: "char \<Rightarrow> bool" where
  "alnum_ascii c \<longleftrightarrow> is_digit c \<or> 65 \<le> (of_char c :: nat) \<and> (of_char c :: nat) \<le> 90
                    \<or> 97 \<le> (of_char c :: nat) \<and> (of_char c :: nat) \<le> 122"

definition id_char :: "char \<Rightarrow> bool" where
  "id_char c \<longleftrightarrow> alnum_ascii c \<or> c \<in> set ''._-''"

definition did_char :: "char \<Rightarrow> bool" where
  "did_char c \<longleftrightarrow> alnum_ascii c \<or> c \<in> set '':._-/%#''"

definition digits :: "nat \<Rightarrow> pat" where
  "digits n = Rng n (Some n) is_digit"

definition some_digits :: pat where
  "some_digits = Rng 1 None is_digit"

definition RE_TIME :: pat where
  "RE_TIME = cats [digits 4, Lit ''-'', digits 2, Lit ''-'', digits 2, Lit ''T'', digits 2, Lit '':'', digits 2,
                   Lit '':'', digits 2, Lit ''Z'']"

definition RE_SHA256 :: pat where
  "RE_SHA256 = cats [Lit ''sha256:'', Rng 64 (Some 64) hex_lower]"

definition RE_PILL_ID :: pat where
  "RE_PILL_ID = cats [Lit ''urn:lz:pill:ctx@'', digits 4, Lit ''.'', digits 2, Lit '':n'', some_digits, Lit ''k'',
                      some_digits, Lit '':m'', some_digits, Lit '':r'', some_digits, Lit '':rho'', some_digits,
                      Lit ''of'', some_digits, Lit '':tau'', some_digits]"

definition RE_LZ_ID :: pat where
  "RE_LZ_ID = cats [Lit ''urn:lz:'',
     Alt (Lit ''bie'') (Alt (Lit ''nie'') (Alt (Lit ''cie'') (Alt (Lit ''rie'') (Alt (Lit ''report'') (Lit ''mix''))))),
     Lit '':'', Rng 6 None id_char]"

definition RE_KOE_ID :: pat where
  "RE_KOE_ID = cats [Lit ''urn:lz:koe:'', Rng 6 None id_char]"

definition RE_DID :: pat where
  "RE_DID = cats [Lit ''did:'', Alt (Lit ''web'') (Lit ''key''), Lit '':'', Rng 1 None did_char]"

definition ip_pat :: pat where
  "ip_pat = Cat (Rng 1 (Some 3) is_digit) (Times 3 (Cat (Lit ''.'') (Rng 1 (Some 3) is_digit)))"

definition RE_FLOW_5T :: pat where
  "RE_FLOW_5T = cats [Lit ''5T:'', ip_pat, Lit '':'', Rng 1 (Some 5) is_digit, Lit '':'', ip_pat, Lit '':'',
                      Rng 1 (Some 5) is_digit, Lit '':'', Alt (Lit ''TCP'') (Alt (Lit ''UDP'') (Lit ''QUIC''))]"

definition RE_BLS_SIG :: pat where
  "RE_BLS_SIG = cats [Lit ''bls:'', Rng 96 (Some 96) hex_lower, Alt (Rng 96 (Some 96) hex_lower) (Lit [])]"

definition RE_GIT_SHA :: pat where
  "RE_GIT_SHA = Rng 7 (Some 40) hex_lower"

section \<open>The linter\<close>

record ClusterReceipt =
  cr_cluster :: string
  cr_receipt_id :: string
  cr_issued_at :: string
  cr_state_root :: string
  cr_commit :: string
  cr_writer_principal :: string
  cr_replica_principal :: string
  cr_quorum_sigs :: "pyval list"
  cr_koe_id :: "string option"

datatype lint_error =
    NotObject
  | MissingField string
  | Mismatch string pyval
  | NoSigs
  | BadSig pyval
  | SelfAttest

record LintResult =
  lint_ok :: bool
  lint_receipt_of :: "ClusterReceipt option"
  lint_errors :: "lint_error list"

definition lint_failed :: "lint_error list \<Rightarrow> LintResult" where
  "lint_failed errs = \<lparr>lint_ok = False, lint_receipt_of = None, lint_errors = errs\<rparr>"

definition quarantined :: "LintResult \<Rightarrow> bool" where
  "quarantined res \<longleftrightarrow>
     lint_ok res \<and> (case lint_receipt_of res of None \<Rightarrow> False | Some r \<Rightarrow> cr_koe_id r \<noteq> None)"

text \<open>The nested \<open>check\<close>: the value if it matches, and the errors it appends.\<close>

definition check_field :: "(string, pyval) dict \<Rightarrow> string \<Rightarrow> pat \<Rightarrow> bool \<Rightarrow> string option \<times> lint_error list" where
  "check_field d name p required =
     (case dgetdef d name VNone of
        VNone \<Rightarrow> (None, if required then [MissingField name] else [])
      | VStr s \<Rightarrow> if pat_match p s then (Some s, []) else (None, [Mismatch name (VStr s)])
      | v \<Rightarrow> (None, [Mismatch name v]))"

definition sig_ok :: "pyval \<Rightarrow> bool" where
  "sig_ok v \<longleftrightarrow> (case v of VStr s \<Rightarrow> pat_match RE_BLS_SIG s | _ \<Rightarrow> False)"

definition check_sigs :: "pyval \<Rightarrow> pyval list \<times> lint_error list" where
  "check_sigs v =
     (case v of
        VList [] \<Rightarrow> ([], [NoSigs])
      | VList sigs \<Rightarrow> (sigs, map BadSig (filter (\<lambda>s. \<not> sig_ok s) sigs))
      | _ \<Rightarrow> ([], [NoSigs]))"

definition lint_receipt :: "pyval \<Rightarrow> LintResult" where
  "lint_receipt raw =
     (case raw of
        VDict d \<Rightarrow>
          let (cluster, e1) = check_field d ''cluster'' RE_DID True;
              (receipt_id, e2) = check_field d ''receipt_id'' RE_LZ_ID True;
              (issued_at, e3) = check_field d ''issued_at'' RE_TIME True;
              (state_root, e4) = check_field d ''state_root'' RE_SHA256 True;
              (commit, e5) = check_field d ''commit'' RE_GIT_SHA True;
              (writer, e6) = check_field d ''writer_principal'' RE_DID True;
              (replica, e7) = check_field d ''replica_principal'' RE_DID True;
              (koe_id, e8) = check_field d ''koe_id'' RE_KOE_ID False;
              (sigs, e9) = check_sigs (dgetdef d ''quorum_sigs'' (VList []));
              e10 = (case (writer, replica) of
                       (Some w, Some r) \<Rightarrow> if w \<noteq> [] \<and> r \<noteq> [] \<and> w = r then [SelfAttest] else []
                     | _ \<Rightarrow> []);
              errors = e1 @ e2 @ e3 @ e4 @ e5 @ e6 @ e7 @ e8 @ e9 @ e10
          in if errors \<noteq> [] then lint_failed errors
             else \<lparr>lint_ok = True,
                   lint_receipt_of = Some \<lparr>cr_cluster = the cluster, cr_receipt_id = the receipt_id,
                      cr_issued_at = the issued_at, cr_state_root = the state_root, cr_commit = the commit,
                      cr_writer_principal = the writer, cr_replica_principal = the replica,
                      cr_quorum_sigs = sigs, cr_koe_id = koe_id\<rparr>,
                   lint_errors = []\<rparr>
      | _ \<Rightarrow> lint_failed [NotObject])"

section \<open>What a linted receipt is\<close>

text \<open>A receipt whose every token is in the grammar, attested by a principal other than its writer.\<close>

definition receipt_wf :: "ClusterReceipt \<Rightarrow> bool" where
  "receipt_wf r \<longleftrightarrow>
     pat_match RE_DID (cr_cluster r) \<and> pat_match RE_LZ_ID (cr_receipt_id r) \<and> pat_match RE_TIME (cr_issued_at r) \<and>
     pat_match RE_SHA256 (cr_state_root r) \<and> pat_match RE_GIT_SHA (cr_commit r) \<and>
     pat_match RE_DID (cr_writer_principal r) \<and> pat_match RE_DID (cr_replica_principal r) \<and>
     cr_writer_principal r \<noteq> cr_replica_principal r \<and>
     cr_quorum_sigs r \<noteq> [] \<and> list_all sig_ok (cr_quorum_sigs r) \<and>
     (case cr_koe_id r of None \<Rightarrow> True | Some k \<Rightarrow> pat_match RE_KOE_ID k)"

lemma check_field_required:
  "snd (check_field d name p True) = [] \<Longrightarrow> \<exists>s. check_field d name p True = (Some s, []) \<and> pat_match p s \<and> dget d name = Some (VStr s)"
  by (auto simp: check_field_def dgetdef_def split: pyval.splits if_splits option.splits)

lemma check_field_optional:
  "snd (check_field d name p False) = [] \<Longrightarrow>
     (\<exists>s. check_field d name p False = (Some s, []) \<and> pat_match p s) \<or> check_field d name p False = (None, [])"
  by (auto simp: check_field_def split: pyval.splits if_splits)

lemma check_sigs_ok: "snd (check_sigs v) = [] \<Longrightarrow> fst (check_sigs v) \<noteq> [] \<and> list_all sig_ok (fst (check_sigs v))"
  by (auto simp: check_sigs_def list_all_iff filter_empty_conv split: pyval.splits list.splits if_splits)

lemma did_nonempty: "pat_match RE_DID s \<Longrightarrow> s \<noteq> []"
  by (auto simp: pat_match_def RE_DID_def startswith_def)

lemma lint_receipt_sound:
  assumes "lint_ok (lint_receipt raw)"
  shows "\<exists>d r. raw = VDict d \<and> lint_receipt raw = \<lparr>lint_ok = True, lint_receipt_of = Some r, lint_errors = []\<rparr> \<and>
           receipt_wf r \<and> dget d ''cluster'' = Some (VStr (cr_cluster r)) \<and>
           dget d ''state_root'' = Some (VStr (cr_state_root r)) \<and> dget d ''commit'' = Some (VStr (cr_commit r))"
proof -
  obtain d where d: "raw = VDict d" using assms by (cases raw) (auto simp: lint_receipt_def lint_failed_def)
  let ?c = "\<lambda>n p. check_field d n p True"
  have nil: "snd (?c ''cluster'' RE_DID) = []" "snd (?c ''receipt_id'' RE_LZ_ID) = []" "snd (?c ''issued_at'' RE_TIME) = []"
    "snd (?c ''state_root'' RE_SHA256) = []" "snd (?c ''commit'' RE_GIT_SHA) = []" "snd (?c ''writer_principal'' RE_DID) = []"
    "snd (?c ''replica_principal'' RE_DID) = []" "snd (check_field d ''koe_id'' RE_KOE_ID False) = []"
    "snd (check_sigs (dgetdef d ''quorum_sigs'' (VList []))) = []"
    using assms by (auto simp: lint_receipt_def lint_failed_def d split_beta Let_def split: if_splits)
  obtain c where c: "?c ''cluster'' RE_DID = (Some c, [])" "pat_match RE_DID c" "dget d ''cluster'' = Some (VStr c)"
    using check_field_required [OF nil(1)] by blast
  obtain i where i: "?c ''receipt_id'' RE_LZ_ID = (Some i, [])" "pat_match RE_LZ_ID i"
    using check_field_required [OF nil(2)] by blast
  obtain t where t: "?c ''issued_at'' RE_TIME = (Some t, [])" "pat_match RE_TIME t"
    using check_field_required [OF nil(3)] by blast
  obtain s where s: "?c ''state_root'' RE_SHA256 = (Some s, [])" "pat_match RE_SHA256 s" "dget d ''state_root'' = Some (VStr s)"
    using check_field_required [OF nil(4)] by blast
  obtain m where m: "?c ''commit'' RE_GIT_SHA = (Some m, [])" "pat_match RE_GIT_SHA m" "dget d ''commit'' = Some (VStr m)"
    using check_field_required [OF nil(5)] by blast
  obtain w where w: "?c ''writer_principal'' RE_DID = (Some w, [])" "pat_match RE_DID w"
    using check_field_required [OF nil(6)] by blast
  obtain r where r: "?c ''replica_principal'' RE_DID = (Some r, [])" "pat_match RE_DID r"
    using check_field_required [OF nil(7)] by blast
  obtain k where k: "check_field d ''koe_id'' RE_KOE_ID False = (k, [])" "case k of None \<Rightarrow> True | Some x \<Rightarrow> pat_match RE_KOE_ID x"
    using check_field_optional [OF nil(8)] by fastforce
  obtain g where g: "check_sigs (dgetdef d ''quorum_sigs'' (VList [])) = (g, [])" "g \<noteq> []" "list_all sig_ok g"
    using check_sigs_ok [OF nil(9)] nil(9) by (metis prod.collapse)
  have wr: "w \<noteq> r"
    using assms c i t s m w r k g did_nonempty [OF w(2)]
    by (auto simp: lint_receipt_def lint_failed_def d Let_def split: if_splits)
  have "lint_receipt raw = \<lparr>lint_ok = True, lint_receipt_of = Some \<lparr>cr_cluster = c, cr_receipt_id = i,
      cr_issued_at = t, cr_state_root = s, cr_commit = m, cr_writer_principal = w, cr_replica_principal = r,
      cr_quorum_sigs = g, cr_koe_id = k\<rparr>, lint_errors = []\<rparr>"
    using wr by (simp add: lint_receipt_def d c i t s m w r k g)
  with d c i t s m w r k g wr show ?thesis by (auto simp: receipt_wf_def)
qed

text \<open>Matching up to the trailing newline that \<open>$\<close> lets through.\<close>

lemma startswith_snoc: "startswith s l \<Longrightarrow> startswith (s @ t) l \<and> drop (length l) (s @ t) = drop (length l) s @ t"
proof -
  assume "startswith s l"
  then have "length l \<le> length s" "take (length l) s = l" by (metis length_take min.cobounded1 startswith_def, simp add: startswith_def)
  then show ?thesis by (simp add: startswith_def)
qed

lemma rng_rems_append: "t \<in> set (rng_rems lo hi p s) \<Longrightarrow> t @ u \<in> set (rng_rems lo hi p (s @ u))"
proof -
  assume "t \<in> set (rng_rems lo hi p s)"
  then obtain i where i: "lo \<le> i" "i \<le> (case hi of None \<Rightarrow> length (takeWhile p s) | Some h \<Rightarrow> min h (length (takeWhile p s)))"
    "t = drop i s" by (auto simp: rng_rems_def Let_def)
  have le: "length (takeWhile p s) \<le> length (takeWhile p (s @ u))"
  proof (induction s)
    case (Cons a s) then show ?case by simp
  qed simp
  have "i \<le> length s" using i(2) length_takeWhile_le [of p s] by (auto split: option.splits)
  then have "t @ u = drop i (s @ u)" using i(3) by simp
  moreover have "i \<le> (case hi of None \<Rightarrow> length (takeWhile p (s @ u)) | Some h \<Rightarrow> min h (length (takeWhile p (s @ u))))"
    using i(2) le by (auto split: option.splits)
  ultimately show ?thesis using i(1) unfolding rng_rems_def Let_def set_map set_upt by (intro image_eqI) (simp_all add: less_Suc_eq_le)
qed

lemma iter_rems_append:
  assumes "\<And>t s. t \<in> set (f s) \<Longrightarrow> t @ u \<in> set (f (s @ u))"
  shows "t \<in> set (iter_rems n f s) \<Longrightarrow> t @ u \<in> set (iter_rems n f (s @ u))"
proof (induction n arbitrary: s)
  case (Suc n)
  then obtain s1 where "s1 \<in> set (f s)" "t \<in> set (iter_rems n f s1)" by auto
  with Suc.IH assms show ?case by fastforce
qed simp

lemma rems_append: "t \<in> set (rems r s) \<Longrightarrow> t @ u \<in> set (rems r (s @ u))"
proof (induction r arbitrary: s t)
  case (Lit l)
  then show ?case using startswith_snoc [of s l u] by (auto split: if_splits)
next
  case (Rng lo hi p)
  then show ?case using rng_rems_append by simp
next
  case (Cat a b)
  then obtain s1 where "s1 \<in> set (rems a s)" "t \<in> set (rems b s1)" by auto
  with Cat.IH show ?case by fastforce
next
  case (Alt a b)
  then show ?case by fastforce
next
  case (Times n a)
  then show ?case using iter_rems_append [of "rems a" u] by simp
qed

lemma newline_accepted: "[] \<in> set (rems r s) \<Longrightarrow> pat_match r (s @ [newline])"
  using rems_append [of "[]" r s "[newline]"] by (auto simp: pat_match_def)

lemma rems_suffix: "t \<in> set (rems r s) \<Longrightarrow> \<exists>p. s = p @ t"
proof (induction r arbitrary: s t)
  case (Times n a)
  have "t \<in> set (iter_rems m (rems a) s) \<Longrightarrow> \<exists>p. s = p @ t" for m t s
  proof (induction m arbitrary: s)
    case (Suc m)
    then obtain s1 where "s1 \<in> set (rems a s)" "t \<in> set (iter_rems m (rems a) s1)" by auto
    with Suc.IH Times.IH show ?case by (metis append.assoc)
  qed simp
  with Times.prems show ?case by simp
next
  case (Cat a b)
  then obtain s1 where "s1 \<in> set (rems a s)" "t \<in> set (rems b s1)" by auto
  with Cat.IH show ?case by (metis append.assoc)
qed (auto simp: rng_rems_def Let_def split: if_splits intro: append_take_drop_id [symmetric])

lemma newline_variant:
  assumes "pat_match r s" "s = [] \<or> last s \<noteq> newline" shows "pat_match r (s @ [newline])"
proof -
  have "[newline] \<notin> set (rems r s)"
  proof
    assume "[newline] \<in> set (rems r s)"
    then obtain p where "s = p @ [newline]" using rems_suffix by blast
    with assms(2) show False by simp
  qed
  then have "[] \<in> set (rems r s)" using assms(1) unfolding pat_match_def by metis
  then show ?thesis by (rule newline_accepted)
qed

end
