(* ===== verification/Macro_Triad.thy ===== *)
theory Macro_Triad
  imports Lazerus "HOL-Library.Multiset"
begin

text \<open>
  \<open>automation/macro_triad.py\<close> and \<open>automation/triad_receipts.py\<close>: the quorum over the masters'
  receipts and the collector that assembles them. A receipt file is given by its path and the
  outcome of reading and parsing it. Reasons are datatypes with one constructor per message, with
  the values the message shows.
\<close>

section \<open>The quorum\<close>

datatype sick_reason =
    MalformedReceipt "lint_error list"
  | Quarantined
  | Unreconciled string
  | Diverged string

record SickCluster =
  sick_cluster :: pyval
  sick_reason :: sick_reason
  sick_head_commit :: "string option"
  sick_koe_id :: "string option"

datatype triad_reason =
    Rejected nat pyval "lint_error list"
  | Fenced string string
  | ShortVotes string nat int
  | NoQuorum int
  | QuorumOk nat nat string string
  | DivergedFrom string string

record TriadAssessment =
  quorum_ok :: bool
  canonical_state_root :: "string option"
  canonical_commit :: "string option"
  healthy_clusters :: "string list"
  sick_clusters :: "SickCluster list"
  triad_reasons :: "triad_reason list"

definition needs_failback :: "TriadAssessment \<Rightarrow> bool" where
  "needs_failback a \<longleftrightarrow> quorum_ok a \<and> sick_clusters a \<noteq> []"

text \<open>\<open>by_state[root].append(rec)\<close> on a defaultdict of lists.\<close>

definition group_add :: "('k, 'v list) dict \<Rightarrow> 'k \<Rightarrow> 'v \<Rightarrow> ('k, 'v list) dict" where
  "group_add d k v = dset d k (dgetdef d k [] @ [v])"

type_synonym votes = "SickCluster list \<times> (string, ClusterReceipt list) dict \<times> triad_reason list"

definition raw_cluster :: "pyval \<Rightarrow> pyval" where
  "raw_cluster raw = (case raw of VDict d \<Rightarrow> dgetdef d ''cluster'' VNone | _ \<Rightarrow> VNone)"

definition receipt_label :: "nat \<Rightarrow> string" where
  "receipt_label idx = ''<receipt['' @ nat_str idx @ '']>''"

definition count_vote :: "nat \<times> pyval \<Rightarrow> votes \<Rightarrow> votes" where
  "count_vote ir st =
     (case (ir, st) of ((idx, raw), (sick, by_state, reasons)) \<Rightarrow>
        let res = lint_receipt raw in
        case (if lint_ok res then lint_receipt_of res else None) of
          None \<Rightarrow>
            let cid = raw_cluster raw in
            (sick @ [\<lparr>sick_cluster = v_or cid (VStr (receipt_label idx)),
                      sick_reason = MalformedReceipt (lint_errors res), sick_head_commit = None, sick_koe_id = None\<rparr>],
             by_state, reasons @ [Rejected idx (v_or cid (VStr ''unknown'')) (lint_errors res)])
        | Some rec \<Rightarrow>
            (case cr_koe_id rec of
               Some koe \<Rightarrow>
                 (sick @ [\<lparr>sick_cluster = VStr (cr_cluster rec), sick_reason = Quarantined,
                           sick_head_commit = Some (cr_commit rec), sick_koe_id = Some koe\<rparr>],
                  by_state, reasons @ [Fenced (cr_cluster rec) koe])
             | None \<Rightarrow> (sick, group_add by_state (cr_state_root rec) rec, reasons)))"

text \<open>\<open>max(xs, key=f)\<close>: the first element with the largest key.\<close>

fun first_max :: "('a \<Rightarrow> nat) \<Rightarrow> 'a \<Rightarrow> 'a list \<Rightarrow> 'a" where
  "first_max f b [] = b"
| "first_max f b (x # xs) = first_max f (if f b < f x then x else b) xs"

definition winner :: "(string, ClusterReceipt list) dict \<Rightarrow> int \<Rightarrow> string option" where
  "winner by_state quorum =
     (case sort (dkeys by_state) of
        [] \<Rightarrow> None
      | r # rs \<Rightarrow>
          let w = first_max (\<lambda>r. length (dgetdef by_state r [])) r rs in
          if int (length (dgetdef by_state w [])) < quorum then None else Some w)"

definition unreconciled :: "string \<times> ClusterReceipt list \<Rightarrow> SickCluster list" where
  "unreconciled g = map (\<lambda>rec. \<lparr>sick_cluster = VStr (cr_cluster rec), sick_reason = Unreconciled (fst g),
                               sick_head_commit = Some (cr_commit rec), sick_koe_id = None\<rparr>) (snd g)"

definition diverged :: "string \<times> ClusterReceipt list \<Rightarrow> SickCluster list" where
  "diverged g = map (\<lambda>rec. \<lparr>sick_cluster = VStr (cr_cluster rec), sick_reason = Diverged (fst g),
                           sick_head_commit = Some (cr_commit rec), sick_koe_id = None\<rparr>) (snd g)"

definition assess_triad :: "pyval list \<Rightarrow> int \<Rightarrow> TriadAssessment" where
  "assess_triad receipts quorum =
     (let (sick, by_state, reasons) = fold count_vote (enumerate 0 receipts) ([], [], []) in
      case winner by_state quorum of
        None \<Rightarrow>
          let groups = sort_key fst by_state in
          \<lparr>quorum_ok = False, canonical_state_root = None, canonical_commit = None, healthy_clusters = [],
           sick_clusters = sick @ concat (map unreconciled groups),
           triad_reasons = reasons @ map (\<lambda>g. ShortVotes (fst g) (length (snd g)) quorum) groups @ [NoQuorum quorum]\<rparr>
      | Some w \<Rightarrow>
          let canonical = dgetdef by_state w [];
              commit = cr_commit (hd canonical);
              others = filter (\<lambda>g. fst g \<noteq> w) by_state in
          \<lparr>quorum_ok = True, canonical_state_root = Some w, canonical_commit = Some commit,
           healthy_clusters = map cr_cluster canonical,
           sick_clusters = sick @ concat (map diverged others),
           triad_reasons = reasons @ [QuorumOk (length canonical) (length receipts) w commit]
             @ concat (map (\<lambda>g. map (\<lambda>rec. DivergedFrom (cr_cluster rec) (cr_commit rec)) (snd g)) others)\<rparr>)"

section \<open>The collector\<close>

datatype receipt_rejection = UnreadableReceipt | LintRejected pyval "lint_error list" | DuplicateMaster string

record triad_doc =
  td_repo :: string
  td_quorum :: int
  td_receipts :: "pyval list"
  td_rejected :: "(string \<times> receipt_rejection) list"
  td_collected_at :: string

definition collect_receipt ::
    "string \<times> pyval result \<Rightarrow> pyval list \<times> (string \<times> receipt_rejection) list \<times> string list \<Rightarrow>
     (pyval list \<times> (string \<times> receipt_rejection) list \<times> string list) result" where
  "collect_receipt file st =
     (case (file, st) of ((p, outcome), (receipts, rejected, seen)) \<Rightarrow>
        case outcome of
          Inl e \<Rightarrow>
            if e = FileNotFound \<or> e = ValueError then Inr (receipts, rejected @ [(p, UnreadableReceipt)], seen) else Inl e
        | Inr raw \<Rightarrow>
            let res = lint_receipt raw in
            case (if lint_ok res then lint_receipt_of res else None) of
              None \<Rightarrow> Inr (receipts, rejected @ [(p, LintRejected (raw_cluster raw) (lint_errors res))], seen)
            | Some rec \<Rightarrow>
                if cr_cluster rec \<in> set seen
                then Inr (receipts, rejected @ [(p, DuplicateMaster (cr_cluster rec))], seen)
                else Inr (receipts @ [raw], rejected, cr_cluster rec # seen))"

definition collect_receipts :: "string \<Rightarrow> (string \<times> pyval result) list \<Rightarrow> string \<Rightarrow> int \<Rightarrow> triad_doc result" where
  "collect_receipts now files repo quorum =
     rbind (rfold collect_receipt files ([], [], [])) (\<lambda>(receipts, rejected, _).
       Inr \<lparr>td_repo = repo, td_quorum = quorum, td_receipts = receipts, td_rejected = rejected, td_collected_at = now\<rparr>)"

section \<open>Counting the votes\<close>

text \<open>The receipts that may vote: well-formed and not fenced.\<close>

definition voter :: "pyval \<Rightarrow> ClusterReceipt option" where
  "voter raw =
     (let res = lint_receipt raw in
      case (if lint_ok res then lint_receipt_of res else None) of
        None \<Rightarrow> None | Some rec \<Rightarrow> if cr_koe_id rec = None then Some rec else None)"

definition voters :: "pyval list \<Rightarrow> ClusterReceipt list" where
  "voters receipts = List.map_filter voter receipts"

definition for_root :: "string \<Rightarrow> ClusterReceipt list \<Rightarrow> ClusterReceipt list" where
  "for_root rt recs = filter (\<lambda>r. cr_state_root r = rt) recs"

definition tally :: "ClusterReceipt list \<Rightarrow> (string, ClusterReceipt list) dict \<Rightarrow> bool" where
  "tally recs by_state \<longleftrightarrow>
     dwf by_state \<and> (\<forall>rt. dget by_state rt = (if for_root rt recs = [] then None else Some (for_root rt recs)))"

lemma tally_nil: "tally [] []"
  by (simp add: tally_def for_root_def)

lemma tally_add: "tally recs d \<Longrightarrow> tally (recs @ [r]) (group_add d (cr_state_root r) r)"
  by (auto simp: tally_def group_add_def for_root_def dgetdef_def)

lemma count_votes:
  assumes "fold count_vote (enumerate n receipts) (sick, by_state, reasons) = (sick', by_state', reasons')" "tally recs by_state"
  shows "tally (recs @ voters receipts) by_state' \<and> length sick' + length (voters receipts) = length sick + length receipts"
  using assms
proof (induction receipts arbitrary: n sick by_state reasons recs)
  case Nil
  then show ?case by (simp add: voters_def map_filter_simps)
next
  case (Cons raw receipts)
  obtain sick1 by1 reasons1 where one: "count_vote (n, raw) (sick, by_state, reasons) = (sick1, by1, reasons1)"
    by (metis prod.exhaust)
  have rest: "fold count_vote (enumerate (Suc n) receipts) (sick1, by1, reasons1) = (sick', by_state', reasons')"
    using Cons.prems(1) one by simp
  show ?case
  proof (cases "voter raw")
    case None
    then have "by1 = by_state" "length sick1 = Suc (length sick)"
      using one by (auto simp: count_vote_def voter_def Let_def split: option.splits if_splits)
    with Cons.IH [OF rest] Cons.prems(2) None show ?thesis by (auto simp: voters_def map_filter_simps)
  next
    case (Some r)
    then have b: "by1 = group_add by_state (cr_state_root r) r" "sick1 = sick"
      using one by (auto simp: count_vote_def voter_def Let_def split: option.splits if_splits)
    have "tally (recs @ [r]) by1" unfolding b(1) by (rule tally_add [OF Cons.prems(2)])
    from Cons.IH [OF rest this] Some b(2) show ?thesis by (auto simp: voters_def map_filter_simps)
  qed
qed

lemma first_max: "first_max f b xs \<in> insert b (set xs) \<and> (\<forall>y \<in> insert b (set xs). f y \<le> f (first_max f b xs))"
proof (induction xs arbitrary: b)
  case (Cons x xs)
  from Cons.IH [of "if f b < f x then x else b"] show ?case by (auto split: if_splits)
qed simp

lemma tally_keys: "tally recs d \<Longrightarrow> rt \<in> set (dkeys d) \<longleftrightarrow> for_root rt recs \<noteq> []"
  unfolding tally_def by (metis dget_None_iff option.distinct(1))

lemma tally_get: "tally recs d \<Longrightarrow> dgetdef d rt [] = for_root rt recs"
  by (auto simp: tally_def dgetdef_def)

lemma winner_spec:
  assumes "tally recs d"
  shows "case winner d quorum of
           None \<Rightarrow> \<forall>rt. for_root rt recs \<noteq> [] \<longrightarrow> int (length (for_root rt recs)) < quorum
         | Some w \<Rightarrow> for_root w recs \<noteq> [] \<and> quorum \<le> int (length (for_root w recs)) \<and>
             (\<forall>rt. length (for_root rt recs) \<le> length (for_root w recs))"
proof (cases "sort (dkeys d)")
  case Nil
  then have "dkeys d = []" by (metis length_0_conv length_sort)
  with Nil tally_keys [OF assms] show ?thesis by (simp add: winner_def)
next
  case (Cons r rs)
  let ?f = "\<lambda>r. length (dgetdef d r [])" and ?w = "first_max (\<lambda>r. length (dgetdef d r [])) r rs"
  have keys: "insert r (set rs) = set (dkeys d)" by (metis Cons list.simps(15) set_sort)
  have w: "?w \<in> set (dkeys d)" "\<And>y. y \<in> set (dkeys d) \<Longrightarrow> ?f y \<le> ?f ?w"
    using first_max [of ?f r rs] keys by auto
  have ne: "for_root ?w recs \<noteq> []" using w(1) tally_keys [OF assms] by blast
  have le: "length (for_root rt recs) \<le> length (for_root ?w recs)" for rt
    using w(2) [of rt] tally_keys [OF assms, of rt] by (cases "for_root rt recs = []") (auto simp: tally_get [OF assms])
  show ?thesis
  proof (cases "int (length (for_root ?w recs)) < quorum")
    case True
    then have "int (length (for_root rt recs)) < quorum" for rt using le [of rt] by linarith
    with Cons True show ?thesis by (simp add: winner_def tally_get [OF assms])
  qed (use Cons ne le in \<open>simp add: winner_def tally_get [OF assms]\<close>)
qed

lemma tally_total:
  "dwf d \<Longrightarrow> (\<And>rt g. (rt, g) \<in> set d \<Longrightarrow> g = for_root rt recs) \<Longrightarrow> (\<And>r. r \<in> set recs \<Longrightarrow> cr_state_root r \<in> set (dkeys d)) \<Longrightarrow>
     sum_list (map (\<lambda>g. length (snd g)) d) = length recs"
proof (induction d arbitrary: recs)
  case Nil
  then show ?case by (cases recs) (auto simp: dkeys_def)
next
  case (Cons q d)
  obtain rt g where q: "q = (rt, g)" by fastforce
  let ?rest = "filter (\<lambda>r. cr_state_root r \<noteq> rt) recs"
  have rt: "rt \<notin> set (dkeys d)" "dwf d" using Cons.prems(1) q by (simp_all add: dwf_def dkeys_def)
  have "sum_list (map (\<lambda>g. length (snd g)) d) = length ?rest"
  proof (rule Cons.IH [OF rt(2)])
    fix rt' g' assume a: "(rt', g') \<in> set d"
    then have "rt' \<noteq> rt" using rt(1) by (auto simp: dkeys_def intro: rev_image_eqI)
    then have "for_root rt' ?rest = for_root rt' recs" by (auto simp: for_root_def intro: filter_cong)
    with Cons.prems(2) [of rt' g'] a show "g' = for_root rt' ?rest" by simp
  next
    fix r assume "r \<in> set ?rest"
    with Cons.prems(3) [of r] q show "cr_state_root r \<in> set (dkeys d)" by (auto simp: dkeys_def)
  qed
  moreover have "length g = length (for_root rt recs)" using Cons.prems(2) [of rt g] q by simp
  moreover have "length (for_root rt recs) + length ?rest = length recs"
    using sum_length_filter_compl [of "\<lambda>r. cr_state_root r = rt" recs] by (simp add: for_root_def)
  ultimately show ?case by (simp add: q)
qed

lemma tally_sum: "tally recs d \<Longrightarrow> sum_list (map (\<lambda>g. length (snd g)) d) = length recs"
proof (rule tally_total)
  assume t: "tally recs d"
  then show "dwf d" by (simp add: tally_def)
  show "\<And>rt g. (rt, g) \<in> set d \<Longrightarrow> g = for_root rt recs"
    using t dget_in_dwf [of d] by (fastforce simp: tally_def split: if_splits)
  show "cr_state_root r \<in> set (dkeys d)" if "r \<in> set recs" for r
    using that by (auto simp: tally_keys [OF t] for_root_def filter_empty_conv)
qed

section \<open>Properties\<close>

lemma assess_votes:
  obtains sick by_state reasons where
    "fold count_vote (enumerate 0 receipts) ([], [], []) = (sick, by_state, reasons)"
    "tally (voters receipts) by_state" "length sick + length (voters receipts) = length receipts"
proof -
  obtain sick by_state reasons where f: "fold count_vote (enumerate 0 receipts) ([], [], []) = (sick, by_state, reasons)"
    by (metis prod.exhaust)
  from count_votes [OF f tally_nil] f that show thesis by auto
qed

lemma length_diverged [simp]: "length (diverged g) = length (snd g)" "length (unreconciled g) = length (snd g)"
  by (simp_all add: diverged_def unreconciled_def)

lemma sum_list_filter_key:
  "dwf d \<Longrightarrow> dget d k = Some v \<Longrightarrow>
     sum_list (map (\<lambda>g. length (snd g)) (filter (\<lambda>g. fst g \<noteq> k) d)) + length v = sum_list (map (\<lambda>g. length (snd g)) d)"
proof (induction d)
  case (Cons q d)
  obtain a b where q: "q = (a, b)" by fastforce
  show ?case
  proof (cases "a = k")
    case True
    then have "filter (\<lambda>g. fst g \<noteq> k) d = d"
      using Cons.prems(1) q by (auto simp: dwf_def dkeys_def filter_id_conv intro: rev_image_eqI)
    with True Cons.prems q show ?thesis by (simp add: dget_def)
  next
    case False
    with Cons q show ?thesis by (simp add: dget_def dwf_def dkeys_def)
  qed
qed (simp add: dget_def)

lemma sum_list_mset_cong: "mset xs = mset ys \<Longrightarrow> sum_list xs = (sum_list ys :: nat)"
  by (metis sum_mset_sum_list)

lemma assess_triad_verdict:
  fixes receipts :: "pyval list" and quorum :: int
  defines "recs \<equiv> voters receipts" and "a \<equiv> assess_triad receipts quorum"
  shows "length (healthy_clusters a) + length (sick_clusters a) = length receipts \<and>
    (if quorum_ok a then
       \<exists>rt r. canonical_state_root a = Some rt \<and> quorum \<le> int (length (for_root rt recs)) \<and>
         (\<forall>other. length (for_root other recs) \<le> length (for_root rt recs)) \<and>
         healthy_clusters a = map cr_cluster (for_root rt recs) \<and>
         r \<in> set (for_root rt recs) \<and> canonical_commit a = Some (cr_commit r) \<and>
         (int (length receipts) < 2 * quorum \<longrightarrow>
            (\<forall>other. quorum \<le> int (length (for_root other recs)) \<longrightarrow> other = rt))
     else canonical_commit a = None \<and> canonical_state_root a = None \<and>
       (\<forall>rt. for_root rt recs \<noteq> [] \<longrightarrow> int (length (for_root rt recs)) < quorum))"
proof -
  obtain sick by_state reasons where f: "fold count_vote (enumerate 0 receipts) ([], [], []) = (sick, by_state, reasons)"
    and t': "tally (voters receipts) by_state" and l': "length sick + length (voters receipts) = length receipts"
    by (rule assess_votes)
  note t = t' [folded recs_def] and l = l' [folded recs_def]
  note W = winner_spec [OF t, of quorum]
  show ?thesis
  proof (cases "winner by_state quorum")
    case None
    have "sum_list (map (\<lambda>g. length (snd g)) (sort_key fst by_state)) = sum_list (map (\<lambda>g. length (snd g)) by_state)"
      by (rule sum_list_mset_cong) simp
    then have "sum_list (map (\<lambda>g. length (snd g)) (sort_key fst by_state)) = length recs"
      using tally_sum [OF t] by simp
    with None W f l show ?thesis
      by (simp add: a_def assess_triad_def Let_def length_concat comp_def)
  next
    case (Some w)
    have g: "dget by_state w = Some (for_root w recs)" "dwf by_state" using W Some t by (auto simp: tally_def)
    have sum: "sum_list (map (\<lambda>g. length (snd g)) (filter (\<lambda>g. fst g \<noteq> w) by_state)) + length (for_root w recs) = length recs"
      using sum_list_filter_key [OF g(2,1)] tally_sum [OF t] by simp
    have uniq: "other = w" if "int (length receipts) < 2 * quorum" "quorum \<le> int (length (for_root other recs))" for other
    proof (rule ccontr)
      assume "other \<noteq> w"
      then have "length (for_root w recs) + length (for_root other recs) \<le> length recs"
        unfolding for_root_def by (induction recs) auto
      with W Some that l show False by simp
    qed
    have "hd (for_root w recs) \<in> set (for_root w recs)" using W Some by simp
    then show ?thesis
      using Some W f l sum uniq
      by (auto simp: a_def assess_triad_def Let_def length_concat comp_def tally_get [OF t] intro: hd_in_set)
  qed
qed

lemma voters_Cons: "voters (raw # rs) = (case voter raw of None \<Rightarrow> voters rs | Some rec \<Rightarrow> rec # voters rs)"
  by (simp add: voters_def map_filter_simps split: option.split)

text \<open>A well-formed receipt of a given master for a given state.\<close>

definition sample_receipt :: "string \<Rightarrow> char \<Rightarrow> (string, pyval) dict" where
  "sample_receipt cluster c =
     [(''cluster'', VStr cluster), (''receipt_id'', VStr ''urn:lz:rie:000001''),
      (''issued_at'', VStr ''2026-01-01T00:00:00Z''), (''state_root'', VStr (''sha256:'' @ replicate 64 c)),
      (''commit'', VStr ''0123abc''), (''writer_principal'', VStr ''did:web:w''),
      (''replica_principal'', VStr ''did:web:r''), (''quorum_sigs'', VList [VStr (''bls:'' @ replicate 96 c)])]"

definition sample_record :: "string \<Rightarrow> char \<Rightarrow> ClusterReceipt" where
  "sample_record cluster c =
     \<lparr>cr_cluster = cluster, cr_receipt_id = ''urn:lz:rie:000001'', cr_issued_at = ''2026-01-01T00:00:00Z'',
      cr_state_root = ''sha256:'' @ replicate 64 c, cr_commit = ''0123abc'', cr_writer_principal = ''did:web:w'',
      cr_replica_principal = ''did:web:r'', cr_quorum_sigs = [VStr (''bls:'' @ replicate 96 c)], cr_koe_id = None\<rparr>"

lemma rng_exact: "length w = n \<Longrightarrow> list_all p w \<Longrightarrow> rng_rems n (Some n) p w = [[]]"
proof -
  assume w: "length w = n" "list_all p w"
  then have tw: "takeWhile p w = w" by (simp add: list_all_iff takeWhile_eq_all_conv)
  show ?thesis unfolding rng_rems_def tw w(1) Let_def option.case using w(1) by simp
qed

lemma sample_tokens:
  assumes "hex_lower c"
  shows "pat_match RE_SHA256 (''sha256:'' @ replicate 64 c)" "pat_match RE_BLS_SIG (''bls:'' @ replicate 96 c)"
    "pat_match RE_LZ_ID ''urn:lz:rie:000001''" "pat_match RE_TIME ''2026-01-01T00:00:00Z''"
    "pat_match RE_GIT_SHA ''0123abc''" "pat_match RE_DID ''did:web:w''" "pat_match RE_DID ''did:web:r''"
proof -
  have w: "list_all hex_lower (replicate n c)" for n using assms by (simp add: list_all_length)
  show "pat_match RE_SHA256 (''sha256:'' @ replicate 64 c)"
    using rng_exact [OF _ w [of 64], of 64] by (simp add: pat_match_def RE_SHA256_def startswith_def)
  have "rng_rems 96 (Some 96) hex_lower (replicate 96 c) = [[]]" by (rule rng_exact [OF _ w]) simp
  then show "pat_match RE_BLS_SIG (''bls:'' @ replicate 96 c)"
    by (simp add: pat_match_def RE_BLS_SIG_def startswith_def)
  show "pat_match RE_LZ_ID ''urn:lz:rie:000001''" "pat_match RE_TIME ''2026-01-01T00:00:00Z''"
    "pat_match RE_GIT_SHA ''0123abc''" "pat_match RE_DID ''did:web:w''" "pat_match RE_DID ''did:web:r''"
    by code_simp+
qed

lemma sample_lints:
  assumes "pat_match RE_DID cluster" "hex_lower c"
  shows "lint_receipt (VDict (sample_receipt cluster c))
     = \<lparr>lint_ok = True, lint_receipt_of = Some (sample_record cluster c), lint_errors = []\<rparr>"
  using assms(1) sample_tokens [OF assms(2)]
  by (simp add: lint_receipt_def sample_receipt_def sample_record_def check_field_def check_sigs_def sig_ok_def
      dgetdef_def dget_def)

lemma sample_dids: "pat_match RE_DID ''did:web:a''" "pat_match RE_DID ''did:web:b''" "hex_lower CHR ''0''" "hex_lower CHR ''1''"
  by code_simp+




text \<open>
  The collector's invariant: it keeps only receipts that lint, one for each master.
\<close>

definition receipts_inv ::
    "(string \<times> pyval result) list \<Rightarrow> nat \<Rightarrow> pyval list \<times> (string \<times> receipt_rejection) list \<times> string list \<Rightarrow> bool" where
  "receipts_inv files n st \<longleftrightarrow>
     (case st of (receipts, rejected, seen) \<Rightarrow>
        (\<forall>r \<in> set receipts. lint_ok (lint_receipt r) \<and> (\<exists>p. (p, Inr r) \<in> set files)) \<and>
        map (\<lambda>r. Some (VStr r)) (rev seen) = map (\<lambda>r. Some (raw_cluster r)) receipts \<and> distinct seen \<and>
        length receipts + length rejected = n)"

lemma lint_ok_receipt:
  assumes "lint_ok (lint_receipt raw)"
  obtains rec where "lint_receipt_of (lint_receipt raw) = Some rec" "raw_cluster raw = VStr (cr_cluster rec)" "receipt_wf rec"
proof -
  from lint_receipt_sound [OF assms] obtain d r where
    "raw = VDict d" "lint_receipt raw = \<lparr>lint_ok = True, lint_receipt_of = Some r, lint_errors = []\<rparr>"
    "receipt_wf r" "dget d ''cluster'' = Some (VStr (cr_cluster r))" by blast
  with that show thesis by (simp add: raw_cluster_def dgetdef_def)
qed

lemma collect_receipt_inv:
  assumes "file \<in> set files" "receipts_inv files n st" "collect_receipt file st = Inr st'"
  shows "receipts_inv files (Suc n) st'"
proof -
  obtain p outcome receipts rejected seen where f: "file = (p, outcome)" "st = (receipts, rejected, seen)"
    by (metis prod.exhaust)
  show ?thesis
  proof (cases outcome)
    case (Inl e)
    with assms f show ?thesis by (auto simp: collect_receipt_def receipts_inv_def split: if_splits)
  next
    case (Inr raw)
    show ?thesis
    proof (cases "lint_ok (lint_receipt raw)")
      case False
      with assms f Inr show ?thesis by (auto simp: collect_receipt_def receipts_inv_def Let_def)
    next
      case True
      then obtain rec where rec: "lint_receipt_of (lint_receipt raw) = Some rec" "raw_cluster raw = VStr (cr_cluster rec)"
        by (rule lint_ok_receipt)
      with assms f Inr True show ?thesis
        by (auto simp: collect_receipt_def receipts_inv_def Let_def split: if_splits)
    qed
  qed
qed

lemma voter_Some:
  assumes "voter raw = Some rec" shows "raw_cluster raw = VStr (cr_cluster rec)" and "receipt_wf rec"
proof -
  have ok: "lint_ok (lint_receipt raw)" and r: "lint_receipt_of (lint_receipt raw) = Some rec"
    using assms by (auto simp: voter_def Let_def split: option.splits if_splits)
  obtain rec' where "lint_receipt_of (lint_receipt raw) = Some rec'" "raw_cluster raw = VStr (cr_cluster rec')" "receipt_wf rec'"
    using ok by (rule lint_ok_receipt)
  with r show "raw_cluster raw = VStr (cr_cluster rec)" "receipt_wf rec" by auto
qed

lemma voters_sub: "VStr ` cr_cluster ` set (voters rs) \<subseteq> raw_cluster ` set rs"
proof (induction rs)
  case (Cons raw rs)
  show ?case
  proof (cases "voter raw")
    case None
    with Cons show ?thesis by (auto simp: voters_Cons)
  next
    case (Some rec)
    with Cons voter_Some(1) [OF Some] show ?thesis by (auto simp: voters_Cons)
  qed
qed (simp add: voters_def map_filter_simps)

lemma voters_distinct: "distinct (map raw_cluster receipts) \<Longrightarrow> distinct (map cr_cluster (voters receipts))"
proof (induction receipts)
  case (Cons raw receipts)
  show ?case
  proof (cases "voter raw")
    case None
    with Cons show ?thesis by (simp add: voters_Cons)
  next
    case (Some rec)
    have "cr_cluster rec \<notin> cr_cluster ` set (voters receipts)"
    proof
      assume "cr_cluster rec \<in> cr_cluster ` set (voters receipts)"
      then have "raw_cluster raw \<in> raw_cluster ` set receipts"
        using voters_sub [of receipts] voter_Some(1) [OF Some] by (auto simp: image_subset_iff)
      with Cons.prems show False by simp
    qed
    with Some Cons show ?thesis by (simp add: voters_Cons)
  qed
qed (simp add: voters_def map_filter_simps)

lemma collected_receipts:
  assumes "collect_receipts now files repo quorum = Inr doc"
  shows "(\<forall>r \<in> set (td_receipts doc). lint_ok (lint_receipt r) \<and> (\<exists>p. (p, Inr r) \<in> set files))"
    and "distinct (map raw_cluster (td_receipts doc))"
    and "length (td_receipts doc) + length (td_rejected doc) = length files"
proof -
  obtain receipts rejected seen where f: "rfold collect_receipt files ([], [], []) = Inr (receipts, rejected, seen)"
    and d: "td_receipts doc = receipts" "td_rejected doc = rejected"
    using assms by (auto simp: collect_receipts_def rbind_eq_Inr)
  have inv: "receipts_inv files (length files) (receipts, rejected, seen)"
    by (rule rfold_invariant [OF f]) (simp add: receipts_inv_def, rule collect_receipt_inv)
  then show "\<forall>r \<in> set (td_receipts doc). lint_ok (lint_receipt r) \<and> (\<exists>p. (p, Inr r) \<in> set files)"
    "length (td_receipts doc) + length (td_rejected doc) = length files"
    using d by (auto simp: receipts_inv_def)
  have "map raw_cluster receipts = map VStr (rev seen)"
    using inv by (auto simp: receipts_inv_def comp_def dest!: arg_cong [of _ _ "map the"])
  then show "distinct (map raw_cluster (td_receipts doc))"
    using inv d by (simp add: receipts_inv_def distinct_map inj_on_def)
qed

text \<open>
  No master votes twice through the collector. When the collected receipts are assessed and a
  state reaches the quorum, at least quorum many differently named masters stand behind it, each
  with a receipt of the grammar whose writer and attestor differ.
\<close>

theorem collected_quorum_is_distinct:
  assumes "collect_receipts now files repo quorum = Inr doc"
    and "quorum_ok (assess_triad (td_receipts doc) (td_quorum doc))"
  shows "distinct (healthy_clusters (assess_triad (td_receipts doc) (td_quorum doc))) \<and>
         quorum \<le> int (length (healthy_clusters (assess_triad (td_receipts doc) (td_quorum doc)))) \<and>
         (\<forall>rec \<in> set (voters (td_receipts doc)). receipt_wf rec)"
proof -
  have q: "td_quorum doc = quorum" using assms(1) by (auto simp: collect_receipts_def rbind_eq_Inr)
  have d: "distinct (map cr_cluster (voters (td_receipts doc)))"
    by (rule voters_distinct [OF collected_receipts(2) [OF assms(1)]])
  obtain rt where rt: "healthy_clusters (assess_triad (td_receipts doc) quorum) = map cr_cluster (for_root rt (voters (td_receipts doc)))"
    "quorum \<le> int (length (for_root rt (voters (td_receipts doc))))"
    using assess_triad_verdict [of "td_receipts doc" quorum] assms(2) q by auto
  have "receipt_wf rec" if "rec \<in> set (voters (td_receipts doc))" for rec
  proof -
    from that obtain raw where "voter raw = Some rec"
      by (auto simp: voters_def List.map_filter_def)
    then show ?thesis by (rule voter_Some(2))
  qed
  with rt d q show ?thesis by (auto simp: for_root_def intro: distinct_map_filter)
qed

lemma lint_renamed:
  assumes "lint_receipt (VDict d) = \<lparr>lint_ok = True, lint_receipt_of = Some r, lint_errors = []\<rparr>" "pat_match RE_DID c"
  shows "lint_receipt (VDict (dset d ''cluster'' (VStr c)))
    = \<lparr>lint_ok = True, lint_receipt_of = Some (r\<lparr>cr_cluster := c\<rparr>), lint_errors = []\<rparr>"
proof -
  have other: "check_field (dset d ''cluster'' (VStr c)) n p b = check_field d n p b" if "n \<noteq> ''cluster''" for n p b
    using that by (simp add: check_field_def dgetdef_def)
  have new: "check_field (dset d ''cluster'' (VStr c)) ''cluster'' RE_DID True = (Some c, [])"
    using assms(2) by (simp add: check_field_def dgetdef_def)
  have sigs: "dgetdef (dset d ''cluster'' (VStr c)) ''quorum_sigs'' v = dgetdef d ''quorum_sigs'' v" for v
    by (simp add: dgetdef_def)
  show ?thesis
    using assms(1)
    by (auto simp: lint_receipt_def lint_failed_def other new sigs split_beta Let_def split: if_splits)
qed

lemma two_votes:
  assumes "voters receipts = [r, r']" "cr_state_root r = cr_state_root r'"
  shows "quorum_ok (assess_triad receipts 2)"
proof (rule ccontr)
  assume "\<not> quorum_ok (assess_triad receipts 2)"
  then have "\<forall>rt. for_root rt (voters receipts) \<noteq> [] \<longrightarrow> int (length (for_root rt (voters receipts))) < 2"
    using assess_triad_verdict [of receipts 2] by presburger
  from this [rule_format, of "cr_state_root r"] assms show False by (simp add: for_root_def)
qed

text \<open>
  One master can reach the quorum alone. A receipt that lints and is not fenced can be replayed
  with a newline appended to its cluster name: the copy also lints, the collector keeps both, and
  the two votes reach a quorum of two.
\<close>

theorem newline_replay_reaches_quorum:
  assumes "lint_receipt (VDict d) = \<lparr>lint_ok = True, lint_receipt_of = Some r, lint_errors = []\<rparr>"
    and "cr_koe_id r = None" "last (cr_cluster r) \<noteq> newline"
  shows "\<exists>doc. collect_receipts now
            [(p, Inr (VDict d)), (q, Inr (VDict (dset d ''cluster'' (VStr (cr_cluster r @ [newline])))))] repo 2 = Inr doc \<and>
           quorum_ok (assess_triad (td_receipts doc) (td_quorum doc))"
proof -
  let ?d' = "dset d ''cluster'' (VStr (cr_cluster r @ [newline]))"
  have "pat_match RE_DID (cr_cluster r)"
    using lint_receipt_sound [of "VDict d"] assms(1) by (auto simp: receipt_wf_def)
  then have "pat_match RE_DID (cr_cluster r @ [newline])" using assms(3) by (intro newline_variant) auto
  note l' = lint_renamed [OF assms(1) this]
  have "collect_receipts now [(p, Inr (VDict d)), (q, Inr (VDict ?d'))] repo 2
      = Inr \<lparr>td_repo = repo, td_quorum = 2, td_receipts = [VDict d, VDict ?d'], td_rejected = [], td_collected_at = now\<rparr>"
    by (simp add: collect_receipts_def collect_receipt_def assms(1) l')
  moreover have "voters [VDict d, VDict ?d'] = [r, r\<lparr>cr_cluster := cr_cluster r @ [newline]\<rparr>]"
    by (simp add: voters_def map_filter_simps voter_def assms(1,2) l')
  then have "quorum_ok (assess_triad [VDict d, VDict ?d'] 2)" by (rule two_votes) simp
  ultimately show ?thesis by simp
qed

theorem newline_replay_reaches_quorum_witness:
  "\<exists>doc. collect_receipts ''t'' [(''p'', Inr (VDict (sample_receipt ''did:web:a'' CHR ''0''))),
      (''q'', Inr (VDict (dset (sample_receipt ''did:web:a'' CHR ''0'') ''cluster'' (VStr (''did:web:a'' @ [newline])))))] ''repo'' 2 = Inr doc \<and>
     quorum_ok (assess_triad (td_receipts doc) (td_quorum doc))"
proof -
  have "CHR ''a'' \<noteq> newline" by code_simp
  with newline_replay_reaches_quorum [OF sample_lints [OF sample_dids(1,3)], of "''t''" "''p''" "''q''" "''repo''"]
  show ?thesis by (simp add: sample_record_def)
qed

theorem collected_quorum_is_distinct_witness:
  "\<exists>doc. collect_receipts ''t'' [(''p'', Inr (VDict (sample_receipt ''did:web:a'' CHR ''0''))),
      (''q'', Inr (VDict (sample_receipt ''did:web:b'' CHR ''0''))), (''r'', Inr (VDict (sample_receipt ''did:web:b'' CHR ''0'')))] ''repo'' 2 = Inr doc \<and>
     distinct (healthy_clusters (assess_triad (td_receipts doc) (td_quorum doc)))"
proof -
  let ?a = "VDict (sample_receipt ''did:web:a'' CHR ''0'')" and ?b = "VDict (sample_receipt ''did:web:b'' CHR ''0'')"
  let ?doc = "\<lparr>td_repo = ''repo'', td_quorum = 2, td_receipts = [?a, ?b], td_rejected = [(''r'', DuplicateMaster ''did:web:b'')],
     td_collected_at = ''t''\<rparr>"
  have c: "collect_receipts ''t'' [(''p'', Inr ?a), (''q'', Inr ?b), (''r'', Inr ?b)] ''repo'' 2 = Inr ?doc"
    by (simp add: collect_receipts_def collect_receipt_def sample_lints sample_dids)
       (simp add: sample_record_def)
  have "voters [?a, ?b] = [sample_record ''did:web:a'' CHR ''0'', sample_record ''did:web:b'' CHR ''0'']"
    by (simp add: voters_def map_filter_simps voter_def sample_lints sample_dids) (simp add: sample_record_def)
  then have "quorum_ok (assess_triad (td_receipts ?doc) (td_quorum ?doc))"
    using two_votes [of "[?a, ?b]"] by (simp add: sample_record_def)
  with collected_quorum_is_distinct [OF c] c show ?thesis by blast
qed

end
