(* ===== verification/Triad_Rotation.thy ===== *)
theory Triad_Rotation
  imports Storage_Placement
begin

text \<open>
  \<open>automation/triad_rotation.py\<close>: the rotating role assignment of the three masters, the epoch of
  a time, the schedule and its check against receipts. Times are exact rationals (a period or a
  phase read from the registry that is not finite is not represented). \<open>parse_iso_z\<close> follows
  \<open>datetime.strptime\<close>: fields of one or two digits, the two letters in either case, and the
  proleptic Gregorian calendar.
\<close>

section \<open>The rotation\<close>

record Assignment =
  as_epoch :: int
  leader :: string
  attestor :: string
  witness :: string

definition writer_replica :: "Assignment \<Rightarrow> string \<times> string" where
  "writer_replica a = (leader a, attestor a)"

definition rotate :: "string list \<Rightarrow> int \<Rightarrow> int \<Rightarrow> Assignment result" where
  "rotate masters epoch step =
     (if length masters \<noteq> 3 \<or> card (set masters) \<noteq> 3 then Inl ValueError
      else if step mod 3 = 0 then Inl ValueError
      else
        let shift = (epoch * step) mod 3;
            order = map (\<lambda>i. masters ! nat ((i + shift) mod 3)) [0, 1, 2] in
        Inr \<lparr>as_epoch = epoch, leader = order ! 0, attestor = order ! 1, witness = order ! 2\<rparr>)"

definition epoch_for_time :: "rat \<Rightarrow> rat \<Rightarrow> rat \<Rightarrow> int result" where
  "epoch_for_time t period_s phase_s = (if period_s \<le> 0 then Inl ValueError else Inr \<lfloor>(t - phase_s) / period_s\<rfloor>)"

definition leader_counts :: "string list \<Rightarrow> int list \<Rightarrow> int \<Rightarrow> (string, int) dict result" where
  "leader_counts masters epochs step =
     rfold (\<lambda>e counts. rbind (rotate masters e step) (\<lambda>a. Inr (dset counts (leader a) (dgetdef counts (leader a) 0 + 1))))
       epochs (fold (\<lambda>m d. dset d m 0) masters [])"

record RotationSchedule =
  sch_masters :: "string list"
  sch_period_s :: rat
  sch_step :: int
  sch_phase_s :: rat

definition at_epoch :: "RotationSchedule \<Rightarrow> int \<Rightarrow> Assignment result" where
  "at_epoch s epoch = rotate (sch_masters s) epoch (sch_step s)"

definition at_time :: "RotationSchedule \<Rightarrow> rat \<Rightarrow> Assignment result" where
  "at_time s t = rbind (epoch_for_time t (sch_period_s s) (sch_phase_s s)) (at_epoch s)"

section \<open>Timestamps\<close>

definition is_leap :: "int \<Rightarrow> bool" where
  "is_leap y \<longleftrightarrow> y mod 4 = 0 \<and> (y mod 100 \<noteq> 0 \<or> y mod 400 = 0)"

definition days_in_month :: "int \<Rightarrow> int \<Rightarrow> int" where
  "days_in_month y m = (if m = 2 then (if is_leap y then 29 else 28) else if m \<in> {4, 6, 9, 11} then 30 else 31)"

definition days_before_year :: "int \<Rightarrow> int" where
  "days_before_year y = (let z = y - 1 in z * 365 + z div 4 - z div 100 + z div 400)"

definition to_ordinal :: "int \<Rightarrow> int \<Rightarrow> int \<Rightarrow> int" where
  "to_ordinal y m d = days_before_year y + sum_list (map (days_in_month y) [1..m - 1]) + d"

text \<open>A field of one or two digits with a value in the range; the first digits are read greedily.\<close>

definition p_field :: "int \<Rightarrow> int \<Rightarrow> string \<Rightarrow> (int \<times> string) option" where
  "p_field lo hi s =
     (let ds = takeWhile is_digit s; n = length ds; v = int (str_nat ds) in
      if (n = 1 \<or> n = 2) \<and> lo \<le> v \<and> v \<le> hi then Some (v, drop n s) else None)"

definition p_year :: "string \<Rightarrow> (int \<times> string) option" where
  "p_year s =
     (let ds = takeWhile is_digit s in
      if length ds = 4 then Some (int (str_nat ds), drop 4 s) else None)"

definition p_day :: "string \<Rightarrow> (int \<times> string) option" where
  "p_day s =
     (case s of
        c # t \<Rightarrow> if c = CHR '' '' then (if length (takeWhile is_digit t) = 1 then p_field 1 9 t else None) else p_field 1 31 s
      | [] \<Rightarrow> None)"

definition p_char :: "char list \<Rightarrow> string \<Rightarrow> string option" where
  "p_char cs s = (case s of c # t \<Rightarrow> if c \<in> set cs then Some t else None | [] \<Rightarrow> None)"

definition parse_iso :: "string \<Rightarrow> rat option" where
  "parse_iso s =
     Option.bind (p_year s) (\<lambda>(y, s). Option.bind (p_char ''-'' s) (\<lambda>s.
     Option.bind (p_field 1 12 s) (\<lambda>(m, s). Option.bind (p_char ''-'' s) (\<lambda>s.
     Option.bind (p_day s) (\<lambda>(d, s). Option.bind (p_char ''Tt'' s) (\<lambda>s.
     Option.bind (p_field 0 23 s) (\<lambda>(h, s). Option.bind (p_char '':'' s) (\<lambda>s.
     Option.bind (p_field 0 59 s) (\<lambda>(mi, s). Option.bind (p_char '':'' s) (\<lambda>s.
     Option.bind (p_field 0 61 s) (\<lambda>(sec, s). Option.bind (p_char ''Zz'' s) (\<lambda>s.
       if s = [] \<and> 1 \<le> y \<and> d \<le> days_in_month y m \<and> sec \<le> 59
       then Some (of_int ((to_ordinal y m d - 719163) * 86400 + h * 3600 + mi * 60 + sec))
       else None))))))))))))"

definition parse_iso_z :: "pyval \<Rightarrow> rat option" where
  "parse_iso_z ts = (case ts of VStr s \<Rightarrow> parse_iso s | _ \<Rightarrow> None)"

definition scheduled_leader_at :: "RotationSchedule \<Rightarrow> pyval \<Rightarrow> string option result" where
  "scheduled_leader_at schedule issued_at =
     (case parse_iso_z issued_at of
        None \<Rightarrow> Inr None
      | Some t \<Rightarrow> rbind (at_time schedule t) (\<lambda>a. Inr (Some (leader a))))"

datatype schedule_reason = OutOfTurn nat string string

text \<open>\<open>writer in masters\<close> on a set of strings: a list or dict is unhashable.\<close>

definition check_writer :: "RotationSchedule \<Rightarrow> nat \<times> pyval \<Rightarrow> schedule_reason list \<Rightarrow> schedule_reason list result" where
  "check_writer schedule ir reasons =
     (case snd ir of
        VDict d \<Rightarrow>
          let writer = dgetdef d ''writer_principal'' VNone in
          rbind (scheduled_leader_at schedule (dgetdef d ''issued_at'' VNone)) (\<lambda>expected.
            case expected of
              None \<Rightarrow> Inr reasons
            | Some e \<Rightarrow>
                (case writer of
                   VStr w \<Rightarrow> Inr (if w \<in> set (sch_masters schedule) \<and> w \<noteq> e then reasons @ [OutOfTurn (fst ir) w e] else reasons)
                 | VList _ \<Rightarrow> Inl TypeError
                 | VDict _ \<Rightarrow> Inl TypeError
                 | _ \<Rightarrow> Inr reasons))
      | _ \<Rightarrow> Inr reasons)"

definition writers_on_schedule :: "pyval list \<Rightarrow> RotationSchedule \<Rightarrow> (bool \<times> schedule_reason list) result" where
  "writers_on_schedule receipts schedule =
     rbind (rfold (check_writer schedule) (enumerate 0 receipts) []) (\<lambda>reasons. Inr (reasons = [], reasons))"

text \<open>The registry's masters must be strings here; a finite period and phase.\<close>

definition v_rat :: "pyval \<Rightarrow> rat result" where
  "v_rat v = rbind (v_float v) (\<lambda>x. case x of Fin q \<Rightarrow> Inr q | _ \<Rightarrow> Inl OtherError)"

definition v_str :: "pyval \<Rightarrow> string result" where
  "v_str v = (case v of VStr s \<Rightarrow> Inr s | _ \<Rightarrow> Inl OtherError)"

definition load_schedule :: "pyval result \<Rightarrow> RotationSchedule result" where
  "load_schedule reg =
     rbind (registry_data reg) (\<lambda>data.
     rbind (vget data ''masters'' VNone) (\<lambda>ms.
     rbind (case v_or ms (VList []) of VList vs \<Rightarrow> rmap v_str vs | _ \<Rightarrow> Inl OtherError) (\<lambda>masters.
     if length masters \<noteq> 3 \<or> card (set masters) \<noteq> 3 then Inl ValueError
     else
       rbind (rbind (vget data ''step'' (VInt 1)) v_int) (\<lambda>step.
       rbind (rbind (vget data ''period_s'' (VInt 0)) v_rat) (\<lambda>period.
       rbind (rotate masters 0 step) (\<lambda>_.
       rbind (rbind (vget data ''phase_s'' (VFloat (Fin 0))) v_rat) (\<lambda>phase.
         Inr \<lparr>sch_masters = masters, sch_period_s = period, sch_step = step, sch_phase_s = phase\<rparr>)))))))"

section \<open>Evenness\<close>

lemma triad_cases:
  assumes "length masters = 3" "card (set masters) = 3"
  obtains x y z where "masters = [x, y, z]" "x \<noteq> y" "y \<noteq> z" "x \<noteq> z"
proof -
  obtain x y z where m: "masters = [x, y, z]"
    using assms(1) by (auto simp: numeral_3_eq_3 length_Suc_conv)
  have "distinct masters" using assms by (simp add: card_distinct)
  with m that show thesis by auto
qed

lemma mod3_cases: "(i :: int) mod 3 = 0 \<or> i mod 3 = 1 \<or> i mod 3 = 2"
  by presburger

lemma rotate_shift:
  assumes "length masters = 3" "card (set masters) = 3" "step mod 3 \<noteq> 0"
  shows "rotate masters epoch step = Inr
    (let s = (epoch * step) mod 3 in
     \<lparr>as_epoch = epoch, leader = masters ! nat s, attestor = masters ! nat ((1 + s) mod 3), witness = masters ! nat ((2 + s) mod 3)\<rparr>)"
  using assms by (simp add: rotate_def Let_def)

lemma turn_shifts:
  assumes "(step :: int) mod 3 \<noteq> 0"
  obtains s r where "s = 0 \<or> s = 1 \<or> s = 2" "r = 1 \<or> r = 2" "(e * step) mod 3 = s"
    "((e + 1) * step) mod 3 = (s + r) mod 3" "((e + 2) * step) mod 3 = (s + 2 * r) mod 3"
proof
  have shift: "((e + i) * step) mod 3 = ((e * step) mod 3 + i * (step mod 3)) mod 3" for i
  proof -
    have "(e * step + i * step) mod 3 = ((e * step) mod 3 + (i * step) mod 3) mod 3" by (rule mod_add_eq [symmetric])
    also have "(i * step) mod 3 = (i * (step mod 3)) mod 3" by (rule mod_mult_right_eq [symmetric])
    finally show ?thesis by (simp only: distrib_right mod_add_right_eq)
  qed
  show "(e * step) mod 3 = 0 \<or> (e * step) mod 3 = 1 \<or> (e * step) mod 3 = 2" by (rule mod3_cases)
  show "step mod 3 = 1 \<or> step mod 3 = 2" using assms mod3_cases [of step] by simp
  show "((e + 1) * step) mod 3 = ((e * step) mod 3 + step mod 3) mod 3" using shift [of 1] by simp
  show "((e + 2) * step) mod 3 = ((e * step) mod 3 + 2 * (step mod 3)) mod 3" by (rule shift)
qed simp

section \<open>Properties\<close>

text \<open>
  Triangular evenness. For three distinct masters and a step that is not a multiple of three,
  every epoch (negative ones too) assigns three different masters to the three roles, and over any
  three consecutive epochs each master leads exactly once. Any other input is rejected.
\<close>

theorem rotation_even:
  "(if length masters = 3 \<and> card (set masters) = 3 \<and> step mod 3 \<noteq> 0 then
      (\<exists>a0 a1 a2. rotate masters e step = Inr a0 \<and> rotate masters (e + 1) step = Inr a1 \<and> rotate masters (e + 2) step = Inr a2 \<and>
         distinct [leader a0, attestor a0, witness a0] \<and> set [leader a0, attestor a0, witness a0] = set masters \<and>
         distinct [leader a0, leader a1, leader a2] \<and> set [leader a0, leader a1, leader a2] = set masters)
    else rotate masters e step = Inl ValueError)"
proof (cases "length masters = 3 \<and> card (set masters) = 3 \<and> step mod 3 \<noteq> 0")
  case True
  then obtain x y z where m: "masters = [x, y, z]" "x \<noteq> y" "y \<noteq> z" "x \<noteq> z" using triad_cases by blast
  have ok: "length masters = 3" "card (set masters) = 3" "step mod 3 \<noteq> 0" using True by simp_all
  obtain s r where sr: "s = 0 \<or> s = 1 \<or> s = 2" "r = 1 \<or> r = 2" "(e * step) mod 3 = s"
    "((e + 1) * step) mod 3 = (s + r) mod 3" "((e + 2) * step) mod 3 = (s + 2 * r) mod 3"
    using turn_shifts [OF ok(3)] .
  note R = rotate_shift [OF ok]
  have "\<exists>a0 a1 a2. rotate masters e step = Inr a0 \<and> rotate masters (e + 1) step = Inr a1 \<and> rotate masters (e + 2) step = Inr a2 \<and>
      distinct [leader a0, attestor a0, witness a0] \<and> set [leader a0, attestor a0, witness a0] = set masters \<and>
      distinct [leader a0, leader a1, leader a2] \<and> set [leader a0, leader a1, leader a2] = set masters"
    unfolding R sr(3-5) Let_def using sr(1,2) m by (elim disjE) (simp_all add: insert_commute)
  then show ?thesis unfolding if_P [OF True] .
next
  case False
  then show ?thesis by (auto simp: rotate_def)
qed

definition in_turn :: "RotationSchedule \<Rightarrow> pyval \<Rightarrow> bool" where
  "in_turn schedule r \<longleftrightarrow>
     (case r of
        VDict d \<Rightarrow>
          (case (dgetdef d ''writer_principal'' VNone, scheduled_leader_at schedule (dgetdef d ''issued_at'' VNone)) of
             (VStr w, Inr (Some e)) \<Rightarrow> w \<in> set (sch_masters schedule) \<longrightarrow> w = e
           | _ \<Rightarrow> True)
      | _ \<Rightarrow> True)"

lemma check_writer_reasons:
  assumes "check_writer schedule (i, r) reasons = Inr reasons'"
  shows "reasons' = [] \<longleftrightarrow> reasons = [] \<and> in_turn schedule r"
proof (cases r)
  case (VDict d)
  then obtain expected where x: "scheduled_leader_at schedule (dgetdef d ''issued_at'' VNone) = Inr expected"
    using assms by (auto simp: check_writer_def Let_def rbind_eq_Inr)
  show ?thesis
    using assms VDict x
    by (cases expected; cases "dgetdef d ''writer_principal'' VNone") (auto simp: check_writer_def in_turn_def Let_def split: if_splits)
qed (use assms in \<open>auto simp: check_writer_def in_turn_def\<close>)

lemma check_writers_reasons:
  "rfold (check_writer schedule) (enumerate n receipts) reasons = Inr reasons' \<Longrightarrow>
     reasons' = [] \<longleftrightarrow> reasons = [] \<and> (\<forall>r \<in> set receipts. in_turn schedule r)"
proof (induction receipts arbitrary: n reasons)
  case (Cons r receipts)
  then obtain rs where "check_writer schedule (n, r) reasons = Inr rs"
    "rfold (check_writer schedule) (enumerate (Suc n) receipts) rs = Inr reasons'" by (auto simp: rbind_eq_Inr)
  with Cons.IH check_writer_reasons show ?case by auto
qed simp

text \<open>
  An out-of-turn write is flagged, and only that. The check accepts exactly when every timed
  receipt written by one of the masters was written by the master that leads at its time.
\<close>

theorem schedule_check_exact:
  assumes "writers_on_schedule receipts schedule = Inr (ok, reasons)"
  shows "ok \<longleftrightarrow> (\<forall>r \<in> set receipts. in_turn schedule r)"
  using assms check_writers_reasons [of schedule 0 receipts "[]" reasons] by (auto simp: writers_on_schedule_def rbind_eq_Inr)

theorem schedule_check_exact_witness:
  "\<exists>ok reasons. writers_on_schedule
      [VDict [(''writer_principal'', VStr ''b''), (''issued_at'', VStr ''1970-01-01T00:00:05Z'')]]
      \<lparr>sch_masters = [''a'', ''b'', ''c''], sch_period_s = 10, sch_step = 1, sch_phase_s = 0\<rparr> = Inr (ok, reasons) \<and> \<not> ok"
proof -
  let ?s = "\<lparr>sch_masters = [''a'', ''b'', ''c''], sch_period_s = 10, sch_step = 1, sch_phase_s = 0\<rparr>"
  have t: "parse_iso_z (VStr ''1970-01-01T00:00:05Z'') = Some 5" by code_simp
  have l: "scheduled_leader_at ?s (VStr ''1970-01-01T00:00:05Z'') = Inr (Some ''a'')"
    by (simp add: scheduled_leader_at_def t at_time_def epoch_for_time_def at_epoch_def rotate_def Let_def)
  then obtain ok reasons where w: "writers_on_schedule
      [VDict [(''writer_principal'', VStr ''b''), (''issued_at'', VStr ''1970-01-01T00:00:05Z'')]] ?s = Inr (ok, reasons)"
    by (auto simp: writers_on_schedule_def check_writer_def dgetdef_def dget_def)
  from schedule_check_exact [OF w] l have "\<not> ok" by (simp add: in_turn_def dgetdef_def dget_def)
  with w show ?thesis by blast
qed

end
