(* ===== verification/Rate_Limiter.thy ===== *)
theory Rate_Limiter
  imports Prelude
begin

text \<open>
  \<open>automation/rate_limiter.py\<close>: the GitHub API quota. Every public method holds the lock while it
  reads and changes the counters, so it is one step on the state; a clock reading (monotonic
  seconds and the UTC text) is an argument, and readings within one call are taken equal. Fractions
  are exact rationals. \<open>acquire\<close> also returns the delay it sleeps for, if any.
\<close>

section \<open>The code\<close>

definition HOURLY_LIMIT :: int where "HOURLY_LIMIT = 5000"
definition SAFETY_BUFFER :: int where "SAFETY_BUFFER = 500"
definition AVAILABLE_QUOTA :: int where "AVAILABLE_QUOTA = HOURLY_LIMIT - SAFETY_BUFFER"
definition BACKOFF_THRESHOLD :: rat where "BACKOFF_THRESHOLD = 80 / 100"
definition EMERGENCY_THRESHOLD :: rat where "EMERGENCY_THRESHOLD = 95 / 100"

record RateLimiterMetrics =
  calls_this_hour :: int
  calls_today :: int
  backoff_events :: int
  blocked_events :: int
  emergency_stops :: int
  hour_reset_at :: string

record RateLimiter =
  hourly_limit :: int
  safety_buffer :: int
  available_quota :: int
  rl_metrics :: RateLimiterMetrics
  hour_start :: rat

type_synonym clock = "rat \<times> string"

definition new_limiter :: "clock \<Rightarrow> int \<Rightarrow> int \<Rightarrow> RateLimiter" where
  "new_limiter now limit buffer =
     \<lparr>hourly_limit = limit, safety_buffer = buffer, available_quota = limit - buffer,
      rl_metrics = \<lparr>calls_this_hour = 0, calls_today = 0, backoff_events = 0, blocked_events = 0,
                   emergency_stops = 0, hour_reset_at = snd now\<rparr>,
      hour_start = fst now\<rparr>"

definition maybe_reset_hour :: "clock \<Rightarrow> RateLimiter \<Rightarrow> RateLimiter" where
  "maybe_reset_hour now l =
     (if 3600 \<le> fst now - hour_start l
      then l\<lparr>hour_start := fst now,
             rl_metrics := (rl_metrics l)\<lparr>calls_this_hour := 0, hour_reset_at := snd now\<rparr>\<rparr>
      else l)"

definition usage_of :: "RateLimiter \<Rightarrow> rat" where
  "usage_of l =
     (if available_quota l = 0 then 1 else of_int (calls_this_hour (rl_metrics l)) / of_int (available_quota l))"

definition backoff_delay :: "rat \<Rightarrow> rat" where
  "backoff_delay usage =
     (let t = (usage - BACKOFF_THRESHOLD) / (EMERGENCY_THRESHOLD - BACKOFF_THRESHOLD) in 1 / 100 + t * (49 / 100))"

definition acquire :: "clock \<Rightarrow> int \<Rightarrow> RateLimiter \<Rightarrow> bool \<times> rat option \<times> RateLimiter" where
  "acquire now cost l0 =
     (let l = maybe_reset_hour now l0; m = rl_metrics l; usage = usage_of l in
      if EMERGENCY_THRESHOLD \<le> usage then
        (False, None, l\<lparr>rl_metrics := m\<lparr>emergency_stops := emergency_stops m + 1, blocked_events := blocked_events m + 1\<rparr>\<rparr>)
      else if available_quota l < calls_this_hour m + cost then
        (False, None, l\<lparr>rl_metrics := m\<lparr>blocked_events := blocked_events m + 1\<rparr>\<rparr>)
      else
        let m' = m\<lparr>calls_this_hour := calls_this_hour m + cost, calls_today := calls_today m + cost\<rparr> in
        if BACKOFF_THRESHOLD \<le> usage then
          (True, Some (backoff_delay usage), l\<lparr>rl_metrics := m'\<lparr>backoff_events := backoff_events m + 1\<rparr>\<rparr>)
        else (True, None, l\<lparr>rl_metrics := m'\<rparr>))"

definition remaining :: "clock \<Rightarrow> RateLimiter \<Rightarrow> int \<times> RateLimiter" where
  "remaining now l0 =
     (let l = maybe_reset_hour now l0 in (max 0 (available_quota l - calls_this_hour (rl_metrics l)), l))"

definition usage_fraction :: "clock \<Rightarrow> RateLimiter \<Rightarrow> rat \<times> RateLimiter" where
  "usage_fraction now l0 = (let l = maybe_reset_hour now l0 in (usage_of l, l))"

definition seconds_until_reset :: "clock \<Rightarrow> RateLimiter \<Rightarrow> rat" where
  "seconds_until_reset now l = max 0 (3600 - (fst now - hour_start l))"

record limiter_report =
  rep_calls_this_hour :: int
  rep_calls_today :: int
  rep_remaining_this_hour :: int
  rep_usage_pct :: rat
  rep_backoff_events :: int
  rep_blocked_events :: int
  rep_emergency_stops :: int
  rep_seconds_until_reset :: rat
  rep_hour_reset_at :: string

text \<open>\<open>round(x, 1)\<close>: to the nearest tenth, ties to the even one.\<close>

definition round1 :: "rat \<Rightarrow> rat" where
  "round1 q =
     (let y = q * 10; n = \<lfloor>y\<rfloor>; d = y - of_int n in
      of_int (if d < 1 / 2 then n else if 1 / 2 < d then n + 1 else if even n then n else n + 1) / 10)"

definition get_metrics :: "clock \<Rightarrow> RateLimiter \<Rightarrow> limiter_report \<times> RateLimiter" where
  "get_metrics now l0 =
     (let l = maybe_reset_hour now l0; m = rl_metrics l in
      (\<lparr>rep_calls_this_hour = calls_this_hour m, rep_calls_today = calls_today m,
        rep_remaining_this_hour = max 0 (available_quota l - calls_this_hour m),
        rep_usage_pct = round1 (usage_of l * 100), rep_backoff_events = backoff_events m,
        rep_blocked_events = blocked_events m, rep_emergency_stops = emergency_stops m,
        rep_seconds_until_reset = round1 (seconds_until_reset now l), rep_hour_reset_at = hour_reset_at m\<rparr>, l))"

section \<open>Runs of the limiter\<close>

text \<open>
  Any interleaving of calls by any number of threads is a sequence of steps. The log records, for
  every granted call, the start of the window it was granted in and its cost.
\<close>

inductive limiter_run :: "RateLimiter \<Rightarrow> (rat \<times> int) list \<Rightarrow> RateLimiter \<Rightarrow> bool" for l0 where
  start: "limiter_run l0 [] l0"
| granted: "limiter_run l0 g l \<Longrightarrow> 0 \<le> cost \<Longrightarrow> acquire now cost l = (True, d, l') \<Longrightarrow>
    limiter_run l0 ((hour_start l', cost) # g) l'"
| blocked: "limiter_run l0 g l \<Longrightarrow> acquire now cost l = (False, d, l') \<Longrightarrow> limiter_run l0 g l'"
| asked: "limiter_run l0 g l \<Longrightarrow>
    l' = snd (remaining now l) \<or> l' = snd (usage_fraction now l) \<or> l' = snd (get_metrics now l) \<Longrightarrow> limiter_run l0 g l'"

definition granted_in :: "rat \<Rightarrow> (rat \<times> int) list \<Rightarrow> int" where
  "granted_in w g = sum_list (map snd (filter (\<lambda>c. fst c = w) g))"

lemma granted_in_simps [simp]:
  "granted_in w [] = 0" "granted_in w ((v, c) # g) = (if v = w then c else 0) + granted_in w g"
  by (simp_all add: granted_in_def)

lemma reset_facts [simp]:
  "available_quota (maybe_reset_hour now l) = available_quota l"
  by (simp add: maybe_reset_hour_def)

lemma acquire_facts:
  assumes "acquire now cost l = (ok, d, l')"
  shows "available_quota l' = available_quota l" "hour_start l' = hour_start (maybe_reset_hour now l)"
    "calls_this_hour (rl_metrics l') = calls_this_hour (rl_metrics (maybe_reset_hour now l)) + (if ok then cost else 0)"
    "ok \<longleftrightarrow> usage_of (maybe_reset_hour now l) < EMERGENCY_THRESHOLD \<and>
        calls_this_hour (rl_metrics (maybe_reset_hour now l)) + cost \<le> available_quota l"
  using assms by (auto simp: acquire_def Let_def split: if_splits)

text \<open>
  The invariant: the counter is what was granted in the current window, no window was over the
  quota, and all windows began an hour apart and none after the current one.
\<close>

definition run_inv :: "int \<Rightarrow> (rat \<times> int) list \<Rightarrow> RateLimiter \<Rightarrow> bool" where
  "run_inv q g l \<longleftrightarrow>
     available_quota l = q \<and> granted_in (hour_start l) g = calls_this_hour (rl_metrics l) \<and>
     (\<forall>w. 0 \<le> granted_in w g \<and> granted_in w g \<le> max 0 q) \<and>
     (\<forall>w \<in> fst ` set g. w = hour_start l \<or> w + 3600 \<le> hour_start l) \<and>
     (\<forall>v \<in> fst ` set g. \<forall>w \<in> fst ` set g. v < w \<longrightarrow> v + 3600 \<le> w)"

lemma granted_in_fresh: "w \<notin> fst ` set g \<Longrightarrow> granted_in w g = 0"
  by (induction g) auto

lemma reset_inv: "run_inv q g l \<Longrightarrow> run_inv q g (maybe_reset_hour now l)"
proof -
  assume inv: "run_inv q g l"
  show ?thesis
  proof (cases "3600 \<le> fst now - hour_start l")
    case True
    have later: "w + 3600 \<le> fst now" if "w \<in> fst ` set g" for w
      using inv that True unfolding run_inv_def by force
    then have "fst now \<notin> fst ` set g" by force
    then have "granted_in (fst now) g = 0" by (rule granted_in_fresh)
    with inv later True show ?thesis by (simp add: run_inv_def maybe_reset_hour_def)
  qed (simp add: maybe_reset_hour_def inv)
qed

lemma limiter_run_inv:
  assumes "limiter_run l0 g l" "calls_this_hour (rl_metrics l0) = 0"
  shows "run_inv (available_quota l0) g l"
  using assms(1)
proof induction
  case start
  then show ?case using assms(2) by (simp add: run_inv_def)
next
  case (granted g l cost now d l')
  note A = acquire_facts [OF granted.hyps(3)] and R = reset_inv [OF granted.IH, of now]
  let ?h = "hour_start (maybe_reset_hour now l)"
  have "granted_in ?h g + cost \<le> available_quota l0"
    using A(4) R granted.IH by (simp add: run_inv_def)
  with A R granted.hyps(2) show ?case by (force simp: run_inv_def)
next
  case (blocked g l now cost d l')
  with acquire_facts [OF blocked.hyps(2)] reset_inv [OF blocked.IH, of now] show ?case by (simp add: run_inv_def)
next
  case (asked g l l' now)
  then have "l' = maybe_reset_hour now l" by (auto simp: remaining_def usage_fraction_def get_metrics_def Let_def)
  with reset_inv [OF asked.IH] show ?case by simp
qed

section \<open>Properties\<close>

text \<open>
  C15: The quota holds under every interleaving. From a fresh limiter, whatever calls are made by
  whatever threads in whatever order, with costs that are not negative, the calls granted within one
  window never exceed the quota, different windows begin at least an hour apart, and the counter is
  exactly what was granted in the current window.
\<close>

theorem quota_never_exceeded:
  assumes "limiter_run (new_limiter now limit buffer) g l" "buffer \<le> limit"
  shows "granted_in w g \<le> limit - buffer \<and> calls_this_hour (rl_metrics l) = granted_in (hour_start l) g \<and>
         (\<forall>v \<in> fst ` set g. \<forall>w \<in> fst ` set g. v < w \<longrightarrow> v + 3600 \<le> w)"
  using limiter_run_inv [OF assms(1)] assms(2) by (auto simp: new_limiter_def run_inv_def)

theorem quota_never_exceeded_witness:
  "\<exists>l. limiter_run (new_limiter (0, ''t'') 5000 500) [(0, 200)] l \<and> granted_in 0 [(0, 200)] \<le> (4500 :: int)"
proof -
  obtain d l' where "acquire (1, ''t'') 200 (new_limiter (0, ''t'') 5000 500) = (True, d, l')" "hour_start l' = 0"
    by (auto simp: acquire_def new_limiter_def maybe_reset_hour_def usage_of_def EMERGENCY_THRESHOLD_def BACKOFF_THRESHOLD_def Let_def)
  then have "limiter_run (new_limiter (0, ''t'') 5000 500) [(0, 200)] l'"
    using limiter_run.granted [OF limiter_run.start, of 200 "(1, ''t'')" "new_limiter (0, ''t'') 5000 500" d l'] by simp
  with quota_never_exceeded [OF this, of 0] show ?thesis by auto
qed

text \<open>
  The adaptive delay. A granted call sleeps exactly when the usage before it was at least 80 per
  cent, and then for at least 0.01 and less than 0.5 seconds.
\<close>

theorem backoff_bounds:
  assumes "acquire now cost l = (True, d, l')"
  shows "case d of
      None \<Rightarrow> usage_of (maybe_reset_hour now l) < 80 / 100
    | Some s \<Rightarrow> 80 / 100 \<le> usage_of (maybe_reset_hour now l) \<and> 1 / 100 \<le> s \<and> s < 1 / 2"
  using assms
  by (auto simp: acquire_def Let_def backoff_delay_def BACKOFF_THRESHOLD_def EMERGENCY_THRESHOLD_def field_simps split: if_splits)

theorem backoff_bounds_witness:
  "\<exists>d l'. acquire (1, ''t'') 10 (new_limiter (0, ''t'') 5000 500) = (True, d, l') \<and>
     (case d of None \<Rightarrow> usage_of (maybe_reset_hour (1, ''t'') (new_limiter (0, ''t'') 5000 500)) < 80 / 100 | Some s \<Rightarrow> s < 1 / 2)"
proof -
  obtain d l' where a: "acquire (1, ''t'') 10 (new_limiter (0, ''t'') 5000 500) = (True, d, l')"
    by (auto simp: acquire_def new_limiter_def maybe_reset_hour_def usage_of_def EMERGENCY_THRESHOLD_def BACKOFF_THRESHOLD_def Let_def)
  from backoff_bounds [OF a] a show ?thesis by (auto split: option.splits)
qed

end
