(* ===== verification/Durable_Queue.thy ===== *)
theory Durable_Queue
  imports Py_Values "HOL-Library.Multiset"
begin

text \<open>
  \<open>automation/durable_queue.py\<close>: the file-backed event queue. A directory is a table from file
  names to what reading and parsing the file gives (a value, or the exception of a corrupt file).
  An entry that \<open>json.dump\<close> rejects is not represented. The sequential operations are functions; the
  second section models producers and consumers that run at the same time, at the granularity of
  the atomic renames.
\<close>

section \<open>The operations\<close>

type_synonym dq = "(string, pyval result) dict"

fun pad :: "nat \<Rightarrow> nat \<Rightarrow> string" where
  "pad 0 n = []"
| "pad (Suc k) n = pad k (n div 10) @ [digit_char (n mod 10)]"

text \<open>\<open>f"{ns:020d}-{hex}"\<close>; \<open>pad\<close> gives the leading zeros.\<close>

definition item_id :: "nat \<Rightarrow> string \<Rightarrow> string" where
  "item_id ns uuid = (if ns < 10 ^ 20 then pad 20 ns else nat_str ns) @ ''-'' @ uuid"

definition json_suffix :: string where
  "json_suffix = ''.json''"

definition endswith :: "string \<Rightarrow> string \<Rightarrow> bool" where
  "endswith s t \<longleftrightarrow> length t \<le> length s \<and> drop (length s - length t) s = t"

definition dq_put :: "nat \<Rightarrow> string \<Rightarrow> dq \<Rightarrow> pyval \<Rightarrow> string \<times> dq" where
  "dq_put ns uuid q entry = (item_id ns uuid, dset q (item_id ns uuid @ json_suffix) (Inr entry))"

definition visible :: "string \<Rightarrow> bool" where
  "visible name \<longleftrightarrow> endswith name json_suffix \<and> \<not> startswith name ''.tmp-''"

definition dq_pending :: "dq \<Rightarrow> string list" where
  "dq_pending q = sort (filter visible (dkeys q))"

text \<open>\<open>path.with_suffix(".claimed")\<close>.\<close>

definition claim_name :: "string \<Rightarrow> string" where
  "claim_name name = (if length name \<le> 5 then name else take (length name - 5) name) @ ''.claimed''"

fun get_loop :: "dq \<Rightarrow> string list \<Rightarrow> pyval result \<times> dq" where
  "get_loop q [] = (Inl QueueEmpty, q)"
| "get_loop q (path # paths) =
     (case dget q path of
        None \<Rightarrow> get_loop q paths
      | Some content \<Rightarrow>
          let q1 = dset (ddel q path) (claim_name path) content;
              q2 = ddel q1 (claim_name path)
          in (content, q2))"

definition dq_get :: "dq \<Rightarrow> pyval result \<times> dq" where
  "dq_get q = get_loop q (dq_pending q)"

definition dq_empty :: "dq \<Rightarrow> bool" where
  "dq_empty q \<longleftrightarrow> dq_pending q = []"

definition dq_size :: "dq \<Rightarrow> nat" where
  "dq_size q = length (dq_pending q)"

fun peek_loop :: "dq \<Rightarrow> string list \<Rightarrow> pyval list result" where
  "peek_loop q [] = Inr []"
| "peek_loop q (path # paths) =
     (case dget q path of
        None \<Rightarrow> peek_loop q paths
      | Some (Inr v) \<Rightarrow> rbind (peek_loop q paths) (\<lambda>vs. Inr (v # vs))
      | Some (Inl e) \<Rightarrow> if e = FileNotFound \<or> e = ValueError then peek_loop q paths else Inl e)"

definition peek_all :: "dq \<Rightarrow> pyval list result" where
  "peek_all q = peek_loop q (dq_pending q)"

section \<open>The queue contract\<close>

text \<open>Reading n times.\<close>

fun gets :: "('q \<Rightarrow> 'a \<times> 'q) \<Rightarrow> nat \<Rightarrow> 'q \<Rightarrow> 'a list \<times> 'q" where
  "gets get 0 q = ([], q)"
| "gets get (Suc n) q = (let (x, q1) = get q; (xs, q2) = gets get n q1 in (x # xs, q2))"

text \<open>
  What the clients of a queue rely on. \<open>contents\<close> are the entries (or the exceptions corrupt ones
  raise) in the order they come out; \<open>later\<close> says that an item id sorts after everything queued.
\<close>

locale event_queue =
  fixes put :: "'i \<Rightarrow> 'q \<Rightarrow> pyval \<Rightarrow> 'q"
    and get :: "'q \<Rightarrow> pyval result \<times> 'q"
    and empty :: "'q \<Rightarrow> bool"
    and contents :: "'q \<Rightarrow> pyval result list"
    and wf :: "'q \<Rightarrow> bool"
    and later :: "'i \<Rightarrow> 'q \<Rightarrow> bool"
  assumes empty_iff: "wf q \<Longrightarrow> empty q \<longleftrightarrow> contents q = []"
    and get_empty: "wf q \<Longrightarrow> contents q = [] \<Longrightarrow> get q = (Inl QueueEmpty, q)"
    and get_first: "wf q \<Longrightarrow> contents q = x # xs \<Longrightarrow> \<exists>q'. get q = (x, q') \<and> wf q' \<and> contents q' = xs"
    and put_last: "wf q \<Longrightarrow> later i q \<Longrightarrow> wf (put i q e) \<and> contents (put i q e) = contents q @ [Inr e]"
begin

lemma gets_fifo:
  "wf q \<Longrightarrow> n \<le> length (contents q) \<Longrightarrow>
     \<exists>q'. gets get n q = (take n (contents q), q') \<and> wf q' \<and> contents q' = drop n (contents q)"
proof (induction n arbitrary: q)
  case (Suc n)
  then obtain x xs where c: "contents q = x # xs" by (cases "contents q") auto
  with get_first [OF Suc.prems(1)] obtain q1 where g: "get q = (x, q1)" "wf q1" "contents q1 = xs" by blast
  with Suc.IH [of q1] Suc.prems c show ?case by auto
qed simp

end

section \<open>The file names keep the order\<close>

lemma digit_char_less: "a < b \<Longrightarrow> b < 10 \<Longrightarrow> digit_char a < digit_char b"
  by (simp add: digit_char_def less_char_def)

lemma append_less: "(p :: string) @ a < p @ b \<longleftrightarrow> a < b"
  by (induction p) auto

lemma pad_less: "m < n \<Longrightarrow> n < 10 ^ k \<Longrightarrow> pad k m @ x < pad k n @ y"
proof (induction k arbitrary: m n x y)
  case (Suc k)
  show ?case
  proof (cases "m div 10 < n div 10")
    case True
    have "n div 10 < 10 ^ k" using Suc.prems(2) by (simp add: less_mult_imp_div_less mult.commute)
    with Suc.IH [OF True] show ?thesis by simp
  next
    case False
    then have "m div 10 = n div 10" using Suc.prems(1) div_le_mono [of m n 10] by linarith
    moreover from this have "m mod 10 < n mod 10" using Suc.prems(1) by (metis div_mod_decomp nat_add_left_cancel_less)
    then have "digit_char (m mod 10) < digit_char (n mod 10)" by (intro digit_char_less) simp_all
    ultimately show ?thesis by (simp add: append_less)
  qed
qed simp

lemma item_id_less: "m < n \<Longrightarrow> n < 10 ^ 20 \<Longrightarrow> item_id m u @ json_suffix < item_id n v @ json_suffix"
  using pad_less [of m n 20] by (simp add: item_id_def)

lemma pad_digits: "c \<in> set (pad k n) \<Longrightarrow> is_digit c" "length (pad k n) = k"
  by (induction k arbitrary: n) auto

lemma item_hd: "is_digit (hd (item_id ns uuid))" "item_id ns uuid \<noteq> []"
proof -
  have ne: "pad 20 ns \<noteq> []" using pad_digits(2) [of 20 ns] by auto
  then have "is_digit (hd (pad 20 ns))" using pad_digits(1) [of "hd (pad 20 ns)" 20 ns] by simp
  moreover have "is_digit (hd (nat_str ns))" using nat_str_digits [of "hd (nat_str ns)" ns] by simp
  ultimately show "is_digit (hd (item_id ns uuid))" "item_id ns uuid \<noteq> []" using ne by (auto simp: item_id_def)
qed

lemma visible_item: "visible (item_id ns uuid @ json_suffix)"
proof -
  have "hd (item_id ns uuid) \<noteq> CHR ''.''" using item_hd(1) [of ns uuid] by (auto simp: is_digit_def)
  then have "\<not> startswith (item_id ns uuid @ json_suffix) ''.tmp-''"
    using item_hd(2) [of ns uuid] by (cases "item_id ns uuid") (auto simp: startswith_def)
  then show ?thesis by (simp add: visible_def endswith_def)
qed

lemma claim_not_visible: "\<not> visible (claim_name name)"
  by (auto simp: visible_def endswith_def claim_name_def json_suffix_def)

section \<open>The directory meets the contract\<close>

definition dq_contents :: "dq \<Rightarrow> pyval result list" where
  "dq_contents q = map (\<lambda>p. the (dget q p)) (dq_pending q)"

definition dq_later :: "nat \<times> string \<Rightarrow> dq \<Rightarrow> bool" where
  "dq_later i q \<longleftrightarrow> (\<forall>p \<in> set (dq_pending q). p < item_id (fst i) (snd i) @ json_suffix)"

lemma set_dq_pending: "set (dq_pending q) = {p \<in> set (dkeys q). visible p}"
  by (auto simp: dq_pending_def)

lemma dkeys_ddel: "dkeys (ddel q k) = filter (\<lambda>x. x \<noteq> k) (dkeys q)"
  by (induction q) (auto simp: ddel_def dkeys_def)

lemma dwf_ddel: "dwf q \<Longrightarrow> dwf (ddel q k)"
  by (simp add: dwf_def dkeys_ddel flip: dkeys_def)

lemma dset_new: "k \<notin> set (dkeys q) \<Longrightarrow> dset q k v = q @ [(k, v)]"
  by (induction q k v rule: dset.induct) (auto simp: dkeys_def)

lemma pending_ddel: "dq_pending (ddel q k) = filter (\<lambda>x. x \<noteq> k) (dq_pending q)"
  by (simp add: dq_pending_def dkeys_ddel filter_sort conj_commute)

lemma ddel_dset: "ddel (dset d k v) k = ddel d k"
  by (induction d k v rule: dset.induct) (auto simp: ddel_def)

lemma pending_claimed:
  assumes "dwf q" "dq_pending q = p # ps"
  shows "dq_pending (ddel (ddel q p) (claim_name p)) = ps"
proof -
  have "distinct (dq_pending q)" using assms(1) by (simp add: dq_pending_def dwf_def dkeys_def)
  moreover have "claim_name p \<notin> set (dq_pending q)" using claim_not_visible by (auto simp: set_dq_pending)
  ultimately show ?thesis
    using assms(2) by (auto simp: pending_ddel filter_id_conv)
qed

lemma pending_put:
  assumes "dq_later (ns, uuid) q"
  shows "dq_pending (dset q (item_id ns uuid @ json_suffix) v) = dq_pending q @ [item_id ns uuid @ json_suffix]"
    and "item_id ns uuid @ json_suffix \<notin> set (dkeys q)"
proof -
  let ?n = "item_id ns uuid @ json_suffix"
  show new: "?n \<notin> set (dkeys q)"
    using assms visible_item [of ns uuid] by (auto simp: dq_later_def set_dq_pending)
  have "dkeys (dset q ?n v) = dkeys q @ [?n]" by (simp add: dset_new [OF new]) (simp add: dkeys_def)
  then have "dq_pending (dset q ?n v) = sort (filter visible (dkeys q) @ [?n])"
    using visible_item by (simp add: dq_pending_def)
  also have "\<dots> = dq_pending q @ [?n]"
    using assms by (intro properties_for_sort) (auto simp: dq_pending_def dq_later_def sorted_append intro: less_imp_le)
  finally show "dq_pending (dset q ?n v) = dq_pending q @ [?n]" .
qed

interpretation dqueue: event_queue "\<lambda>i q e. snd (dq_put (fst i) (snd i) q e)" dq_get dq_empty dq_contents dwf dq_later
proof
  fix q :: dq and x xs and i :: "nat \<times> string" and e
  show "dq_empty q \<longleftrightarrow> dq_contents q = []" by (simp add: dq_empty_def dq_contents_def)
  show "dq_contents q = [] \<Longrightarrow> dq_get q = (Inl QueueEmpty, q)" by (simp add: dq_contents_def dq_get_def)
  assume wf: "dwf q"
  show "\<exists>q'. dq_get q = (x, q') \<and> dwf q' \<and> dq_contents q' = xs" if c: "dq_contents q = x # xs"
  proof -
    obtain p ps where p: "dq_pending q = p # ps" "x = the (dget q p)" "xs = map (\<lambda>p. the (dget q p)) ps"
      using c by (auto simp: dq_contents_def)
    have "p \<in> set (dkeys q)" using p(1) set_dq_pending [of q] by auto
    then obtain content where content: "dget q p = Some content" using dget_None_iff [of q p] by auto
    let ?q = "ddel (ddel q p) (claim_name p)"
    have g: "dq_get q = (x, ?q)"
      by (simp add: dq_get_def p(1) content ddel_dset p(2))
    have pend: "dq_pending ?q = ps" by (rule pending_claimed [OF wf p(1)])
    have "dget ?q r = dget q r" if "r \<in> set ps" for r
    proof -
      have "r \<noteq> p" using p(1) wf that by (metis distinct.simps(2) distinct_filter distinct_sort dq_pending_def dwf_def dkeys_def)
      moreover have "r \<noteq> claim_name p" using that p(1) set_dq_pending [of q] claim_not_visible [of p] by auto
      ultimately show ?thesis by auto
    qed
    then have "dq_contents ?q = xs" by (simp add: dq_contents_def pend p(3))
    with g wf show ?thesis by (auto intro: dwf_ddel)
  qed
  show "dwf (snd (dq_put (fst i) (snd i) q e)) \<and> dq_contents (snd (dq_put (fst i) (snd i) q e)) = dq_contents q @ [Inr e]"
    if l: "dq_later i q"
  proof -
    let ?n = "item_id (fst i) (snd i) @ json_suffix"
    note P = pending_put(1) [of "fst i" "snd i" q "Inr e"] pending_put(2) [of "fst i" "snd i" q]
    have "dget (dset q ?n (Inr e)) r = dget q r" if "r \<in> set (dq_pending q)" for r
      using that P(2) l by (auto simp: set_dq_pending)
    with P(1) l wf show ?thesis by (auto simp: dq_put_def dq_contents_def)
  qed
qed

section \<open>Concurrent producers and consumers\<close>

text \<open>
  A consumer lists the directory, then tries to claim the listed files in turn by an atomic rename,
  then reads and removes what it claimed. The system keeps, for the statements, the log of what was
  put and of what was delivered. A new item's name has not been used before: it carries a fresh
  random id.
\<close>

datatype consumer = Idle | Scanning "string list" | Holding string

record dq_system =
  sys_files :: dq
  sys_consumers :: "nat \<Rightarrow> consumer"
  sys_put :: "(string, pyval) dict"
  sys_delivered :: "(nat \<times> string \<times> pyval result) list"

inductive dq_step :: "dq_system \<Rightarrow> dq_system \<Rightarrow> bool" where
  produce: "name = item_id ns uuid @ json_suffix \<Longrightarrow> name \<notin> set (dkeys (sys_put s)) \<Longrightarrow>
    dq_step s (s\<lparr>sys_files := snd (dq_put ns uuid (sys_files s) e), sys_put := sys_put s @ [(name, e)]\<rparr>)"
| scan: "sys_consumers s c = Idle \<Longrightarrow>
    dq_step s (s\<lparr>sys_consumers := (sys_consumers s)(c := Scanning (dq_pending (sys_files s)))\<rparr>)"
| claim: "sys_consumers s c = Scanning (p # ps) \<Longrightarrow> dget (sys_files s) p = Some content \<Longrightarrow>
    dq_step s (s\<lparr>sys_files := dset (ddel (sys_files s) p) (claim_name p) content,
                 sys_consumers := (sys_consumers s)(c := Holding p)\<rparr>)"
| lost: "sys_consumers s c = Scanning (p # ps) \<Longrightarrow> dget (sys_files s) p = None \<Longrightarrow>
    dq_step s (s\<lparr>sys_consumers := (sys_consumers s)(c := Scanning ps)\<rparr>)"
| nothing: "sys_consumers s c = Scanning [] \<Longrightarrow>
    dq_step s (s\<lparr>sys_consumers := (sys_consumers s)(c := Idle)\<rparr>)"
| deliver: "sys_consumers s c = Holding p \<Longrightarrow> dget (sys_files s) (claim_name p) = Some content \<Longrightarrow>
    dq_step s (s\<lparr>sys_files := ddel (sys_files s) (claim_name p), sys_consumers := (sys_consumers s)(c := Idle),
                 sys_delivered := sys_delivered s @ [(c, p, content)]\<rparr>)"

definition dq_start :: dq_system where
  "dq_start = \<lparr>sys_files = [], sys_consumers = (\<lambda>_. Idle), sys_put = [], sys_delivered = []\<rparr>"

definition delivered_names :: "dq_system \<Rightarrow> string list" where
  "delivered_names s = map (\<lambda>(c, p, x). p) (sys_delivered s)"

definition held :: "dq_system \<Rightarrow> string set" where
  "held s = {p. \<exists>c. sys_consumers s c = Holding p}"

definition item_name :: "string \<Rightarrow> bool" where
  "item_name p \<longleftrightarrow> (\<exists>ns uuid. p = item_id ns uuid @ json_suffix)"

lemma claim_name_inj: "item_name p \<Longrightarrow> item_name q \<Longrightarrow> claim_name p = claim_name q \<Longrightarrow> p = q"
  using item_hd(2) by (auto simp: item_name_def claim_name_def json_suffix_def split: if_splits)

lemma claim_not_item: "item_name p \<Longrightarrow> claim_name q \<noteq> p"
  using claim_not_visible visible_item by (metis item_name_def)

text \<open>
  The invariant: every item put is in exactly one place (a visible file, the hands of one consumer,
  or delivered), with its content; every listed name was put.
\<close>

definition files_ok :: "dq_system \<Rightarrow> bool" where
  "files_ok s \<longleftrightarrow>
     (\<forall>p. item_name p \<longrightarrow>
        dget (sys_files s) p = (if p \<in> held s \<or> p \<in> set (delivered_names s) then None else map_option Inr (dget (sys_put s) p))) \<and>
     (\<forall>p. p \<in> set (dkeys (sys_files s)) \<longrightarrow> visible p \<longrightarrow> item_name p)"

definition held_ok :: "dq_system \<Rightarrow> bool" where
  "held_ok s \<longleftrightarrow>
     (\<forall>p. p \<in> held s \<longrightarrow> p \<in> set (dkeys (sys_put s)) \<and> p \<notin> set (delivered_names s) \<and>
        dget (sys_files s) (claim_name p) = map_option Inr (dget (sys_put s) p)) \<and>
     (\<forall>c d p. sys_consumers s c = Holding p \<longrightarrow> sys_consumers s d = Holding p \<longrightarrow> c = d)"

definition logs_ok :: "dq_system \<Rightarrow> bool" where
  "logs_ok s \<longleftrightarrow>
     dwf (sys_put s) \<and> (\<forall>p. p \<in> set (dkeys (sys_put s)) \<longrightarrow> item_name p) \<and>
     (\<forall>c ps. sys_consumers s c = Scanning ps \<longrightarrow> set ps \<subseteq> set (dkeys (sys_put s))) \<and>
     distinct (delivered_names s) \<and>
     (\<forall>c p x. (c, p, x) \<in> set (sys_delivered s) \<longrightarrow> (\<exists>e. dget (sys_put s) p = Some e \<and> x = Inr e))"

definition sys_inv :: "dq_system \<Rightarrow> bool" where
  "sys_inv s \<longleftrightarrow> files_ok s \<and> held_ok s \<and> logs_ok s"

lemmas sys_inv_defs = sys_inv_def files_ok_def held_ok_def logs_ok_def

lemma sys_inv_start: "sys_inv dq_start"
  by (simp add: sys_inv_defs dq_start_def held_def delivered_names_def dwf_def dkeys_def dget_def)

lemma dget_snoc: "k \<notin> set (dkeys d) \<Longrightarrow> dget (d @ [(k, v)]) k' = (if k = k' then Some v else dget d k')"
  using dset_new [of k d v] dget_dset [of d k v k'] by simp

lemma dkeys_dset: "set (dkeys (dset d k v)) = insert k (set (dkeys d))"
  by (induction d k v rule: dset.induct) (auto simp: dkeys_def)

lemma sys_invD:
  assumes "sys_inv s"
  shows "dwf (sys_put s)" "\<And>p. p \<in> set (dkeys (sys_put s)) \<Longrightarrow> item_name p"
    "\<And>p. item_name p \<Longrightarrow> dget (sys_files s) p
        = (if p \<in> held s \<or> p \<in> set (delivered_names s) then None else map_option Inr (dget (sys_put s) p))"
    "\<And>p. p \<in> held s \<Longrightarrow> p \<in> set (dkeys (sys_put s))" "\<And>p. p \<in> held s \<Longrightarrow> p \<notin> set (delivered_names s)"
    "\<And>p. p \<in> held s \<Longrightarrow> dget (sys_files s) (claim_name p) = map_option Inr (dget (sys_put s) p)"
    "\<And>c d p. sys_consumers s c = Holding p \<Longrightarrow> sys_consumers s d = Holding p \<Longrightarrow> c = d"
    "\<And>c ps. sys_consumers s c = Scanning ps \<Longrightarrow> set ps \<subseteq> set (dkeys (sys_put s))"
    "distinct (delivered_names s)"
    "\<And>c p x. (c, p, x) \<in> set (sys_delivered s) \<Longrightarrow> \<exists>e. dget (sys_put s) p = Some e \<and> x = Inr e"
    "\<And>p. p \<in> set (dkeys (sys_files s)) \<Longrightarrow> visible p \<Longrightarrow> item_name p"
  using assms by (simp_all add: sys_inv_defs)

lemma sys_invI:
  assumes "dwf (sys_put s)" "\<And>p. p \<in> set (dkeys (sys_put s)) \<Longrightarrow> item_name p"
    "\<And>p. item_name p \<Longrightarrow> dget (sys_files s) p
        = (if p \<in> held s \<or> p \<in> set (delivered_names s) then None else map_option Inr (dget (sys_put s) p))"
    "\<And>p. p \<in> held s \<Longrightarrow> p \<in> set (dkeys (sys_put s))" "\<And>p. p \<in> held s \<Longrightarrow> p \<notin> set (delivered_names s)"
    "\<And>p. p \<in> held s \<Longrightarrow> dget (sys_files s) (claim_name p) = map_option Inr (dget (sys_put s) p)"
    "\<And>c d p. sys_consumers s c = Holding p \<Longrightarrow> sys_consumers s d = Holding p \<Longrightarrow> c = d"
    "\<And>c ps. sys_consumers s c = Scanning ps \<Longrightarrow> set ps \<subseteq> set (dkeys (sys_put s))"
    "distinct (delivered_names s)"
    "\<And>c p x. (c, p, x) \<in> set (sys_delivered s) \<Longrightarrow> \<exists>e. dget (sys_put s) p = Some e \<and> x = Inr e"
    "\<And>p. p \<in> set (dkeys (sys_files s)) \<Longrightarrow> visible p \<Longrightarrow> item_name p"
  shows "sys_inv s"
  unfolding sys_inv_defs using assms by (intro conjI allI impI) simp_all

lemma delivered_put: "sys_inv s \<Longrightarrow> p \<in> set (delivered_names s) \<Longrightarrow> p \<in> set (dkeys (sys_put s))"
  using sys_invD(10) [of s] dget_None_iff [of "sys_put s" p] by (fastforce simp: delivered_names_def)

lemma put_Some: "p \<in> set (dkeys d) \<Longrightarrow> \<exists>e. dget d p = Some e"
  using dget_None_iff [of d p] by auto

definition held_by_others :: "dq_system \<Rightarrow> nat \<Rightarrow> string set" where
  "held_by_others s c = {p. \<exists>d. d \<noteq> c \<and> sys_consumers s d = Holding p}"

lemma held_split: "held s = (case sys_consumers s c of Holding p \<Rightarrow> {p} | _ \<Rightarrow> {}) \<union> held_by_others s c"
proof -
  have "(\<exists>d. sys_consumers s d = Holding p) \<longleftrightarrow> sys_consumers s c = Holding p \<or> (\<exists>d. d \<noteq> c \<and> sys_consumers s d = Holding p)" for p
    by (rule iffI, elim exE, case_tac "d = c") auto
  then show ?thesis by (auto simp: held_def held_by_others_def split: consumer.splits)
qed

lemma held_by_others_upd [simp]:
  "held_by_others (s\<lparr>sys_consumers := (sys_consumers s)(c := st)\<rparr>) c = held_by_others s c"
  "held_by_others (s\<lparr>sys_files := fs, sys_consumers := (sys_consumers s)(c := st)\<rparr>) c = held_by_others s c"
  "held_by_others (s\<lparr>sys_files := fs, sys_consumers := (sys_consumers s)(c := st), sys_delivered := ds\<rparr>) c = held_by_others s c"
  unfolding held_by_others_def by (rule Collect_cong, rule ex_cong1, auto)+

lemma produce_inv:
  assumes inv: "sys_inv s" and name: "name = item_id ns uuid @ json_suffix" "name \<notin> set (dkeys (sys_put s))"
  shows "sys_inv (s\<lparr>sys_files := snd (dq_put ns uuid (sys_files s) e), sys_put := sys_put s @ [(name, e)]\<rparr>)" (is "sys_inv ?t")
proof -
  note I = sys_invD [OF inv]
  have h: "held ?t = held s" "delivered_names ?t = delivered_names s" by (simp_all add: held_def delivered_names_def)
  have k: "set (dkeys (sys_put ?t)) = insert name (set (dkeys (sys_put s)))" by (auto simp: dkeys_def)
  have g: "dget (sys_put ?t) p = (if name = p then Some e else dget (sys_put s) p)" for p
    using dget_snoc [OF name(2)] by simp
  have f: "dget (sys_files ?t) p = (if name = p then Some (Inr e) else dget (sys_files s) p)" for p
    by (simp add: dq_put_def name(1))
  have item: "item_name name" using name(1) by (auto simp: item_name_def)
  have fresh: "name \<notin> held s" "name \<notin> set (delivered_names s)" using I(4) delivered_put [OF inv] name(2) by blast+
  show ?thesis
  proof (rule sys_invI, unfold h k g f)
    show "dwf (sys_put ?t)" using I(1) name(2) by (simp add: dwf_def dkeys_def)
    show "item_name p" if "p \<in> insert name (set (dkeys (sys_put s)))" for p using that item I(2) by blast
    show "(if name = p then Some (Inr e) else dget (sys_files s) p)
        = (if p \<in> held s \<or> p \<in> set (delivered_names s) then None else map_option Inr (if name = p then Some e else dget (sys_put s) p))"
      if "item_name p" for p using that I(3) fresh by auto
    show "(if name = claim_name p then Some (Inr e) else dget (sys_files s) (claim_name p)) = map_option Inr (if name = p then Some e else dget (sys_put s) p)"
      if "p \<in> held s" for p using that I(6) fresh claim_not_item [OF item] by auto
    show "set ps \<subseteq> insert name (set (dkeys (sys_put s)))" if "sys_consumers ?t c = Scanning ps" for c ps using that I(8) by auto
    show "\<exists>e'. (if name = p then Some e else dget (sys_put s) p) = Some e' \<and> x = Inr e'"
      if "(c, p, x) \<in> set (sys_delivered ?t)" for c p x
    proof -
      have "p \<in> set (delivered_names s)" using that by (force simp: delivered_names_def)
      with fresh(2) I(10) that show ?thesis by auto
    qed
    show "item_name p" if "p \<in> set (dkeys (sys_files ?t))" "visible p" for p
      using that I(11) item by (auto simp: dq_put_def dkeys_dset name(1))
  qed (use I in auto)
qed

lemma claim_inv:
  assumes inv: "sys_inv s" and c: "sys_consumers s c = Scanning (p # ps)" "dget (sys_files s) p = Some content"
  shows "sys_inv (s\<lparr>sys_files := dset (ddel (sys_files s) p) (claim_name p) content,
                    sys_consumers := (sys_consumers s)(c := Holding p)\<rparr>)" (is "sys_inv ?t")
proof -
  note I = sys_invD [OF inv]
  have put: "p \<in> set (dkeys (sys_put s))" using I(8) [OF c(1)] by auto
  then have item: "item_name p" by (rule I(2))
  obtain e where e: "dget (sys_put s) p = Some e" using put_Some [OF put] by blast
  have free: "p \<notin> held s" "p \<notin> set (delivered_names s)" and content: "content = Inr e"
    using I(3) [OF item] c(2) e by (auto split: if_splits)
  have h: "held ?t = insert p (held s)"
    using c(1) unfolding held_split [of ?t c] held_split [of s c] by simp
  have d: "delivered_names ?t = delivered_names s" by (simp add: delivered_names_def)
  have f: "dget (sys_files ?t) q = (if claim_name p = q then Some content else if p = q then None else dget (sys_files s) q)" for q
    by simp
  show ?thesis
  proof (rule sys_invI, unfold h d f)
    show "(if claim_name p = q then Some content else if p = q then None else dget (sys_files s) q)
        = (if q \<in> insert p (held s) \<or> q \<in> set (delivered_names s) then None else map_option Inr (dget (sys_put ?t) q))"
      if "item_name q" for q using that I(3) claim_not_item [OF that] by auto
    show "q \<notin> set (delivered_names s)" if "q \<in> insert p (held s)" for q using that free I(5) by auto
    show "q \<in> set (dkeys (sys_put ?t))" if "q \<in> insert p (held s)" for q using that put I(4) by auto
    show "(if claim_name p = claim_name q then Some content else if p = claim_name q then None else dget (sys_files s) (claim_name q))
        = map_option Inr (dget (sys_put ?t) q)" if "q \<in> insert p (held s)" for q
    proof (cases "q = p")
      case True
      with e content show ?thesis by simp
    next
      case False
      then have q: "q \<in> held s" using that by blast
      then have "claim_name p \<noteq> claim_name q" using claim_name_inj [OF item I(2) [OF I(4) [OF q]]] False by blast
      with I(6) [OF q] claim_not_item [OF item] show ?thesis by auto
    qed
    show "c1 = c2" if "sys_consumers ?t c1 = Holding q" "sys_consumers ?t c2 = Holding q" for c1 c2 q
      using that I(7) [of c1 q c2] free(1) by (auto simp: held_def split: if_splits)
    show "item_name q" if "q \<in> set (dkeys (sys_files ?t))" "visible q" for q
      using that I(11) claim_not_visible by (auto simp: dkeys_dset dkeys_ddel)
    show "set qs \<subseteq> set (dkeys (sys_put ?t))" if "sys_consumers ?t c1 = Scanning qs" for c1 qs
      using that I(8) by (auto split: if_splits)
  qed (use I in auto)
qed

lemma deliver_inv:
  assumes inv: "sys_inv s" and c: "sys_consumers s c = Holding p" "dget (sys_files s) (claim_name p) = Some content"
  shows "sys_inv (s\<lparr>sys_files := ddel (sys_files s) (claim_name p), sys_consumers := (sys_consumers s)(c := Idle),
                 sys_delivered := sys_delivered s @ [(c, p, content)]\<rparr>)" (is "sys_inv ?t")
proof -
  note I = sys_invD [OF inv]
  have hp: "p \<in> held s" using c(1) by (auto simp: held_def)
  note put = I(4) [OF hp]
  then have item: "item_name p" by (rule I(2))
  obtain e where e: "dget (sys_put s) p = Some e" "content = Inr e"
    using put_Some [OF put] I(6) [OF hp] c(2) by auto
  have h: "held ?t = held s - {p}"
  proof -
    have "p \<notin> held_by_others s c"
    proof
      assume "p \<in> held_by_others s c"
      then obtain d where "d \<noteq> c" "sys_consumers s d = Holding p" unfolding held_by_others_def by blast
      with I(7) [OF c(1)] show False by metis
    qed
    then show ?thesis using c(1) unfolding held_split [of ?t c] held_split [of s c] by simp
  qed
  have d: "delivered_names ?t = delivered_names s @ [p]" by (simp add: delivered_names_def)
  have f: "dget (sys_files ?t) q = (if claim_name p = q then None else dget (sys_files s) q)" for q by simp
  show ?thesis
  proof (rule sys_invI, unfold h d f)
    show "(if claim_name p = q then None else dget (sys_files s) q)
        = (if q \<in> held s - {p} \<or> q \<in> set (delivered_names s @ [p]) then None else map_option Inr (dget (sys_put ?t) q))"
      if "item_name q" for q using that I(3) [OF that] hp claim_not_item [OF that] by auto
    show "(if claim_name p = claim_name q then None else dget (sys_files s) (claim_name q)) = map_option Inr (dget (sys_put ?t) q)"
      if q: "q \<in> held s - {p}" for q
    proof -
      have "claim_name p \<noteq> claim_name q" using claim_name_inj [OF item I(2) [OF I(4)], of q] q by auto
      with I(6) q show ?thesis by simp
    qed
    show "distinct (delivered_names s @ [p])" using I(5,9) hp by simp
    show "\<exists>e. dget (sys_put ?t) q = Some e \<and> x = Inr e" if "(c1, q, x) \<in> set (sys_delivered ?t)" for c1 q x
      using that I(10) e by auto
    show "c1 = c2" if "sys_consumers ?t c1 = Holding q" "sys_consumers ?t c2 = Holding q" for c1 c2 q
      using that I(7) [of c1 q c2] by (auto split: if_splits)
    show "item_name q" if "q \<in> set (dkeys (sys_files ?t))" "visible q" for q
      using that I(11) by (auto simp: dkeys_ddel)
    show "set qs \<subseteq> set (dkeys (sys_put ?t))" if "sys_consumers ?t c1 = Scanning qs" for c1 qs
      using that I(8) by (auto split: if_splits)
  qed (use I in auto)
qed

lemma consumer_inv:
  assumes inv: "sys_inv s" and c: "\<And>p. sys_consumers s c \<noteq> Holding p" "\<And>p. st \<noteq> Holding p"
    and st: "\<And>ps. st = Scanning ps \<Longrightarrow> set ps \<subseteq> set (dkeys (sys_put s))"
  shows "sys_inv (s\<lparr>sys_consumers := (sys_consumers s)(c := st)\<rparr>)" (is "sys_inv ?t")
proof -
  note I = sys_invD [OF inv]
  have "held ?t = held s"
    using c unfolding held_split [of ?t c] held_split [of s c] by (simp split: consumer.splits)
  then have h: "held ?t = held s" "delivered_names ?t = delivered_names s" by (simp_all add: delivered_names_def)
  show ?thesis
  proof (rule sys_invI, unfold h)
    show "c1 = c2" if "sys_consumers ?t c1 = Holding q" "sys_consumers ?t c2 = Holding q" for c1 c2 q
      using that I(7) [of c1 q c2] c(2) by (auto split: if_splits)
    show "set qs \<subseteq> set (dkeys (sys_put ?t))" if "sys_consumers ?t c1 = Scanning qs" for c1 qs
      using that I(8) st by (auto split: if_splits)
  qed (use I in auto)
qed

lemma dq_step_inv: "dq_step s t \<Longrightarrow> sys_inv s \<Longrightarrow> sys_inv t"
proof (induction rule: dq_step.induct)
  case (produce name ns uuid s e)
  then show ?case by (intro produce_inv) auto
next
  case (scan s c)
  note I = sys_invD [OF scan(2)]
  have "set (dq_pending (sys_files s)) \<subseteq> set (dkeys (sys_put s))"
  proof
    fix p assume "p \<in> set (dq_pending (sys_files s))"
    then have p: "p \<in> set (dkeys (sys_files s))" "item_name p" using I(11) by (auto simp: set_dq_pending)
    then have "dget (sys_files s) p \<noteq> None" by (simp add: dget_None_iff)
    then have "dget (sys_put s) p \<noteq> None" using I(3) [OF p(2)] by (auto split: if_splits)
    then show "p \<in> set (dkeys (sys_put s))" using dget_None_iff by metis
  qed
  with scan show ?case by (intro consumer_inv) auto
next
  case (claim s c p ps content)
  then show ?case by (intro claim_inv) auto
next
  case (lost s c p ps)
  then show ?case using sys_invD(8) [OF lost(3) lost(1)] by (intro consumer_inv) auto
next
  case (nothing s c)
  then show ?case by (intro consumer_inv) auto
next
  case (deliver s c p content)
  then show ?case by (intro deliver_inv) auto
qed

lemma dq_reachable_inv: "dq_step\<^sup>*\<^sup>* dq_start s \<Longrightarrow> sys_inv s"
  by (induction rule: rtranclp_induct) (auto intro: sys_inv_start dq_step_inv)

section \<open>Properties\<close>

text \<open>
  C16: Exactly once. However producers and consumers interleave, no item is delivered twice, each
  delivered item has the content that was put under its name, and an item that was put is still a
  visible file, in the hands of a consumer, or delivered: none is lost.
\<close>

theorem delivered_exactly_once:
  assumes "dq_step\<^sup>*\<^sup>* dq_start s"
  shows "distinct (delivered_names s) \<and>
         (\<forall>(c, p, x) \<in> set (sys_delivered s). \<exists>e. dget (sys_put s) p = Some e \<and> x = Inr e) \<and>
         (\<forall>p e. dget (sys_put s) p = Some e \<longrightarrow>
            dget (sys_files s) p = Some (Inr e) \<or> p \<in> held s \<or> p \<in> set (delivered_names s))"
proof -
  note I = sys_invD [OF dq_reachable_inv [OF assms]]
  have "dget (sys_files s) p = Some (Inr e) \<or> p \<in> held s \<or> p \<in> set (delivered_names s)"
    if "dget (sys_put s) p = Some e" for p e
  proof -
    have "p \<in> set (dkeys (sys_put s))" using that dget_None_iff [of "sys_put s" p] by auto
    from I(3) [OF I(2) [OF this]] that show ?thesis by auto
  qed
  with I(9,10) show ?thesis by auto
qed

theorem delivered_exactly_once_witness:
  "\<exists>s. dq_step\<^sup>*\<^sup>* dq_start s \<and> sys_put s \<noteq> [] \<and> distinct (delivered_names s)"
proof -
  let ?s = "dq_start\<lparr>sys_files := snd (dq_put 1 ''aa'' (sys_files dq_start) VNone), sys_put := sys_put dq_start @ [(item_id 1 ''aa'' @ json_suffix, VNone)]\<rparr>"
  have "dq_step dq_start ?s" by (rule dq_step.produce [OF refl]) (simp add: dq_start_def dkeys_def)
  then have "dq_step\<^sup>*\<^sup>* dq_start ?s" by blast
  with delivered_exactly_once [OF this] show ?thesis by auto
qed

lemma puts_contents:
  assumes "sorted_wrt (<) (map fst es)" "\<forall>e \<in> set es. fst e < 10 ^ 20"
  shows "dwf (fold (\<lambda>(ns, u, e) q. snd (dq_put ns u q e)) es []) \<and>
         dq_contents (fold (\<lambda>(ns, u, e) q. snd (dq_put ns u q e)) es []) = map (\<lambda>(ns, u, e). Inr e) es \<and>
         dq_pending (fold (\<lambda>(ns, u, e) q. snd (dq_put ns u q e)) es []) = map (\<lambda>(ns, u, e). item_id ns u @ json_suffix) es"
  using assms
proof (induction es rule: rev_induct)
  case Nil
  then show ?case by (simp add: dwf_def dkeys_def dq_contents_def dq_pending_def)
next
  case (snoc x es)
  obtain ns u e where x: "x = (ns, u, e)" by (metis prod.exhaust)
  let ?q = "fold (\<lambda>(ns, u, e) q. snd (dq_put ns u q e)) es []"
  have IH: "dwf ?q" "dq_contents ?q = map (\<lambda>(ns, u, e). Inr e) es"
    "dq_pending ?q = map (\<lambda>(ns, u, e). item_id ns u @ json_suffix) es"
    using snoc by (auto simp: sorted_wrt_append)
  have later: "dq_later (ns, u) ?q"
    using snoc.prems x item_id_less by (auto simp: dq_later_def IH(3) sorted_wrt_append)
  have "dwf (snd (dq_put ns u ?q e)) \<and> dq_contents (snd (dq_put ns u ?q e)) = dq_contents ?q @ [Inr e]"
    using dqueue.put_last [OF IH(1) later, of e] by simp
  moreover have "dq_pending (snd (dq_put ns u ?q e)) = dq_pending ?q @ [item_id ns u @ json_suffix]"
    using pending_put(1) [OF later] by (simp add: dq_put_def)
  ultimately show ?case using IH x by simp
qed

text \<open>
  First in, first out. Entries put one after the other, at strictly increasing clock readings,
  are returned by the same number of reads in the order they were put, and nothing is left.
\<close>

theorem queue_fifo:
  assumes "sorted_wrt (<) (map fst es)" "\<forall>e \<in> set es. fst e < 10 ^ 20"
  shows "\<exists>q. gets dq_get (length es) (fold (\<lambda>(ns, u, e) q. snd (dq_put ns u q e)) es []) = (map (\<lambda>(ns, u, e). Inr e) es, q) \<and>
             dq_empty q"
proof -
  note P = puts_contents [OF assms]
  obtain q where q: "gets dq_get (length es) (fold (\<lambda>(ns, u, e) q. snd (dq_put ns u q e)) es [])
      = (take (length es) (map (\<lambda>(ns, u, e). Inr e) es), q)" "dwf q"
    "dq_contents q = drop (length es) (map (\<lambda>(ns, u, e). Inr e) es)"
    using dqueue.gets_fifo [of "fold (\<lambda>(ns, u, e) q. snd (dq_put ns u q e)) es []" "length es"] P by auto
  then show ?thesis using dqueue.empty_iff [of q] by simp
qed

theorem queue_fifo_witness:
  "\<exists>q. gets dq_get 2 (fold (\<lambda>(ns, u, e) q. snd (dq_put ns u q e)) [(9, ''ff'', VInt 1), (10, ''00'', VInt 2)] [])
       = ([Inr (VInt 1), Inr (VInt 2)], q) \<and> dq_empty q"
  using queue_fifo [of "[(9, ''ff'', VInt 1), (10, ''00'', VInt 2)]"] by (simp add: numeral_2_eq_2)

end
