(* ===== verification/Session_Quarantine.thy ===== *)
theory Session_Quarantine
  imports Py_Values
begin

text \<open>
  \<open>automation/session_quarantine.py\<close>: every lifecycle event is attached to a known session or
  queued as an orphan, and an orphan is recovered or, after its time to live, quarantined with a
  receipt. Clock readings are arguments (exact seconds, one reading per call); random ids come from a supply \<open>uu\<close> with a
  counter in the state. Event ids are strings: an event whose own id is a truthy value of another
  type is not represented (\<open>OtherError\<close>). The hint of an evidence reference is kept as the pair of
  its key and its value.
\<close>

section \<open>The protocol\<close>

type_synonym event = "(string, pyval) dict"

record SessionDAGNode =
  node_session_id :: string
  node_events :: "event list"
  node_created_at :: rat

record OrphanEntry =
  o_event_id :: string
  o_event :: event
  o_received_at :: rat
  o_reconciled :: bool
  o_recovered_session_id :: "string option"

record EvidenceRef =
  ev_ref_id :: string
  ev_event_id :: string
  ev_kind :: string
  ev_hint :: "string \<times> pyval"

datatype receipt_status = quarantined | recovered

record OrphanEventReceipt =
  or_receipt_id :: string
  or_event_id :: string
  or_status :: receipt_status
  or_quarantined_at :: rat
  or_ttl_seconds :: int
  or_reconciliation_attempts :: int
  or_evidence_refs :: "EvidenceRef list"
  or_recovered_session_id :: "string option"

definition RECONCILE_KEYS :: "string list" where
  "RECONCILE_KEYS = [''conversation_id'', ''parent_id'', ''workspace_id'', ''task_id'']"

record SessionQuarantine =
  sq_ttl_seconds :: int
  sq_sessions :: "(string, SessionDAGNode) dict"
  sq_orphan_queue :: "(string, OrphanEntry) dict"
  sq_receipts :: "OrphanEventReceipt list"
  sq_reconcile_counts :: "(string, int) dict"
  sq_ids :: nat

definition new_protocol :: "int \<Rightarrow> SessionQuarantine" where
  "new_protocol ttl = \<lparr>sq_ttl_seconds = ttl, sq_sessions = [], sq_orphan_queue = [], sq_receipts = [],
                       sq_reconcile_counts = [], sq_ids = 0\<rparr>"

definition register_session :: "rat \<Rightarrow> string \<Rightarrow> SessionQuarantine \<Rightarrow> SessionQuarantine" where
  "register_session now session_id s =
     (case dget (sq_sessions s) session_id of
        Some _ \<Rightarrow> s
      | None \<Rightarrow> s\<lparr>sq_sessions := dset (sq_sessions s) session_id
                   \<lparr>node_session_id = session_id, node_events = [], node_created_at = now\<rparr>\<rparr>)"

definition get_session :: "SessionQuarantine \<Rightarrow> string \<Rightarrow> SessionDAGNode option" where
  "get_session s session_id = dget (sq_sessions s) session_id"

definition attach_to_session :: "string \<Rightarrow> event \<Rightarrow> SessionQuarantine \<Rightarrow> SessionQuarantine result" where
  "attach_to_session session_id event s =
     (case dget (sq_sessions s) session_id of
        None \<Rightarrow> Inl KeyError
      | Some node \<Rightarrow>
          Inr (s\<lparr>sq_sessions := dset (sq_sessions s) session_id (node\<lparr>node_events := node_events node @ [event]\<rparr>)\<rparr>))"

definition enqueue_orphan :: "rat \<Rightarrow> string \<Rightarrow> event \<Rightarrow> SessionQuarantine \<Rightarrow> SessionQuarantine" where
  "enqueue_orphan now event_id event s =
     s\<lparr>sq_orphan_queue := dset (sq_orphan_queue s) event_id
         \<lparr>o_event_id = event_id, o_event = event, o_received_at = now, o_reconciled = False, o_recovered_session_id = None\<rparr>\<rparr>"

datatype outcome = attached | orphaned

definition event_id_of :: "(nat \<Rightarrow> string) \<Rightarrow> event \<Rightarrow> nat \<Rightarrow> (string \<times> nat) result" where
  "event_id_of uu event n =
     (let v = dgetdef event ''event_id'' VNone in
      if truthy v then (case v of VStr i \<Rightarrow> Inr (i, n) | _ \<Rightarrow> Inl OtherError) else Inr (uu n, Suc n))"

text \<open>\<open>session_id and session_id in self._sessions\<close>.\<close>

definition known_session :: "SessionQuarantine \<Rightarrow> pyval \<Rightarrow> string option result" where
  "known_session s v =
     (if \<not> truthy v then Inr None
      else case v of
             VStr i \<Rightarrow> Inr (case dget (sq_sessions s) i of None \<Rightarrow> None | Some _ \<Rightarrow> Some i)
           | VList _ \<Rightarrow> Inl TypeError
           | VDict _ \<Rightarrow> Inl TypeError
           | _ \<Rightarrow> Inr None)"

definition event_received :: "(nat \<Rightarrow> string) \<Rightarrow> rat \<Rightarrow> event \<Rightarrow> SessionQuarantine \<Rightarrow> (outcome \<times> SessionQuarantine) result" where
  "event_received uu now event0 s =
     rbind (event_id_of uu event0 (sq_ids s)) (\<lambda>(event_id, n).
     let event = (case dget event0 ''event_id'' of None \<Rightarrow> dset event0 ''event_id'' (VStr event_id) | Some _ \<Rightarrow> event0);
         s1 = s\<lparr>sq_ids := n\<rparr> in
     rbind (known_session s1 (dgetdef event0 ''session_id'' (VStr []))) (\<lambda>known.
       case known of
         Some sid \<Rightarrow> rbind (attach_to_session sid event s1) (\<lambda>s2. Inr (attached, s2))
       | None \<Rightarrow> Inr (orphaned, enqueue_orphan now event_id event s1)))"

text \<open>The first session, in registration order, with an event that shares the first usable key.\<close>

definition shares_key :: "string \<Rightarrow> pyval \<Rightarrow> string \<times> SessionDAGNode \<Rightarrow> bool" where
  "shares_key key val sn \<longleftrightarrow> (\<exists>e \<in> set (node_events (snd sn)). v_eq (dgetdef e key VNone) val)"

fun match_keys :: "string list \<Rightarrow> event \<Rightarrow> (string, SessionDAGNode) dict \<Rightarrow> string option" where
  "match_keys [] event sessions = None"
| "match_keys (key # keys) event sessions =
     (let val = dgetdef event key VNone in
      if \<not> truthy val then match_keys keys event sessions
      else case List.find (shares_key key val) sessions of
             Some sn \<Rightarrow> Some (fst sn)
           | None \<Rightarrow> match_keys keys event sessions)"

definition find_matching_session :: "event \<Rightarrow> SessionQuarantine \<Rightarrow> string option" where
  "find_matching_session event s = match_keys RECONCILE_KEYS event (sq_sessions s)"

text \<open>\<open>if matched_session\<close>: a session with the empty id does not count as a match.\<close>

definition matched_session :: "event \<Rightarrow> SessionQuarantine \<Rightarrow> string option" where
  "matched_session event s = Option.bind (find_matching_session event s) (\<lambda>sid. if sid = [] then None else Some sid)"

definition usable_keys :: "event \<Rightarrow> string list" where
  "usable_keys event = filter (\<lambda>key. truthy (dgetdef event key VNone)) RECONCILE_KEYS"

definition build_evidence_refs :: "(nat \<Rightarrow> string) \<Rightarrow> OrphanEntry \<Rightarrow> nat \<Rightarrow> EvidenceRef list" where
  "build_evidence_refs uu entry n =
     map (\<lambda>(i, key). \<lparr>ev_ref_id = uu i, ev_event_id = o_event_id entry, ev_kind = key,
                      ev_hint = (key, dgetdef (o_event entry) key VNone)\<rparr>)
       (enumerate n (usable_keys (o_event entry)))"

definition emit_receipt :: "(nat \<Rightarrow> string) \<Rightarrow> rat \<Rightarrow> OrphanEntry \<Rightarrow> receipt_status \<Rightarrow> SessionQuarantine \<Rightarrow> SessionQuarantine" where
  "emit_receipt uu now entry status s =
     (let n = sq_ids s; refs = build_evidence_refs uu entry n; n1 = n + length refs in
      s\<lparr>sq_receipts := sq_receipts s @
          [\<lparr>or_receipt_id = uu n1, or_event_id = o_event_id entry, or_status = status, or_quarantined_at = now,
            or_ttl_seconds = sq_ttl_seconds s,
            or_reconciliation_attempts = dgetdef (sq_reconcile_counts s) (o_event_id entry) 0,
            or_evidence_refs = refs, or_recovered_session_id = o_recovered_session_id entry\<rparr>],
        sq_ids := Suc n1\<rparr>)"

definition quarantine :: "(nat \<Rightarrow> string) \<Rightarrow> rat \<Rightarrow> string \<Rightarrow> SessionQuarantine \<Rightarrow> SessionQuarantine" where
  "quarantine uu now key s =
     (case dget (sq_orphan_queue s) key of
        None \<Rightarrow> s
      | Some entry \<Rightarrow>
          let entry' = entry\<lparr>o_reconciled := True\<rparr> in
          emit_receipt uu now entry' quarantined (s\<lparr>sq_orphan_queue := dset (sq_orphan_queue s) key entry'\<rparr>))"

text \<open>One entry of the queue, given by its key; the list collects the keys to quarantine.\<close>

definition reconcile_entry ::
    "(nat \<Rightarrow> string) \<Rightarrow> rat \<Rightarrow> string \<Rightarrow> SessionQuarantine \<times> string list \<Rightarrow> (SessionQuarantine \<times> string list) result" where
  "reconcile_entry uu now key st =
     (case st of (s, to_quarantine) \<Rightarrow>
        case dget (sq_orphan_queue s) key of
          None \<Rightarrow> Inr (s, to_quarantine)
        | Some entry \<Rightarrow>
            if o_reconciled entry then Inr (s, to_quarantine)
            else
              let i = o_event_id entry;
                  s1 = s\<lparr>sq_reconcile_counts := dset (sq_reconcile_counts s) i (dgetdef (sq_reconcile_counts s) i 0 + 1)\<rparr> in
              case matched_session (o_event entry) s1 of
                Some sid \<Rightarrow>
                  rbind (attach_to_session sid (o_event entry) s1) (\<lambda>s2.
                    let entry' = entry\<lparr>o_reconciled := True, o_recovered_session_id := Some sid\<rparr> in
                    Inr (emit_receipt uu now entry' recovered
                           (s2\<lparr>sq_orphan_queue := dset (sq_orphan_queue s2) key entry'\<rparr>), to_quarantine))
              | None \<Rightarrow>
                  Inr (s1, if of_int (sq_ttl_seconds s1) \<le> now - o_received_at entry
                           then to_quarantine @ [key] else to_quarantine))"

definition reconcile :: "(nat \<Rightarrow> string) \<Rightarrow> rat \<Rightarrow> SessionQuarantine \<Rightarrow> SessionQuarantine result" where
  "reconcile uu now s =
     rbind (rfold (reconcile_entry uu now) (dkeys (sq_orphan_queue s)) (s, [])) (\<lambda>(s1, to_quarantine).
       Inr (fold (quarantine uu now) to_quarantine s1))"

definition get_orphan_queue :: "SessionQuarantine \<Rightarrow> OrphanEntry list" where
  "get_orphan_queue s = filter (\<lambda>e. \<not> o_reconciled e) (map snd (sq_orphan_queue s))"

definition get_receipts :: "SessionQuarantine \<Rightarrow> OrphanEventReceipt list" where
  "get_receipts s = sq_receipts s"

definition get_sessions :: "SessionQuarantine \<Rightarrow> (string, SessionDAGNode) dict" where
  "get_sessions s = sq_sessions s"

section \<open>No orphan is resolved twice, none without a receipt\<close>

definition receipt_ids :: "SessionQuarantine \<Rightarrow> string list" where
  "receipt_ids s = map or_event_id (sq_receipts s)"

definition attached_to :: "SessionQuarantine \<Rightarrow> string \<Rightarrow> event \<Rightarrow> bool" where
  "attached_to s sid e \<longleftrightarrow> (\<exists>node. dget (sq_sessions s) sid = Some node \<and> e \<in> set (node_events node))"

text \<open>
  The invariant: queue keys are the event ids; receipts are for different events, exactly the
  resolved ones; a resolved event is recovered and attached to its session, or quarantined.
\<close>

definition entry_ok :: "SessionQuarantine \<Rightarrow> string \<Rightarrow> OrphanEntry \<Rightarrow> bool" where
  "entry_ok s key e \<longleftrightarrow>
     o_event_id e = key \<and> (o_reconciled e \<longleftrightarrow> key \<in> set (receipt_ids s)) \<and>
     (case o_recovered_session_id e of None \<Rightarrow> True | Some sid \<Rightarrow> o_reconciled e \<and> attached_to s sid (o_event e))"

definition sq_inv :: "SessionQuarantine \<Rightarrow> bool" where
  "sq_inv s \<longleftrightarrow>
     distinct (receipt_ids s) \<and> set (receipt_ids s) \<subseteq> set (dkeys (sq_orphan_queue s)) \<and>
     (\<forall>key e. dget (sq_orphan_queue s) key = Some e \<longrightarrow> entry_ok s key e)"

lemma dkeys_dset_present: "dget d k \<noteq> None \<Longrightarrow> dkeys (dset d k v) = dkeys d"
  by (induction d k v rule: dset.induct) (auto simp: dkeys_def dget_def split: if_splits)

lemma attach_facts:
  assumes "attach_to_session sid e s = Inr s'"
  shows "sq_orphan_queue s' = sq_orphan_queue s" "sq_receipts s' = sq_receipts s" "sq_ttl_seconds s' = sq_ttl_seconds s"
    "attached_to s' sid e" "\<And>i x. attached_to s i x \<Longrightarrow> attached_to s' i x" "sq_reconcile_counts s' = sq_reconcile_counts s"
  using assms by (auto simp: attach_to_session_def attached_to_def split: option.splits)

lemma emit_facts:
  "sq_orphan_queue (emit_receipt uu now e st s) = sq_orphan_queue s"
  "sq_sessions (emit_receipt uu now e st s) = sq_sessions s"
  "sq_ttl_seconds (emit_receipt uu now e st s) = sq_ttl_seconds s"
  "receipt_ids (emit_receipt uu now e st s) = receipt_ids s @ [o_event_id e]"
  by (simp_all add: emit_receipt_def receipt_ids_def Let_def)

lemma attached_to_cong: "sq_sessions s = sq_sessions t \<Longrightarrow> attached_to s = attached_to t"
  by (simp add: attached_to_def fun_eq_iff)

lemma entry_ok_cong: "sq_sessions s = sq_sessions t \<Longrightarrow> sq_receipts s = sq_receipts t \<Longrightarrow> entry_ok s = entry_ok t"
  using attached_to_cong [of s t] by (intro ext) (simp add: entry_ok_def receipt_ids_def split: option.split)

lemma resolve_inv:
  assumes inv: "sq_inv s" and e: "dget (sq_orphan_queue s) key = Some e" "\<not> o_reconciled e"
    and t: "sq_orphan_queue t = dset (sq_orphan_queue s) key (e\<lparr>o_reconciled := True, o_recovered_session_id := r\<rparr>)"
    "receipt_ids t = receipt_ids s @ [key]" "\<And>i x. attached_to s i x \<Longrightarrow> attached_to t i x"
    "\<And>sid. r = Some sid \<Longrightarrow> attached_to t sid (o_event e)"
  shows "sq_inv t"
proof -
  have ok: "entry_ok s key e" and key: "key \<notin> set (receipt_ids s)" "key \<in> set (dkeys (sq_orphan_queue s))"
    using inv e dget_None_iff [of "sq_orphan_queue s" key] by (auto simp: sq_inv_def entry_ok_def)
  have keys: "set (dkeys (sq_orphan_queue s)) \<subseteq> set (dkeys (sq_orphan_queue t))"
    unfolding t(1) by (auto simp: set_dkeys_dset)
  have "entry_ok t k x" if x: "dget (sq_orphan_queue t) k = Some x" for k x
  proof (cases "k = key")
    case True
    with x t ok show ?thesis by (auto simp: entry_ok_def split: option.splits)
  next
    case False
    then have "dget (sq_orphan_queue s) k = Some x" using x t(1) by auto
    then have "entry_ok s k x" using inv by (simp add: sq_inv_def)
    with False t(2,3) show ?thesis by (auto simp: entry_ok_def split: option.splits)
  qed
  with inv key keys t(2) show ?thesis by (auto simp: sq_inv_def)
qed

lemma reconcile_entry_inv:
  assumes inv: "sq_inv s" "reconcile_entry uu now key (s, q) = Inr (s', q')"
  shows "sq_inv s' \<and> dkeys (sq_orphan_queue s') = dkeys (sq_orphan_queue s)"
proof (cases "dget (sq_orphan_queue s) key")
  case None
  with assms show ?thesis by (simp add: reconcile_entry_def)
next
  case (Some e)
  show ?thesis
  proof (cases "o_reconciled e")
    case True
    with assms Some show ?thesis by (simp add: reconcile_entry_def)
  next
    case False
    let ?s1 = "s\<lparr>sq_reconcile_counts := dset (sq_reconcile_counts s) (o_event_id e) (dgetdef (sq_reconcile_counts s) (o_event_id e) 0 + 1)\<rparr>"
    show ?thesis
    proof (cases "matched_session (o_event e) ?s1")
      case None
      then have "s' = ?s1" using assms(2) Some False by (simp add: reconcile_entry_def Let_def)
      moreover have "entry_ok ?s1 = entry_ok s" by (rule entry_ok_cong) simp_all
      ultimately show ?thesis using inv(1) by (simp add: sq_inv_def receipt_ids_def)
    next
      case (Some sid)
      obtain s2 where s2: "attach_to_session sid (o_event e) ?s1 = Inr s2"
        using assms(2) \<open>dget _ key = Some e\<close> False Some by (auto simp: reconcile_entry_def Let_def rbind_eq_Inr)
      let ?e = "e\<lparr>o_reconciled := True, o_recovered_session_id := Some sid\<rparr>"
      let ?t = "s2\<lparr>sq_orphan_queue := dset (sq_orphan_queue s2) key ?e\<rparr>"
      have s': "s' = emit_receipt uu now ?e recovered ?t"
        using assms(2) \<open>dget _ key = Some e\<close> False Some s2 by (simp add: reconcile_entry_def Let_def)
      note A = attach_facts [OF s2]
      have q: "sq_orphan_queue s' = dset (sq_orphan_queue s) key ?e" using A(1) by (simp add: s' emit_facts)
      have id: "o_event_id e = key" using inv(1) \<open>dget _ key = Some e\<close> by (auto simp: sq_inv_def entry_ok_def)
      have at: "attached_to s' = attached_to s2" by (rule attached_to_cong) (simp add: s' emit_facts)
      have "sq_inv s'"
      proof (rule resolve_inv [OF inv(1) \<open>dget _ key = Some e\<close> False q])
        show "receipt_ids s' = receipt_ids s @ [key]" using A(2) id by (simp add: s' emit_facts) (simp add: receipt_ids_def)
        show "attached_to s' i x" if "attached_to s i x" for i x
          unfolding at using A(5) that by (simp add: attached_to_def)
        show "attached_to s' i (o_event e)" if "Some sid = Some i" for i unfolding at using A(4) that by simp
      qed
      moreover have "dkeys (sq_orphan_queue s') = dkeys (sq_orphan_queue s)"
        unfolding q using \<open>dget _ key = Some e\<close> by (intro dkeys_dset_present) simp
      ultimately show ?thesis by simp
    qed
  qed
qed

lemma quarantine_inv:
  assumes inv: "sq_inv s" and p: "\<And>e. dget (sq_orphan_queue s) key = Some e \<Longrightarrow> \<not> o_reconciled e"
  shows "sq_inv (quarantine uu now key s)"
proof (cases "dget (sq_orphan_queue s) key")
  case None
  with inv show ?thesis by (simp add: quarantine_def)
next
  case (Some e)
  have ok: "entry_ok s key e" using inv Some by (simp add: sq_inv_def)
  then have none: "o_recovered_session_id e = None"
    using p [OF Some] unfolding entry_ok_def by (cases "o_recovered_session_id e") simp_all
  then have e: "e\<lparr>o_reconciled := True\<rparr> = e\<lparr>o_reconciled := True, o_recovered_session_id := None\<rparr>"
    by (cases e) simp
  let ?t = "quarantine uu now key s"
  show ?thesis
  proof (rule resolve_inv [OF inv Some p [OF Some], where r = None])
    show "sq_orphan_queue ?t = dset (sq_orphan_queue s) key (e\<lparr>o_reconciled := True, o_recovered_session_id := None\<rparr>)"
      unfolding e [symmetric] using Some by (simp add: quarantine_def Let_def emit_facts)
    show "receipt_ids ?t = receipt_ids s @ [key]"
      using Some ok by (simp add: quarantine_def Let_def emit_facts entry_ok_def) (simp add: receipt_ids_def)
    show "attached_to ?t i x" if "attached_to s i x" for i x
    proof -
      have "attached_to ?t = attached_to s" by (rule attached_to_cong) (simp add: quarantine_def Some Let_def emit_facts)
      with that show ?thesis by simp
    qed
  qed simp
qed

text \<open>What one pass over the queue does to the entries: pending ones stay pending or are resolved.\<close>

definition pending_keys :: "SessionQuarantine \<Rightarrow> string set" where
  "pending_keys s = {key. \<exists>e. dget (sq_orphan_queue s) key = Some e \<and> \<not> o_reconciled e}"

lemma quarantine_pending: "pending_keys (quarantine uu now key s) = pending_keys s - {key}"
  by (auto simp: pending_keys_def quarantine_def Let_def emit_facts split: option.splits if_splits)

lemma reconcile_entry_pending:
  assumes "reconcile_entry uu now key (s, q) = Inr (s', q')"
  shows "pending_keys s' \<subseteq> pending_keys s \<and> pending_keys s - {key} \<subseteq> pending_keys s' \<and>
         (q' = q \<or> q' = q @ [key] \<and> key \<in> pending_keys s')"
proof (cases "dget (sq_orphan_queue s) key")
  case None
  with assms show ?thesis by (simp add: reconcile_entry_def)
next
  case (Some e)
  show ?thesis
  proof (cases "o_reconciled e")
    case True
    with assms Some show ?thesis by (simp add: reconcile_entry_def)
  next
    case False
    let ?s1 = "s\<lparr>sq_reconcile_counts := dset (sq_reconcile_counts s) (o_event_id e) (dgetdef (sq_reconcile_counts s) (o_event_id e) 0 + 1)\<rparr>"
    show ?thesis
    proof (cases "matched_session (o_event e) ?s1")
      case None
      with assms Some False have "s' = ?s1" "q' = q \<or> q' = q @ [key]"
        by (auto simp: reconcile_entry_def Let_def)
      with Some False show ?thesis by (auto simp: pending_keys_def)
    next
      case (Some sid)
      obtain s2 where s2: "attach_to_session sid (o_event e) ?s1 = Inr s2"
        using assms \<open>dget _ key = Some e\<close> False Some by (auto simp: reconcile_entry_def Let_def rbind_eq_Inr)
      have "sq_orphan_queue s' = dset (sq_orphan_queue s) key (e\<lparr>o_reconciled := True, o_recovered_session_id := Some sid\<rparr>)" "q' = q"
        using assms \<open>dget _ key = Some e\<close> False Some s2 attach_facts(1) [OF s2]
        by (auto simp: reconcile_entry_def Let_def emit_facts)
      then show ?thesis by (auto simp: pending_keys_def split: if_splits)
    qed
  qed
qed

lemma reconcile_pass:
  assumes "rfold (reconcile_entry uu now) keys (s, q) = Inr (s', q')" "sq_inv s" "distinct (q @ keys)" "set q \<subseteq> pending_keys s"
  shows "sq_inv s' \<and> distinct q' \<and> set q' \<subseteq> pending_keys s' \<and> dkeys (sq_orphan_queue s') = dkeys (sq_orphan_queue s) \<and>
         pending_keys s' \<subseteq> pending_keys s"
  using assms
proof (induction keys arbitrary: s q)
  case (Cons key keys)
  obtain s1 q1 where one: "reconcile_entry uu now key (s, q) = Inr (s1, q1)"
    and rest: "rfold (reconcile_entry uu now) keys (s1, q1) = Inr (s', q')"
    using Cons.prems(1) by (auto simp: rbind_eq_Inr)
  note I = reconcile_entry_inv [OF Cons.prems(2) one] and P = reconcile_entry_pending [OF one]
  have "set q \<subseteq> pending_keys s1" using P Cons.prems(3,4) by auto
  then have "set q1 \<subseteq> pending_keys s1" "distinct (q1 @ keys)" using P Cons.prems(3) by auto
  from Cons.IH [OF rest _ this(2,1)] I P show ?case by auto
qed simp

lemma quarantine_all:
  "sq_inv s \<Longrightarrow> distinct q \<Longrightarrow> set q \<subseteq> pending_keys s \<Longrightarrow>
     sq_inv (fold (quarantine uu now) q s) \<and> pending_keys (fold (quarantine uu now) q s) = pending_keys s - set q"
proof (induction q arbitrary: s)
  case (Cons key q)
  have "sq_inv (quarantine uu now key s)" using Cons.prems by (intro quarantine_inv) (auto simp: pending_keys_def)
  with Cons.IH [of "quarantine uu now key s"] Cons.prems quarantine_pending [of uu now key s] show ?case by auto
qed simp

lemma reconcile_inv:
  assumes "reconcile uu now s = Inr s'" "sq_inv s" "dwf (sq_orphan_queue s)"
  shows "sq_inv s'"
proof -
  obtain s1 q where p: "rfold (reconcile_entry uu now) (dkeys (sq_orphan_queue s)) (s, []) = Inr (s1, q)"
    and s': "s' = fold (quarantine uu now) q s1"
    using assms(1) by (auto simp: reconcile_def rbind_eq_Inr)
  have "sq_inv s1 \<and> distinct q \<and> set q \<subseteq> pending_keys s1"
    using reconcile_pass [OF p assms(2)] assms(3) by (simp add: dwf_def dkeys_def)
  with quarantine_all s' show ?thesis by blast
qed

lemma match_keys_session: "match_keys keys event sessions = Some sid \<Longrightarrow> sid \<in> set (dkeys sessions)"
proof (induction keys)
  case (Cons key keys)
  show ?case
  proof (cases "List.find (shares_key key (dgetdef event key VNone)) sessions")
    case None
    with Cons show ?thesis by (auto simp: Let_def split: if_splits)
  next
    case (Some sn)
    then have "sn \<in> set sessions" by (metis find_Some_iff nth_mem)
    with Some Cons show ?thesis by (auto simp: Let_def dkeys_def split: if_splits)
  qed
qed simp

lemma reconcile_entry_total: "\<exists>st'. reconcile_entry uu now key st = Inr st'"
proof -
  obtain s q where st: "st = (s, q)" by fastforce
  show ?thesis
  proof (cases "dget (sq_orphan_queue s) key")
    case (Some e)
    let ?s1 = "s\<lparr>sq_reconcile_counts := dset (sq_reconcile_counts s) (o_event_id e) (dgetdef (sq_reconcile_counts s) (o_event_id e) 0 + 1)\<rparr>"
    have "\<exists>s2. attach_to_session sid (o_event e) ?s1 = Inr s2" if "matched_session (o_event e) ?s1 = Some sid" for sid
    proof -
      have "sid \<in> set (dkeys (sq_sessions ?s1))" using that match_keys_session
        by (auto simp: matched_session_def find_matching_session_def bind_eq_Some_conv split: if_splits)
      then have "dget (sq_sessions ?s1) sid \<noteq> None" by (simp add: dget_None_iff)
      then show ?thesis by (auto simp: attach_to_session_def)
    qed
    with Some st show ?thesis by (auto simp: reconcile_entry_def Let_def split: option.split)
  qed (simp add: reconcile_entry_def st)
qed

lemma reconcile_total: "\<exists>s'. reconcile uu now s = Inr s'"
proof -
  have "\<exists>st'. rfold (reconcile_entry uu now) keys st = Inr st'" for keys st
    using reconcile_entry_total [of uu now] by (induction keys arbitrary: st) (auto, metis rbind_Inr)
  then obtain s1 q where "rfold (reconcile_entry uu now) (dkeys (sq_orphan_queue s)) (s, []) = Inr (s1, q)" by fastforce
  then show ?thesis by (simp add: reconcile_def)
qed

definition expired :: "rat \<Rightarrow> SessionQuarantine \<Rightarrow> string \<Rightarrow> bool" where
  "expired now s key \<longleftrightarrow>
     (\<exists>e. dget (sq_orphan_queue s) key = Some e \<and> \<not> o_reconciled e \<and> of_int (sq_ttl_seconds s) \<le> now - o_received_at e)"

lemma reconcile_entry_expired:
  assumes "reconcile_entry uu now key (s, q) = Inr (s', q')"
  shows "expired now s' k \<Longrightarrow> expired now s k" "expired now s' key \<Longrightarrow> key \<in> set q'" "set q \<subseteq> set q'"
    "sq_ttl_seconds s' = sq_ttl_seconds s"
proof -
  have "(expired now s' k \<longrightarrow> expired now s k) \<and> (expired now s' key \<longrightarrow> key \<in> set q') \<and> set q \<subseteq> set q' \<and>
      sq_ttl_seconds s' = sq_ttl_seconds s"
  proof (cases "dget (sq_orphan_queue s) key")
    case None
    with assms show ?thesis by (auto simp: reconcile_entry_def expired_def)
  next
    case (Some e)
    show ?thesis
    proof (cases "o_reconciled e")
      case True
      with assms Some show ?thesis by (auto simp: reconcile_entry_def expired_def)
    next
      case False
      let ?s1 = "s\<lparr>sq_reconcile_counts := dset (sq_reconcile_counts s) (o_event_id e) (dgetdef (sq_reconcile_counts s) (o_event_id e) 0 + 1)\<rparr>"
      show ?thesis
      proof (cases "matched_session (o_event e) ?s1")
        case None
        with assms Some False have "s' = ?s1" "q' = (if of_int (sq_ttl_seconds s) \<le> now - o_received_at e then q @ [key] else q)"
          by (auto simp: reconcile_entry_def Let_def)
        with Some False show ?thesis by (auto simp: expired_def)
      next
        case (Some sid)
        obtain s2 where s2: "attach_to_session sid (o_event e) ?s1 = Inr s2"
          using assms \<open>dget _ key = Some e\<close> False Some by (auto simp: reconcile_entry_def Let_def rbind_eq_Inr)
        have "sq_orphan_queue s' = dset (sq_orphan_queue s) key (e\<lparr>o_reconciled := True, o_recovered_session_id := Some sid\<rparr>)"
          "q' = q" "sq_ttl_seconds s' = sq_ttl_seconds s"
          using assms \<open>dget _ key = Some e\<close> False Some s2 attach_facts(1,3) [OF s2]
          by (auto simp: reconcile_entry_def Let_def emit_facts)
        then show ?thesis by (auto simp: expired_def split: if_splits)
      qed
    qed
  qed
  then show "expired now s' k \<Longrightarrow> expired now s k" "expired now s' key \<Longrightarrow> key \<in> set q'" "set q \<subseteq> set q'"
    "sq_ttl_seconds s' = sq_ttl_seconds s" by blast+
qed

lemma reconcile_pass_expired:
  assumes "rfold (reconcile_entry uu now) keys (s, q) = Inr (s', q')"
  shows "(expired now s' k \<longrightarrow> expired now s k) \<and> (expired now s' k \<longrightarrow> k \<in> set keys \<longrightarrow> k \<in> set q') \<and> set q \<subseteq> set q' \<and>
         sq_ttl_seconds s' = sq_ttl_seconds s"
  using assms
proof (induction keys arbitrary: s q)
  case (Cons key keys)
  obtain s1 q1 where one: "reconcile_entry uu now key (s, q) = Inr (s1, q1)"
    and rest: "rfold (reconcile_entry uu now) keys (s1, q1) = Inr (s', q')"
    using Cons.prems by (auto simp: rbind_eq_Inr)
  note E = reconcile_entry_expired [OF one] and IH = Cons.IH [OF rest]
  show ?case using IH E(1) [of k] E(2) E(3) E(4) by auto
qed simp

lemma quarantine_fold_ttl: "sq_ttl_seconds (fold (quarantine uu now) q s) = sq_ttl_seconds s"
proof (induction q arbitrary: s)
  case (Cons key q)
  have "sq_ttl_seconds (quarantine uu now key s) = sq_ttl_seconds s"
    by (simp add: quarantine_def Let_def emit_facts split: option.split)
  with Cons show ?case by simp
qed simp

lemma quarantine_received: "dget (sq_orphan_queue (quarantine uu now key s)) k = Some e' \<Longrightarrow> \<not> o_reconciled e' \<Longrightarrow>
    dget (sq_orphan_queue s) k = Some e'"
  by (auto simp: quarantine_def Let_def emit_facts split: option.splits if_splits)

lemma quarantine_expired: "expired now (quarantine uu now' key s) k \<Longrightarrow> expired now s k"
  using quarantine_received [of uu now' key s k] quarantine_fold_ttl [of uu now' "[key]" s]
  by (auto simp: expired_def)

lemma quarantine_fold_expired: "expired now (fold (quarantine uu now') q s) k \<Longrightarrow> expired now s k"
  by (induction q arbitrary: s) (auto dest: quarantine_expired)

lemma reconcile_no_expired:
  assumes r: "reconcile uu now s = Inr s'" and inv: "sq_inv s" "dwf (sq_orphan_queue s)"
  shows "\<not> expired now s' k"
proof
  assume x: "expired now s' k"
  obtain s1 q where p: "rfold (reconcile_entry uu now) (dkeys (sq_orphan_queue s)) (s, []) = Inr (s1, q)"
    and s': "s' = fold (quarantine uu now) q s1"
    using r by (auto simp: reconcile_def rbind_eq_Inr)
  have x1: "expired now s1 k" using x quarantine_fold_expired unfolding s' by blast
  note P = reconcile_pass [OF p inv(1)]
  have P': "sq_inv s1" "distinct q" "set q \<subseteq> pending_keys s1" "dkeys (sq_orphan_queue s1) = dkeys (sq_orphan_queue s)"
    using P inv(2) by (simp_all add: dwf_def dkeys_def)
  have "k \<in> set (dkeys (sq_orphan_queue s1))"
    using x1 dget_None_iff [of "sq_orphan_queue s1" k] by (auto simp: expired_def)
  then have "k \<in> set q" using reconcile_pass_expired [OF p, of k] x1 P'(4) by simp
  moreover have "k \<in> pending_keys s'" using x by (auto simp: expired_def pending_keys_def)
  ultimately show False using quarantine_all [OF P'(1-3), of uu now] s' by auto
qed

section \<open>Runs of the protocol\<close>

inductive sq_run :: "(nat \<Rightarrow> string) \<Rightarrow> SessionQuarantine \<Rightarrow> SessionQuarantine \<Rightarrow> bool" for uu s0 where
  start: "sq_run uu s0 s0"
| registers: "sq_run uu s0 s \<Longrightarrow> sq_run uu s0 (register_session now sid s)"
| receives: "sq_run uu s0 s \<Longrightarrow> event_received uu now e s = Inr (out, s') \<Longrightarrow>
    (\<forall>i n. event_id_of uu e (sq_ids s) = Inr (i, n) \<longrightarrow> i \<notin> set (dkeys (sq_orphan_queue s))) \<Longrightarrow> sq_run uu s0 s'"
| reconciles: "sq_run uu s0 s \<Longrightarrow> reconcile uu now s = Inr s' \<Longrightarrow> sq_run uu s0 s'"

lemma register_inv: "sq_inv s \<Longrightarrow> sq_inv (register_session now sid s)"
proof -
  assume inv: "sq_inv s"
  have at: "attached_to s i x \<Longrightarrow> attached_to (register_session now sid s) i x" for i x
    by (auto simp: attached_to_def register_session_def split: option.splits)
  have "entry_ok s k e \<Longrightarrow> entry_ok (register_session now sid s) k e" for k e
    using at by (cases "o_recovered_session_id e") (auto simp: entry_ok_def receipt_ids_def register_session_def split: option.splits)
  with inv show ?thesis
    by (auto simp: sq_inv_def receipt_ids_def register_session_def split: option.split)
qed

lemma receive_inv:
  assumes inv: "sq_inv s" "dwf (sq_orphan_queue s)" and r: "event_received uu now e s = Inr (out, s')"
    and fresh: "\<forall>i n. event_id_of uu e (sq_ids s) = Inr (i, n) \<longrightarrow> i \<notin> set (dkeys (sq_orphan_queue s))"
  shows "sq_inv s' \<and> dwf (sq_orphan_queue s')"
proof -
  obtain i n known where i: "event_id_of uu e (sq_ids s) = Inr (i, n)"
    and k: "known_session (s\<lparr>sq_ids := n\<rparr>) (dgetdef e ''session_id'' (VStr [])) = Inr known"
    using r by (auto simp: event_received_def rbind_eq_Inr Let_def split_beta)
  define ev where "ev = (case dget e ''event_id'' of None \<Rightarrow> dset e ''event_id'' (VStr i) | Some _ \<Rightarrow> e)"
  let ?s1 = "s\<lparr>sq_ids := n\<rparr>"
  have ok1: "entry_ok ?s1 = entry_ok s" by (rule entry_ok_cong) simp_all
  show ?thesis
  proof (cases known)
    case (Some sid)
    obtain s2 where s2: "attach_to_session sid ev ?s1 = Inr s2" "s' = s2"
      using r i k Some by (auto simp: event_received_def rbind_eq_Inr Let_def ev_def)
    note A = attach_facts [OF s2(1)]
    have "entry_ok s2 key x" if "entry_ok s key x" for key x
      using that A(5) A(2) unfolding ok1 [symmetric]
      by (cases "o_recovered_session_id x") (auto simp: entry_ok_def receipt_ids_def)
    with inv A(1,2) s2(2) show ?thesis by (auto simp: sq_inv_def receipt_ids_def)
  next
    case None
    have s': "s' = enqueue_orphan now i ev ?s1"
      using r i k None by (auto simp: event_received_def rbind_eq_Inr Let_def ev_def)
    have new: "i \<notin> set (dkeys (sq_orphan_queue s))" using fresh i by blast
    have ok: "entry_ok s' = entry_ok s" unfolding s' by (rule entry_ok_cong) (simp_all add: enqueue_orphan_def)
    have "entry_ok s key x" if "dget (sq_orphan_queue s') key = Some x" for key x
    proof (cases "key = i")
      case True
      then have "x = \<lparr>o_event_id = i, o_event = ev, o_received_at = now, o_reconciled = False, o_recovered_session_id = None\<rparr>"
        using that by (simp add: s' enqueue_orphan_def)
      with True new inv(1) show ?thesis by (auto simp: entry_ok_def sq_inv_def)
    next
      case False
      with that inv(1) show ?thesis by (auto simp: s' enqueue_orphan_def sq_inv_def split: if_splits)
    qed
    with inv ok show ?thesis
      by (auto simp: sq_inv_def s' enqueue_orphan_def receipt_ids_def set_dkeys_dset)
  qed
qed

lemma quarantine_keys: "dkeys (sq_orphan_queue (quarantine uu now key s)) = dkeys (sq_orphan_queue s)"
  by (auto simp: quarantine_def Let_def emit_facts dkeys_dset_present split: option.split)

lemma reconcile_keys: "reconcile uu now s = Inr s' \<Longrightarrow> sq_inv s \<Longrightarrow> dwf (sq_orphan_queue s) \<Longrightarrow> dwf (sq_orphan_queue s')"
proof -
  assume r: "reconcile uu now s = Inr s'" "sq_inv s" "dwf (sq_orphan_queue s)"
  obtain s1 q where p: "rfold (reconcile_entry uu now) (dkeys (sq_orphan_queue s)) (s, []) = Inr (s1, q)"
    and s': "s' = fold (quarantine uu now) q s1"
    using r(1) by (auto simp: reconcile_def rbind_eq_Inr)
  have "dkeys (sq_orphan_queue s1) = dkeys (sq_orphan_queue s)"
    using reconcile_pass [OF p r(2)] r(3) by (simp add: dwf_def dkeys_def)
  moreover have "dkeys (sq_orphan_queue (fold (quarantine uu now) q s1)) = dkeys (sq_orphan_queue s1)" for q
    by (induction q arbitrary: s1) (simp_all add: quarantine_keys)
  ultimately show ?thesis using r(3) s' by (simp add: dwf_def dkeys_def)
qed

lemma sq_run_inv: "sq_run uu (new_protocol ttl) s \<Longrightarrow> sq_inv s \<and> dwf (sq_orphan_queue s)"
proof (induction rule: sq_run.induct)
  case start
  then show ?case by (simp add: sq_inv_def new_protocol_def receipt_ids_def dwf_def dkeys_def dget_def)
next
  case (registers s now sid)
  then show ?case using register_inv by (simp add: register_session_def split: option.split)
next
  case (receives s now e out s')
  then show ?case using receive_inv by blast
next
  case (reconciles s now s')
  then show ?case using reconcile_inv reconcile_keys by blast
qed

section \<open>Properties\<close>



text \<open>
  Reconciliation always completes and leaves no expired orphan: after it every event still
  waiting is younger than the time to live.
\<close>

theorem reconcile_leaves_no_expired:
  assumes "sq_run uu (new_protocol ttl) s"
  shows "\<exists>s'. reconcile uu now s = Inr s' \<and>
           (\<forall>e \<in> set (get_orphan_queue s'). now - o_received_at e < of_int (sq_ttl_seconds s'))"
proof -
  obtain s' where r: "reconcile uu now s = Inr s'" using reconcile_total by blast
  note I = sq_run_inv [OF assms]
  have wf: "dwf (sq_orphan_queue s')" using reconcile_keys [OF r] I by blast
  have "now - o_received_at e < of_int (sq_ttl_seconds s')" if e: "e \<in> set (get_orphan_queue s')" for e
  proof -
    obtain key where "(key, e) \<in> set (sq_orphan_queue s')" "\<not> o_reconciled e" using e by (auto simp: get_orphan_queue_def)
    then have "dget (sq_orphan_queue s') key = Some e" "\<not> o_reconciled e" using dget_in_dwf [OF wf] by auto
    with reconcile_no_expired [OF r, of key] I show ?thesis by (auto simp: expired_def not_le)
  qed
  with r show ?thesis by blast
qed

theorem reconcile_leaves_no_expired_witness:
  "\<exists>s'. reconcile (\<lambda>n. ''u'') 400 (new_protocol 300) = Inr s' \<and>
     list_all (\<lambda>e. 400 - o_received_at e < of_int (sq_ttl_seconds s')) (get_orphan_queue s')"
  using reconcile_leaves_no_expired [OF sq_run.start] by (auto simp: list_all_iff)

text \<open>
  A reused id loses an event. When an event of an unknown session arrives with the id of an orphan
  that is still waiting, the waiting one is dropped: it is replaced in the queue and appears neither in a
  session nor in a receipt.
\<close>

theorem reused_id_drops_orphan:
  assumes "dget (sq_orphan_queue s) i = Some e1" "dget e2 ''event_id'' = Some (VStr i)" "i \<noteq> []"
    and "known_session s (dgetdef e2 ''session_id'' (VStr [])) = Inr None"
  shows "\<exists>s'. event_received uu now e2 s = Inr (orphaned, s') \<and> sq_sessions s' = sq_sessions s \<and> sq_receipts s' = sq_receipts s \<and>
           (\<exists>entry. dget (sq_orphan_queue s') i = Some entry \<and> o_event entry = e2)"
proof -
  have "known_session (s\<lparr>sq_ids := sq_ids s\<rparr>) (dgetdef e2 ''session_id'' (VStr [])) = Inr None" using assms(4) by simp
  with assms(2,3) show ?thesis
    by (auto simp: event_received_def event_id_of_def dgetdef_def enqueue_orphan_def)
qed

theorem reused_id_drops_orphan_witness:
  "\<exists>s'. event_received (\<lambda>n. ''u'') 1 [(''event_id'', VStr ''e''), (''task_id'', VInt 2)]
      ((new_protocol 300)\<lparr>sq_orphan_queue := [(''e'', \<lparr>o_event_id = ''e'', o_event = [(''event_id'', VStr ''e''), (''task_id'', VInt 1)],
          o_received_at = 0, o_reconciled = False, o_recovered_session_id = None\<rparr>)]\<rparr>) = Inr (orphaned, s') \<and>
     sq_receipts s' = [] \<and> (\<exists>entry. dget (sq_orphan_queue s') ''e'' = Some entry \<and> o_event entry = [(''event_id'', VStr ''e''), (''task_id'', VInt 2)])"
proof -
  let ?e1 = "\<lparr>o_event_id = ''e'', o_event = [(''event_id'', VStr ''e''), (''task_id'', VInt 1)],
          o_received_at = 0, o_reconciled = False, o_recovered_session_id = None\<rparr>"
  let ?s = "(new_protocol 300)\<lparr>sq_orphan_queue := [(''e'', ?e1)]\<rparr>"
  have "dget (sq_orphan_queue ?s) ''e'' = Some ?e1" "dget [(''event_id'', VStr ''e''), (''task_id'', VInt 2)] ''event_id'' = Some (VStr ''e'')"
    "known_session ?s (dgetdef [(''event_id'', VStr ''e''), (''task_id'', VInt 2)] ''session_id'' (VStr [])) = Inr None"
    by (simp_all add: dget_def dgetdef_def known_session_def)
  from reused_id_drops_orphan [OF this(1,2) _ this(3), of "\<lambda>n. ''u''" 1] show ?thesis by (auto simp: new_protocol_def)
qed

end
