(* ===== verification/Semantic_Algebra.thy ===== *)
theory Semantic_Algebra
  imports Py_Values "HOL-Library.FSet" "HOL-Library.Product_Lexorder" "HOL-Library.Multiset"
begin

text \<open>
  \<open>third_party/procyber/semantic/semantic_algebra.py\<close>: the graded algebra of terms, the verdict
  lattice and the crossing between layers. A term holds its three roles, so a product built without
  a differentia or a mode is not represented. \<open>BOTTOM\<close> is \<open>None\<close>. A term set is a finite set; where
  the code iterates over one in canonical order the model takes the list of its elements ordered by
  their codes. Labels of a lexicon and the remaining text fields are strings; a confidence is an
  exact rational.
\<close>

section \<open>Terms\<close>

datatype primitive = NIL | POT | ACT | FST | SND | TRD

definition PRIMITIVES :: "primitive list" where
  "PRIMITIVES = [NIL, POT, ACT, FST, SND, TRD]"

fun symbol :: "primitive \<Rightarrow> string" where
  "symbol NIL = ''NIL''"
| "symbol POT = ''POT''"
| "symbol ACT = ''ACT''"
| "symbol FST = ''FST''"
| "symbol SND = ''SND''"
| "symbol TRD = ''TRD''"

definition MAX_LAYER :: nat where
  "MAX_LAYER = 4"

definition ROLES :: "string list" where
  "ROLES = [''ground'', ''differentia'', ''mode'']"

datatype Term = Prim primitive | Product Term Term Term

fun layer :: "Term \<Rightarrow> nat" where
  "layer (Prim p) = 0"
| "layer (Product g d m) = layer g + 1"

fun is_leaf :: "Term \<Rightarrow> bool" where
  "is_leaf (Prim p) \<longleftrightarrow> True"
| "is_leaf (Product g d m) \<longleftrightarrow> False"

fun roles :: "Term \<Rightarrow> (string, Term) dict" where
  "roles (Prim p) = []"
| "roles (Product g d m) = [(''ground'', g), (''differentia'', d), (''mode'', m)]"

definition role :: "Term \<Rightarrow> string \<Rightarrow> Term result" where
  "role t r = (case dget (roles t) r of None \<Rightarrow> Inl KeyError | Some u \<Rightarrow> Inr u)"

fun code :: "Term \<Rightarrow> string" where
  "code (Prim p) = symbol p"
| "code (Product g d m) = ''('' @ code g @ '' '' @ code d @ '' '' @ code m @ '')''"

definition prim :: "string \<Rightarrow> Term result" where
  "prim s = (case List.find (\<lambda>p. symbol p = s) PRIMITIVES of None \<Rightarrow> Inl ValueError | Some p \<Rightarrow> Inr (Prim p))"

fun neutral_at :: "nat \<Rightarrow> Term" where
  "neutral_at 0 = Prim NIL"
| "neutral_at (Suc n) = Product (neutral_at n) (neutral_at n) (neutral_at n)"

definition mul :: "Term \<Rightarrow> Term \<Rightarrow> Term option \<Rightarrow> Term result" where
  "mul ground differentia mode =
     (let mode_term = (case mode of Some m \<Rightarrow> m | None \<Rightarrow> neutral_at (layer ground)) in
      if \<not> (layer ground = layer differentia \<and> layer ground = layer mode_term) then Inl LayerError
      else if layer ground + 1 > MAX_LAYER then Inl LayerError
      else Inr (Product ground differentia mode_term))"

text \<open>The terms that \<open>mul\<close> and \<open>prim\<close> build: every role one layer below, at most \<open>MAX_LAYER\<close> layers.\<close>

fun graded :: "Term \<Rightarrow> bool" where
  "graded (Prim p) \<longleftrightarrow> True"
| "graded (Product g d m) \<longleftrightarrow> graded g \<and> graded d \<and> graded m \<and> layer d = layer g \<and> layer m = layer g"

lemma symbol_length: "length (symbol p) = 3"
  by (cases p) simp_all

lemma symbol_inj: "symbol p = symbol q \<longleftrightarrow> p = q"
  by (cases p; cases q) simp_all

lemma symbol_hd: "symbol p \<noteq> CHR ''('' # s"
  by (cases p) simp_all

lemma code_prefix_free: "code t @ r = code u @ s \<Longrightarrow> t = u \<and> r = s"
proof (induction t arbitrary: u r s)
  case (Prim p)
  show ?case
  proof (cases u)
    case (Prim q)
    with Prim.prems show ?thesis using symbol_length [of p] symbol_length [of q] by (simp add: symbol_inj)
  next
    case (Product g d m)
    with Prim.prems have "symbol p @ r = CHR ''('' # (code g @ '' '' @ code d @ '' '' @ code m @ '')'' @ s)" by simp
    then show ?thesis using symbol_hd [of p] symbol_length [of p] by (cases "symbol p") auto
  qed
next
  case (Product g d m)
  show ?case
  proof (cases u)
    case (Prim q)
    with Product.prems have "symbol q @ s = CHR ''('' # (code g @ '' '' @ code d @ '' '' @ code m @ '')'' @ r)" by simp
    then show ?thesis using symbol_hd [of q] symbol_length [of q] by (cases "symbol q") auto
  next
    case (Product g' d' m')
    with Product.prems have e: "code g @ CHR '' '' # code d @ CHR '' '' # code m @ CHR '')'' # r =
        code g' @ CHR '' '' # code d' @ CHR '' '' # code m' @ CHR '')'' # s" by simp
    note G = Product.IH(1) [OF e]
    then have e2: "code d @ CHR '' '' # code m @ CHR '')'' # r = code d' @ CHR '' '' # code m' @ CHR '')'' # s" by simp
    note D = Product.IH(2) [OF e2]
    then have "code m @ CHR '')'' # r = code m' @ CHR '')'' # s" by simp
    from Product.IH(3) [OF this] G D \<open>u = _\<close> show ?thesis by simp
  qed
qed

lemma code_inj [simp]: "code t = code u \<longleftrightarrow> t = u"
  using code_prefix_free [of t "[]" u "[]"] by auto

text \<open>Terms are ordered by their codes, the order in which the code sorts them.\<close>

instantiation Term :: linorder
begin

definition less_eq_Term :: "Term \<Rightarrow> Term \<Rightarrow> bool" where
  "less_eq_Term t u \<longleftrightarrow> code t \<le> code u"

definition less_Term :: "Term \<Rightarrow> Term \<Rightarrow> bool" where
  "less_Term t u \<longleftrightarrow> code t < code u"

instance
  by standard (auto simp: less_eq_Term_def less_Term_def less_le)

end

section \<open>Sets of terms\<close>

type_synonym TermSet = "Term fset"

definition term_list :: "TermSet \<Rightarrow> Term list" where
  "term_list S = sorted_list_of_set (fset S)"

definition mk_termset :: "Term list \<Rightarrow> TermSet result" where
  "mk_termset ts =
     (case ts of
        [] \<Rightarrow> Inl ValueError
      | t # _ \<Rightarrow> if \<forall>u \<in> set ts. layer u = layer t then Inr (fset_of_list ts) else Inl LayerError)"

definition ts_layer :: "TermSet \<Rightarrow> nat" where
  "ts_layer S = layer (hd (term_list S))"

fun join_text :: "string \<Rightarrow> string list \<Rightarrow> string" where
  "join_text sep [] = []"
| "join_text sep [s] = s"
| "join_text sep (s # ss) = s @ sep @ join_text sep ss"

definition ts_code :: "TermSet \<Rightarrow> string" where
  "ts_code S = join_text '' + '' (map code (term_list S))"

definition add :: "Term list \<Rightarrow> TermSet result" where
  "add terms = mk_termset terms"

datatype operand = One Term | Many TermSet

fun op_layer :: "operand \<Rightarrow> nat" where
  "op_layer (One t) = layer t"
| "op_layer (Many S) = ts_layer S"

definition as_set :: "operand option \<Rightarrow> nat \<Rightarrow> Term list" where
  "as_set x layer_hint =
     (case x of None \<Rightarrow> [neutral_at layer_hint] | Some (Many S) \<Rightarrow> term_list S | Some (One t) \<Rightarrow> [t])"

definition distribute :: "operand \<Rightarrow> operand \<Rightarrow> operand option \<Rightarrow> TermSet result" where
  "distribute ground differentia mode =
     (let n = op_layer ground;
          cells = [(g, d, m). g \<leftarrow> as_set (Some ground) n, d \<leftarrow> as_set (Some differentia) n, m \<leftarrow> as_set mode n] in
      rbind (rmap (\<lambda>(g, d, m). mul g d (Some m)) cells) mk_termset)"

section \<open>Distance\<close>

fun term_distance :: "Term \<Rightarrow> Term \<Rightarrow> nat result" where
  "term_distance (Prim p) b =
     (if layer b \<noteq> 0 then Inl LayerError else Inr (if Prim p = b then 0 else 1))"
| "term_distance (Product g d m) b =
     (if layer b \<noteq> layer g + 1 then Inl LayerError
      else if Product g d m = b then Inr 0
      else case b of
             Prim q \<Rightarrow> Inr 1
           | Product g' d' m' \<Rightarrow>
               rbind (term_distance g g') (\<lambda>x. rbind (term_distance d d') (\<lambda>y. rbind (term_distance m m') (\<lambda>z.
                 let n = (if 0 < x then 1 else 0) + (if 0 < y then 1 else 0) + (if 0 < z then 1 else (0 :: nat)) in
                 Inr (if n = 0 then 1 else n)))))"

definition distance :: "Term option \<Rightarrow> Term option \<Rightarrow> nat result" where
  "distance a b =
     (case (a, b) of (Some t, Some u) \<Rightarrow> term_distance t u | _ \<Rightarrow> Inl LayerError)"

definition score :: "Term \<Rightarrow> nat \<Rightarrow> Term \<Rightarrow> (nat \<times> string \<times> Term) list \<Rightarrow> (nat \<times> string \<times> Term) list result" where
  "score target radius c scored =
     (if layer c \<noteq> layer target then Inr scored
      else rbind (term_distance target c) (\<lambda>d. Inr (if d \<le> radius then scored @ [(d, code c, c)] else scored)))"

definition neighbours :: "Term \<Rightarrow> Term list \<Rightarrow> nat \<Rightarrow> Term list result" where
  "neighbours target candidates radius =
     rbind (rfold (score target radius) candidates []) (\<lambda>scored. Inr (map (\<lambda>(d, s, c). c) (sort scored)))"

section \<open>The dual operators\<close>

fun agrees :: "(string \<times> Term) list \<Rightarrow> Term \<Rightarrow> bool result" where
  "agrees [] cell = Inr True"
| "agrees ((r, want) # cs) cell = rbind (role cell r) (\<lambda>u. if u = want then agrees cs cell else Inr False)"

definition keep_cell :: "(string, Term) dict \<Rightarrow> Term \<Rightarrow> Term list \<Rightarrow> Term list result" where
  "keep_cell constraint cell kept =
     (if is_leaf cell then Inr kept
      else rbind (agrees constraint cell) (\<lambda>ok. Inr (if ok then kept @ [cell] else kept)))"

definition pullback :: "TermSet \<Rightarrow> (string, Term) dict \<Rightarrow> TermSet option result" where
  "pullback candidates constraint =
     rbind (rfold (keep_cell constraint) (term_list candidates) []) (\<lambda>kept.
       if kept = [] then Inr None else rbind (mk_termset kept) (\<lambda>S. Inr (Some S)))"

definition glue :: "Term \<Rightarrow> Term \<Rightarrow> Term" where
  "glue a b = (if a = b then a else neutral_at (layer a))"

definition pushout :: "Term \<Rightarrow> Term \<Rightarrow> string \<Rightarrow> Term result" where
  "pushout a b along =
     (if along \<notin> set ROLES then Inl ValueError
      else case (a, b) of
             (Product g d m, Product g' d' m') \<Rightarrow>
               if layer a \<noteq> layer b then Inl LayerError
               else if dget (roles a) along \<noteq> dget (roles b) along then Inl ValueError
               else mul (glue g g') (glue d d') (Some (glue m m'))
           | _ \<Rightarrow> Inl ValueError)"

section \<open>Verdicts\<close>

definition VERDICT_CLEARS :: "(string, string fset) dict" where
  "VERDICT_CLEARS =
     [(''refuse'', {||}),
      (''quarantine'', {|''observe_isolated''|}),
      (''weak'', {|''observe_isolated'', ''cite''|}),
      (''probable'', {|''observe_isolated'', ''cite'', ''act_reversible''|}),
      (''sealed'', {|''observe_isolated'', ''cite'', ''act_reversible'', ''act_irreversible''|})]"

definition cleared :: "(string, string fset) dict \<Rightarrow> string \<Rightarrow> string fset" where
  "cleared clears v = dgetdef clears v {||}"

definition derive_verdict_order :: "(string, string fset) dict \<Rightarrow> string list result" where
  "derive_verdict_order clears =
     (let verdicts = sort_key (\<lambda>v. (fcard (cleared clears v), v)) (dkeys clears) in
      if list_all (\<lambda>(weaker, stronger). cleared clears weaker |\<subseteq>| cleared clears stronger) (zip verdicts (tl verdicts))
      then Inr verdicts else Inl ValueError)"

definition VERDICT_ORDER :: "string list" where
  "VERDICT_ORDER = (case derive_verdict_order VERDICT_CLEARS of Inr vs \<Rightarrow> vs | Inl _ \<Rightarrow> [])"

fun index_of :: "'a list \<Rightarrow> 'a \<Rightarrow> nat" where
  "index_of [] x = 0"
| "index_of (y # ys) x = (if x = y then 0 else Suc (index_of ys x))"

definition verdict_rank :: "string \<Rightarrow> nat" where
  "verdict_rank v = index_of VERDICT_ORDER v"

definition meet :: "string option list \<Rightarrow> string option result" where
  "meet verdicts =
     (if verdicts = [] then Inl ValueError
      else if None \<in> set verdicts then Inr None
      else let vs = map the verdicts in
           if \<exists>v \<in> set vs. v \<notin> set VERDICT_ORDER then Inl ValueError
           else Inr (Some (arg_min_list verdict_rank vs)))"

section \<open>Tiered binding\<close>

definition bind_tiered :: "Term \<Rightarrow> TermSet \<Rightarrow> TermSet \<Rightarrow> Term option result" where
  "bind_tiered query upper lower =
     (if layer query \<noteq> ts_layer upper then Inl LayerError
      else rbind (neighbours query (term_list upper) 1) (\<lambda>anchors.
        case anchors of
          [] \<Rightarrow> Inr None
        | anchor # _ \<Rightarrow>
            Inr (case filter (\<lambda>cell. dget (roles cell) ''ground'' = Some anchor) (term_list lower) of
                   [] \<Rightarrow> None
                 | cell # _ \<Rightarrow> Some cell)))"

section \<open>Addresses and lexicons\<close>

definition INFERENCE_TYPES :: "string list" where
  "INFERENCE_TYPES = [''induced'', ''deduced'', ''abduced'', ''asserted'']"

definition MOODS :: "string list" where
  "MOODS = [''assert'', ''quote'', ''negate'', ''ask'']"

record SemanticAddress =
  sa_term :: "Term option"
  sa_iri :: "string option"
  sa_inference :: string
  sa_mood :: string
  sa_confidence :: "rat option"
  sa_evidence_ref :: pyval
  sa_valid_from :: "string option"
  sa_valid_until :: "string option"
  sa_revocation_ref :: "string option"
  sa_lexicon :: "string option"

definition sa_check :: "SemanticAddress \<Rightarrow> SemanticAddress result" where
  "sa_check a =
     (if sa_inference a \<notin> set INFERENCE_TYPES then Inl ValueError
      else if sa_mood a \<notin> set MOODS then Inl ValueError
      else case sa_confidence a of
             None \<Rightarrow> Inr a
           | Some c \<Rightarrow> if 0 \<le> c \<and> c \<le> 1 then Inr a else Inl ValueError)"

definition abstains :: "SemanticAddress \<Rightarrow> bool" where
  "abstains a \<longleftrightarrow> sa_term a = None"

definition sa_layer :: "SemanticAddress \<Rightarrow> nat result" where
  "sa_layer a = (case sa_term a of None \<Rightarrow> Inl LayerError | Some t \<Rightarrow> Inr (layer t))"

definition is_grounded :: "SemanticAddress \<Rightarrow> bool" where
  "is_grounded a \<longleftrightarrow> sa_term a \<noteq> None \<and> sa_iri a \<noteq> None \<and> sa_iri a \<noteq> Some []"

definition skeleton :: "SemanticAddress \<Rightarrow> (string, pyval) dict" where
  "skeleton a =
     [(''code'', case sa_term a of None \<Rightarrow> VStr ''BOTTOM'' | Some t \<Rightarrow> VStr (code t)),
      (''layer'', case sa_term a of None \<Rightarrow> VNone | Some t \<Rightarrow> VInt (int (layer t))),
      (''abstains'', VBool (abstains a)),
      (''inference'', VStr (sa_inference a)),
      (''mood'', VStr (sa_mood a))]"

definition opt_str :: "string option \<Rightarrow> pyval" where
  "opt_str s = (case s of None \<Rightarrow> VNone | Some t \<Rightarrow> VStr t)"

definition sa_to_json :: "SemanticAddress \<Rightarrow> (string, pyval) dict" where
  "sa_to_json a =
     (''specVersion'', VStr ''0.2.0'') # skeleton a @
     filter (\<lambda>(k, v). v \<noteq> VNone)
       [(''iri'', opt_str (sa_iri a)),
        (''confidence'', case sa_confidence a of None \<Rightarrow> VNone | Some c \<Rightarrow> VFloat (Fin c)),
        (''evidenceRef'', sa_evidence_ref a),
        (''validFrom'', opt_str (sa_valid_from a)),
        (''validUntil'', opt_str (sa_valid_until a)),
        (''revocationRef'', opt_str (sa_revocation_ref a)),
        (''lexicon'', opt_str (sa_lexicon a))]"

definition address_distance :: "SemanticAddress \<Rightarrow> SemanticAddress \<Rightarrow> nat result" where
  "address_distance a b = distance (sa_term a) (sa_term b)"

record Lexicon =
  lex_name :: string
  lex_version :: string
  lex_labels :: "(string, string) dict"
  lex_license :: string

definition lex_label :: "Lexicon \<Rightarrow> Term \<Rightarrow> string option" where
  "lex_label l t = dget (lex_labels l) (code t)"

definition covers :: "Lexicon \<Rightarrow> Term \<Rightarrow> bool" where
  "covers l t \<longleftrightarrow> code t \<in> set (dkeys (lex_labels l))"

type_synonym LexiconRegistry = "Lexicon list"

definition lex_register :: "LexiconRegistry \<Rightarrow> Lexicon \<Rightarrow> LexiconRegistry" where
  "lex_register ls l = ls @ [l]"

fun lex_resolve :: "LexiconRegistry \<Rightarrow> Term \<Rightarrow> (string \<times> Lexicon) option" where
  "lex_resolve [] t = None"
| "lex_resolve (l # ls) t = (case lex_label l t of Some s \<Rightarrow> Some (s, l) | None \<Rightarrow> lex_resolve ls t)"

definition coverage :: "LexiconRegistry \<Rightarrow> Term list \<Rightarrow> rat" where
  "coverage ls terms =
     (if terms = [] then 0
      else of_nat (length (filter (\<lambda>t. lex_resolve ls t \<noteq> None) terms)) / of_nat (length terms))"

section \<open>Crossing layers\<close>

definition lift :: "Term option \<Rightarrow> Term result" where
  "lift t =
     (case t of
        None \<Rightarrow> Inl LayerError
      | Some u \<Rightarrow> mul u (neutral_at (layer u)) (Some (neutral_at (layer u))))"

definition ground :: "Term option \<Rightarrow> Term option" where
  "ground p = (case p of Some (Product g d m) \<Rightarrow> Some g | _ \<Rightarrow> None)"

fun term_refines :: "Term \<Rightarrow> Term \<Rightarrow> bool result" where
  "term_refines (Prim p) b =
     (if layer b \<noteq> 0 then Inl LayerError
      else Inr (b = Prim NIL \<or> Prim p = b))"
| "term_refines (Product g d m) b =
     (if layer b \<noteq> layer g + 1 then Inl LayerError
      else if b = neutral_at (layer b) then Inr True
      else case b of
             Prim q \<Rightarrow> Inr False
           | Product g' d' m' \<Rightarrow>
               rbind (term_refines g g') (\<lambda>x. if \<not> x then Inr False
                 else rbind (term_refines d d') (\<lambda>y. if \<not> y then Inr False else term_refines m m')))"

definition refines :: "Term option \<Rightarrow> Term option \<Rightarrow> bool result" where
  "refines a b = (case (a, b) of (Some t, Some u) \<Rightarrow> term_refines t u | _ \<Rightarrow> Inl LayerError)"

definition distance_bridged :: "Term option \<Rightarrow> Term option \<Rightarrow> nat result" where
  "distance_bridged lo hi =
     (case (lo, hi) of
        (Some l, Some h) \<Rightarrow>
          if layer h \<noteq> layer l + 1 then Inl LayerError
          else rbind (lift lo) (\<lambda>t. distance (Some t) hi)
      | _ \<Rightarrow> Inl LayerError)"

section \<open>Facts about terms\<close>

lemma neutral_layer [simp]: "layer (neutral_at n) = n"
  by (induction n) simp_all

lemma neutral_graded [simp]: "graded (neutral_at n)"
  by (induction n) simp_all

lemma neutral_eq [simp]: "neutral_at m = neutral_at n \<longleftrightarrow> m = n"
  by (metis neutral_layer)

definition mode_or_neutral :: "Term \<Rightarrow> Term option \<Rightarrow> Term" where
  "mode_or_neutral g m = (case m of Some u \<Rightarrow> u | None \<Rightarrow> neutral_at (layer g))"

lemma mul_if:
  "mul g d m =
     (if layer d = layer g \<and> layer (mode_or_neutral g m) = layer g \<and> layer g < MAX_LAYER
      then Inr (Product g d (mode_or_neutral g m)) else Inl LayerError)"
  unfolding mul_def Let_def mode_or_neutral_def [symmetric] by (simp add: eq_commute [of "layer g"] not_less)

lemma mul_Inr:
  "mul g d m = Inr t \<longleftrightarrow>
     layer d = layer g \<and> layer (mode_or_neutral g m) = layer g \<and> layer g < MAX_LAYER \<and> t = Product g d (mode_or_neutral g m)"
  unfolding mul_if by simp blast

lemma mul_graded: "mul g d m = Inr t \<Longrightarrow> graded g \<Longrightarrow> graded d \<Longrightarrow> pred_option graded m \<Longrightarrow> graded t \<and> layer t \<le> MAX_LAYER"
  unfolding mul_Inr by (cases m) (simp_all add: mode_or_neutral_def)

lemma layer_0: "layer t = 0 \<longleftrightarrow> (\<exists>p. t = Prim p)"
  by (cases t) simp_all

lemma layer_Suc: "layer t = Suc n \<longleftrightarrow> (\<exists>g d m. t = Product g d m \<and> layer g = n)"
  by (cases t) auto

text \<open>On graded terms of one layer the distance counts the roles that differ.\<close>

definition role_diff :: "Term \<Rightarrow> Term \<Rightarrow> nat" where
  "role_diff a b =
     (case (a, b) of
        (Product g d m, Product g' d' m') \<Rightarrow> of_bool (g \<noteq> g') + of_bool (d \<noteq> d') + of_bool (m \<noteq> m')
      | _ \<Rightarrow> of_bool (a \<noteq> b))"

lemma role_diff_0 [simp]: "role_diff a b = 0 \<longleftrightarrow> a = b"
  by (cases a; cases b) (auto simp: role_diff_def)

lemma role_diff_pos [simp]: "0 < role_diff a b \<longleftrightarrow> a \<noteq> b"
  using role_diff_0 [of a b] by linarith

lemma role_diff_Product [simp]:
  "role_diff (Product g d m) (Product g' d' m') = of_bool (g \<noteq> g') + of_bool (d \<noteq> d') + of_bool (m \<noteq> m')"
  by (simp add: role_diff_def)

lemma term_distance_graded: "graded a \<Longrightarrow> graded b \<Longrightarrow> layer a = layer b \<Longrightarrow> term_distance a b = Inr (role_diff a b)"
proof (induction a arbitrary: b)
  case (Prim p)
  then show ?case by (cases b) (simp_all add: role_diff_def)
next
  case (Product g d m)
  obtain g' d' m' where b: "b = Product g' d' m'" using Product.prems(3) by (cases b) auto
  have "term_distance g g' = Inr (role_diff g g')" "term_distance d d' = Inr (role_diff d d')" "term_distance m m' = Inr (role_diff m m')"
    using Product b by auto
  then show ?case using Product.prems(3) by (auto simp: b Let_def)
qed

lemma term_distance_layers: "layer a \<noteq> layer b \<Longrightarrow> term_distance a b = Inl LayerError"
  by (cases a) auto

lemma role_diff_triangle: "layer a = layer b \<Longrightarrow> layer b = layer c \<Longrightarrow> role_diff a c \<le> role_diff a b + role_diff b c"
  by (cases a; cases b; cases c) (auto simp: role_diff_def)

lemma role_diff_commute: "role_diff a b = role_diff b a"
  by (cases a; cases b) (auto simp: role_diff_def)

section \<open>Refinement\<close>

lemma refines_layers: "layer a \<noteq> layer b \<Longrightarrow> term_refines a b = Inl LayerError"
  by (cases a) auto

text \<open>On graded terms of one layer refinement is decided role by role.\<close>

fun below_term :: "Term \<Rightarrow> Term \<Rightarrow> bool" where
  "below_term (Prim p) (Prim q) \<longleftrightarrow> q = NIL \<or> p = q"
| "below_term (Product g d m) (Product g' d' m') \<longleftrightarrow> below_term g g' \<and> below_term d d' \<and> below_term m m'"
| "below_term _ _ \<longleftrightarrow> False"

lemma below_neutral: "graded a \<Longrightarrow> below_term a (neutral_at (layer a))"
proof (induction a)
  case (Product g d m)
  then have "below_term d (neutral_at (layer g))" "below_term m (neutral_at (layer g))" "below_term g (neutral_at (layer g))"
    by (metis graded.simps(2))+
  then show ?case by simp
qed simp

lemma term_refines_graded: "graded a \<Longrightarrow> graded b \<Longrightarrow> layer a = layer b \<Longrightarrow> term_refines a b = Inr (below_term a b)"
proof (induction a arbitrary: b)
  case (Prim p)
  then show ?case by (cases b) auto
next
  case (Product g d m)
  obtain g' d' m' where b: "b = Product g' d' m'" using Product.prems(3) by (cases b) auto
  have r: "term_refines g g' = Inr (below_term g g')" "term_refines d d' = Inr (below_term d d')" "term_refines m m' = Inr (below_term m m')"
    using Product b by auto
  show ?case
  proof (cases "b = neutral_at (layer b)")
    case True
    then have "below_term (Product g d m) b" using below_neutral [OF Product.prems(1)] Product.prems(3) by metis
    with True Product.prems(3) show ?thesis by simp
  next
    case False
    with r Product.prems(3) show ?thesis by (auto simp: b)
  qed
qed

lemma below_refl: "below_term a a"
  by (induction a) simp_all

lemma below_trans: "below_term a b \<Longrightarrow> below_term b c \<Longrightarrow> below_term a c"
proof (induction a arbitrary: b c)
  case (Prim p)
  then show ?case by (cases b; cases c) auto
next
  case (Product g d m)
  then show ?case by (cases b; cases c) auto
qed

lemma below_antisym: "below_term a b \<Longrightarrow> below_term b a \<Longrightarrow> a = b"
proof (induction a arbitrary: b)
  case (Prim p)
  then show ?case by (cases b) auto
next
  case (Product g d m)
  then show ?case by (cases b) auto
qed

section \<open>The verdict lattice\<close>

lemma VERDICT_ORDER_eq: "VERDICT_ORDER = [''refuse'', ''quarantine'', ''weak'', ''probable'', ''sealed'']"
  by code_simp


lemma adjacent_iff: "list_all (\<lambda>(v, w). P v w) (zip xs (tl xs)) \<longleftrightarrow> (\<forall>i. Suc i < length xs \<longrightarrow> P (xs ! i) (xs ! Suc i))"
  by (auto simp: list_all_length nth_tl)

lemma derived_order:
  assumes wf: "dwf clears" and d: "derive_verdict_order clears = Inr vs"
  shows "set vs = set (dkeys clears) \<and> distinct vs \<and> sorted_wrt (\<lambda>v w. cleared clears v |\<subseteq>| cleared clears w) vs"
proof -
  let ?f = "\<lambda>v. (fcard (cleared clears v), v)"
  have vs: "vs = sort_key ?f (dkeys clears)"
    and ch: "list_all (\<lambda>(v, w). cleared clears v |\<subseteq>| cleared clears w) (zip vs (tl vs))"
    using d by (auto simp: derive_verdict_order_def Let_def split: if_splits)
  have "cleared clears (vs ! i) |\<subseteq>| cleared clears (vs ! Suc i)" if "Suc i < length vs" for i
    using ch that unfolding adjacent_iff by blast
  then have "sorted_wrt (\<lambda>v w. cleared clears v |\<subseteq>| cleared clears w) vs"
    by (subst sorted_wrt_iff_nth_Suc_transp) (auto simp: transp_def)
  then show ?thesis using wf by (simp add: vs dwf_def dkeys_def)
qed

lemma derive_fails:
  assumes wf: "dwf clears" and d: "derive_verdict_order clears = Inl e"
  shows "\<exists>v \<in> set (dkeys clears). \<exists>w \<in> set (dkeys clears). \<not> cleared clears v |\<subseteq>| cleared clears w \<and> \<not> cleared clears w |\<subseteq>| cleared clears v"
proof -
  let ?f = "\<lambda>v. (fcard (cleared clears v), v)"
  define vs where "vs = sort_key ?f (dkeys clears)"
  have "\<not> list_all (\<lambda>(v, w). cleared clears v |\<subseteq>| cleared clears w) (zip vs (tl vs))"
    using d by (auto simp: derive_verdict_order_def Let_def vs_def split: if_splits)
  then obtain i where i: "Suc i < length vs" "\<not> cleared clears (vs ! i) |\<subseteq>| cleared clears (vs ! Suc i)"
    unfolding adjacent_iff by blast
  have "sorted (map ?f vs)" unfolding vs_def by (rule sorted_sort_key)
  then have "?f (vs ! i) \<le> ?f (vs ! Suc i)" using i(1) sorted_nth_mono [of "map ?f vs" i "Suc i"] by simp
  then have "fcard (cleared clears (vs ! i)) \<le> fcard (cleared clears (vs ! Suc i))" by auto
  then have "\<not> cleared clears (vs ! Suc i) |\<subseteq>| cleared clears (vs ! i)"
    using i(2) fcard_seteq [of "cleared clears (vs ! Suc i)" "cleared clears (vs ! i)"] by auto
  moreover have "vs ! i \<in> set (dkeys clears)" "vs ! Suc i \<in> set (dkeys clears)"
    using i(1) nth_mem [of i vs] nth_mem [of "Suc i" vs] by (simp_all add: vs_def)
  ultimately show ?thesis using i(2) by blast
qed

lemma verdict_cases: "v \<in> set VERDICT_ORDER \<longleftrightarrow> v = ''refuse'' \<or> v = ''quarantine'' \<or> v = ''weak'' \<or> v = ''probable'' \<or> v = ''sealed''"
  by (auto simp: VERDICT_ORDER_eq)

lemma verdict_rank_simps [simp]:
  "verdict_rank ''refuse'' = 0" "verdict_rank ''quarantine'' = 1" "verdict_rank ''weak'' = 2"
  "verdict_rank ''probable'' = 3" "verdict_rank ''sealed'' = 4"
  by (simp_all add: verdict_rank_def VERDICT_ORDER_eq)

lemma rank_clears:
  assumes "v \<in> set VERDICT_ORDER" "w \<in> set VERDICT_ORDER"
  shows "verdict_rank v \<le> verdict_rank w \<longleftrightarrow> cleared VERDICT_CLEARS v |\<subseteq>| cleared VERDICT_CLEARS w"
    "verdict_rank v = verdict_rank w \<longleftrightarrow> v = w"
  using assms unfolding verdict_cases
  by (elim disjE; simp add: cleared_def VERDICT_CLEARS_def dgetdef_def)+

lemma arg_min_list_least: "xs \<noteq> [] \<Longrightarrow> arg_min_list f xs \<in> set xs \<and> (\<forall>x \<in> set xs. f (arg_min_list f xs) \<le> (f x :: nat))"
  using arg_min_list_in [of xs f] f_arg_min_list_f [of xs f] by simp

lemma meet_Some:
  "meet (map Some vs) = Inr r \<longleftrightarrow>
     vs \<noteq> [] \<and> set vs \<subseteq> set VERDICT_ORDER \<and> r = Some (arg_min_list verdict_rank vs)"
  by (auto simp: meet_def Let_def comp_def)

lemma meet_two:
  "v \<in> set VERDICT_ORDER \<Longrightarrow> w \<in> set VERDICT_ORDER \<Longrightarrow>
     meet [Some v, Some w] = Inr (Some (if verdict_rank v \<le> verdict_rank w then v else w))"
  using meet_Some [of "[v, w]"] by simp

section \<open>Properties\<close>

text \<open>
  C18: Structural distance is a metric within a layer and undefined across layers. On terms built by
  the algebra it is zero exactly on equal terms, symmetric, at most three, and satisfies the triangle
  inequality; between layers it is an error.
\<close>

theorem distance_is_a_metric:
  assumes "graded a" "graded b" "graded c"
  shows "if layer a \<noteq> layer b then distance (Some a) (Some b) = Inl LayerError
         else \<exists>x. distance (Some a) (Some b) = Inr x \<and> distance (Some b) (Some a) = Inr x \<and> x \<le> 3 \<and> (x = 0 \<longleftrightarrow> a = b) \<and>
           (layer b = layer c \<longrightarrow> (\<exists>y z. distance (Some b) (Some c) = Inr y \<and> distance (Some a) (Some c) = Inr z \<and> z \<le> x + y))"
proof -
  have "role_diff a b \<le> 3" by (cases a; cases b) (simp_all add: role_diff_def of_bool_def)
  then show ?thesis
    using assms role_diff_triangle [of a b c] role_diff_commute [of a b]
    by (auto simp: distance_def term_distance_graded term_distance_layers)
qed

theorem distance_is_a_metric_witness:
  "\<exists>x. distance (Some (Product (Prim FST) (Prim POT) (Prim NIL))) (Some (Product (Prim FST) (Prim ACT) (Prim NIL))) = Inr x \<and> x \<le> 3 \<and> x \<noteq> 0"
  using distance_is_a_metric [of "Product (Prim FST) (Prim POT) (Prim NIL)" "Product (Prim FST) (Prim ACT) (Prim NIL)" "Prim NIL"]
  by auto

text \<open>
  The verdict order is the inclusion of what the verdicts clear, and \<open>meet\<close> is its greatest lower
  bound: the result is one of the arguments, clears no more than any of them, and every verdict that
  clears no more than each argument clears no more than the result. An undecidable arm makes the
  result undecidable.
\<close>

theorem meet_is_greatest_lower_bound:
  assumes "meet vs = Inr r"
  shows "case r of
           None \<Rightarrow> None \<in> set vs
         | Some v \<Rightarrow> Some v \<in> set vs \<and> v \<in> set VERDICT_ORDER \<and>
             (\<forall>w. Some w \<in> set vs \<longrightarrow> cleared VERDICT_CLEARS v |\<subseteq>| cleared VERDICT_CLEARS w) \<and>
             (\<forall>u \<in> set VERDICT_ORDER. (\<forall>w. Some w \<in> set vs \<longrightarrow> cleared VERDICT_CLEARS u |\<subseteq>| cleared VERDICT_CLEARS w) \<longrightarrow>
                cleared VERDICT_CLEARS u |\<subseteq>| cleared VERDICT_CLEARS v)"
proof (cases "None \<in> set vs")
  case True
  with assms show ?thesis by (auto simp: meet_def split: if_splits)
next
  case False
  then have vs: "vs = map Some (map the vs)" by (induction vs) auto
  define ws where "ws = map the vs"
  have M: "ws \<noteq> []" "set ws \<subseteq> set VERDICT_ORDER" "r = Some (arg_min_list verdict_rank ws)"
    using assms meet_Some [of ws r] vs unfolding ws_def by auto
  note L = arg_min_list_least [OF M(1), of verdict_rank]
  have in_vs: "Some w \<in> set vs \<longleftrightarrow> w \<in> set ws" for w using vs unfolding ws_def [symmetric] by auto
  have v: "arg_min_list verdict_rank ws \<in> set VERDICT_ORDER" using L M(2) by blast
  have "cleared VERDICT_CLEARS (arg_min_list verdict_rank ws) |\<subseteq>| cleared VERDICT_CLEARS w" if "w \<in> set ws" for w
    using that L M(2) rank_clears(1) [OF v, of w] by auto
  with M L v show ?thesis by (auto simp: in_vs)
qed

theorem meet_is_greatest_lower_bound_witness:
  "meet [Some ''sealed'', Some ''quarantine''] = Inr (Some ''quarantine'') \<and>
   cleared VERDICT_CLEARS ''quarantine'' |\<subseteq>| cleared VERDICT_CLEARS ''sealed''"
proof -
  have m: "meet [Some ''sealed'', Some ''quarantine''] = Inr (Some ''quarantine'')" by (subst meet_two) (simp_all add: VERDICT_ORDER_eq)
  from meet_is_greatest_lower_bound [OF m] m show ?thesis by simp
qed

text \<open>
  The crossing between layers is a coreflection. Refinement is a partial order on the terms of a
  layer; lifting a term below the top layer succeeds, grounding undoes it exactly, lifting embeds the
  order, and every product refines the lift of its ground.
\<close>

theorem layer_coreflection:
  assumes "graded a" "graded b" "layer a = layer b" "layer a < MAX_LAYER"
  shows "\<exists>la lb. lift (Some a) = Inr la \<and> lift (Some b) = Inr lb \<and> ground (Some la) = Some a \<and>
           refines (Some la) (Some lb) = refines (Some a) (Some b) \<and>
           (refines (Some a) (Some b) = Inr True \<and> refines (Some b) (Some a) = Inr True \<longrightarrow> a = b) \<and>
           (\<forall>p. graded p \<and> layer p = layer la \<longrightarrow>
              (\<exists>g. ground (Some p) = Some g \<and> refines (Some p) (Some la) = refines (Some g) (Some a) \<and>
                (\<exists>lg. lift (Some g) = Inr lg \<and> refines (Some p) (Some lg) = Inr True)))"
proof -
  define n where "n = layer a"
  have L: "lift (Some t) = Inr (Product t (neutral_at n) (neutral_at n))" if "layer t = n" for t
    using that assms(4) by (simp add: lift_def mul_if mode_or_neutral_def n_def)
  have R: "refines (Some t) (Some u) = Inr (below_term t u)" if "graded t" "graded u" "layer t = layer u" for t u
    using that by (simp add: refines_def term_refines_graded)
  have up: "below_term (Product g d m) (Product t (neutral_at n) (neutral_at n)) \<longleftrightarrow> below_term g t"
    if "graded (Product g d m)" "layer g = n" for g d m t
    using that below_neutral [of d] below_neutral [of m] by auto
  have "\<exists>g. ground (Some p) = Some g \<and> refines (Some p) (Some (Product a (neutral_at n) (neutral_at n))) = refines (Some g) (Some a) \<and>
      (\<exists>lg. lift (Some g) = Inr lg \<and> refines (Some p) (Some lg) = Inr True)" if p: "graded p" "layer p = n + 1" for p
  proof -
    obtain g d m where g: "p = Product g d m" "layer g = n" using p(2) by (cases p) auto
    have "graded g" using p(1) g(1) by simp
    then show ?thesis
      using g p assms(1) L [of g] R [of p] R [of g a] up [of g d m] below_refl by (auto simp: ground_def n_def)
  qed
  moreover have "below_term a b \<Longrightarrow> below_term b a \<Longrightarrow> a = b" by (rule below_antisym)
  ultimately show ?thesis
    using L [of a] L [of b] R assms below_refl by (auto simp: ground_def n_def)
qed

theorem layer_coreflection_witness: "\<exists>la. lift (Some (Prim SND)) = Inr la \<and> ground (Some la) = Some (Prim SND)"
  using layer_coreflection [of "Prim SND" "Prim SND"] by (auto simp: MAX_LAYER_def)

end
