(* ===== verification/Json_Canonical.thy ===== *)
theory Json_Canonical
  imports Json_Text Py_Values "HOL-Library.Multiset"
begin

text \<open>
  Canonical JSON: \<open>json.dumps\<close> with sorted keys, the hash over it that several modules use as a seal, and
  the JSON of a dynamically typed value. Fractions are not represented.
\<close>

section \<open>Sorted keys and seals\<close>

fun jsort :: "json \<Rightarrow> json" where
  "jsort (JList vs) = JList (map jsort vs)"
| "jsort (JObj ps) = JObj (sort_key fst (map (\<lambda>(k, v). (k, jsort v)) ps))"
| "jsort v = v"

definition canonical :: "json \<Rightarrow> string" where
  "canonical v = dumps_gap False (jsort v)"

definition seal_text :: "(bytes \<Rightarrow> bytes) \<Rightarrow> string \<Rightarrow> string" where
  "seal_text sha s = ''sha256:'' @ hexdigest sha (utf8 s)"

definition sha_of :: "(bytes \<Rightarrow> bytes) \<Rightarrow> json \<Rightarrow> string" where
  "sha_of sha v = seal_text sha (canonical v)"

section \<open>Values as JSON\<close>

fun jval :: "pyval \<Rightarrow> json result" where
  "jval VNone = Inr JNull"
| "jval (VBool b) = Inr (JBool b)"
| "jval (VInt i) = Inr (JInt i)"
| "jval (VFloat f) = Inl OtherError"
| "jval (VStr s) = Inr (JStr s)"
| "jval (VList vs) = rbind (rmap jval vs) (\<lambda>js. Inr (JList js))"
| "jval (VDict d) = rbind (rmap (\<lambda>p. rbind (jval (snd p)) (\<lambda>j. Inr (fst p, j))) d) (\<lambda>ps. Inr (JObj ps))"

section \<open>Canonical text is faithful\<close>

lemma jsort_keys: "mset (map fst (sort_key fst (map (\<lambda>(k, v). (k, jsort v)) ps))) = mset (map fst (ps :: (string \<times> json) list))"
proof -
  have a: "map fst (map (\<lambda>(k, v). (k, jsort v)) ps) = map fst ps" by (induction ps) auto
  have "mset (map fst (sort_key fst qs)) = mset (map fst qs)" for qs :: "(string \<times> json) list" by simp
  from this [of "map (\<lambda>(k, v). (k, jsort v)) ps"] show ?thesis unfolding a .
qed

lemma jwf_jsort: "jwf v \<Longrightarrow> jwf (jsort v)"
proof (induction v rule: jsort.induct)
  case (2 ps)
  have "jwf (snd p)" if "p \<in> set (sort_key fst (map (\<lambda>(k, v). (k, jsort v)) ps))" for p
  proof -
    obtain k v where kv: "(k, v) \<in> set ps" "p = (k, jsort v)" using \<open>p \<in> _\<close> by auto
    then have "jwf v" using "2.prems" by (metis jwf.simps(2) snd_conv)
    with "2.IH" [OF kv(1) refl] kv(2) show ?thesis by simp
  qed
  moreover have "distinct (map fst (sort_key fst (map (\<lambda>(k, v). (k, jsort v)) ps)))"
    using "2.prems" mset_eq_imp_distinct_iff [OF jsort_keys, of ps] by (simp only: jwf.simps)
  ultimately show ?case by (simp only: jsort.simps jwf.simps) blast
qed simp_all

lemma loads_canonical: "jwf v \<Longrightarrow> loads_str (canonical v) = Inr (jsort v)"
  unfolding canonical_def by (intro loads_str_dumps jwf_jsort)

lemma canonical_inj:
  assumes "jwf v" "jwf w" "canonical v = canonical w" shows "jsort v = jsort w"
proof -
  have "Inr (jsort v) = (Inr (jsort w) :: json result)"
    unfolding loads_canonical [OF assms(1), symmetric] loads_canonical [OF assms(2), symmetric] assms(3) ..
  then show ?thesis by (rule sum.inject(2) [THEN iffD1])
qed

lemma dget_sort: "distinct (map fst d) \<Longrightarrow> dget (sort_key fst d) k = dget d k"
proof -
  assume d: "distinct (map fst d)"
  have "distinct (map fst (sort_key fst d))" using d by (metis mset_eq_imp_distinct_iff mset_map mset_sort)
  then show ?thesis unfolding dget_def using d map_of_inject_set [of "sort_key fst d" d] by (metis set_sort)
qed

lemma jsort_dget:
  assumes "distinct (map fst ps)" shows "jsort (JObj ps) = JObj qs \<Longrightarrow> dget qs k = map_option jsort (dget ps k)"
proof -
  have m: "dget (map (\<lambda>(k, v). (k, jsort v)) ps) k = map_option jsort (dget ps k)" by (induction ps) auto
  have "distinct (map fst (map (\<lambda>(k, v). (k, jsort v)) ps))" using assms by (simp add: comp_def case_prod_beta)
  from dget_sort [OF this] m show "jsort (JObj ps) = JObj qs \<Longrightarrow> dget qs k = map_option jsort (dget ps k)" by auto
qed

lemma jsort_eq_obj:
  assumes "distinct (map fst ps)" "distinct (map fst qs)" "\<And>k. map_option jsort (dget ps k) = map_option jsort (dget qs k)"
  shows "jsort (JObj ps) = jsort (JObj qs)"
proof -
  let ?f = "map (\<lambda>(k, v). (k, jsort v))"
  have fst: "map fst (?f xs) = map fst xs" for xs :: "(string \<times> json) list" by (induction xs) auto
  have dist: "distinct (map fst (?f ps))" "distinct (map fst (?f qs))" using assms(1,2) unfolding fst by auto
  have "map_of (?f xs) k = map_option jsort (dget xs k)" for xs :: "(string \<times> json) list" and k
    by (induction xs) auto
  then have "map_of (?f ps) = map_of (?f qs)" using assms(3) by auto
  then have "set (?f ps) = set (?f qs)" using map_of_inject_set [OF dist] by simp
  then have "mset (?f ps) = mset (?f qs)"
    using dist by (metis distinct_map set_eq_iff_mset_eq_distinct)
  then have "sort_key fst (?f ps) = sort_key fst (?f qs)"
    using dist(1) by (intro sort_key_inj_key_eq) (simp_all only: distinct_map mset_sort sorted_sort_key)
  then show ?thesis by simp
qed

text \<open>Linked records with the same seal are the same dictionary, and follow the same head.\<close>

section \<open>Values with distinct keys\<close>

text \<open>Dictionaries of the language have distinct keys.\<close>

fun vwf :: "pyval \<Rightarrow> bool" where
  "vwf (VList vs) \<longleftrightarrow> (\<forall>v \<in> set vs. vwf v)"
| "vwf (VDict d) \<longleftrightarrow> dwf d \<and> (\<forall>p \<in> set d. vwf (snd p))"
| "vwf _ \<longleftrightarrow> True"

lemma vwf_get: "vwf (VDict d) \<Longrightarrow> vwf dflt \<Longrightarrow> vwf (dgetdef d k dflt)"
  using dget_Some_in [of d k] by (fastforce simp: dgetdef_def split: option.splits)

lemma jval_jwf: "vwf v \<Longrightarrow> jval v = Inr j \<Longrightarrow> jwf j"
proof (induction v arbitrary: j rule: jval.induct)
  case (6 vs)
  then obtain js where js: "rmap jval vs = Inr js" "j = JList js" by (auto simp: rbind_eq_Inr)
  have "jwf x" if "x \<in> set js" for x
    using rmap_member [OF js(1) that] "6.IH" "6.prems"(1) by auto
  with js(2) show ?case by simp
next
  case (7 d)
  let ?f = "\<lambda>p. rbind (jval (snd p)) (\<lambda>j. Inr (fst p, j))"
  obtain ps where ps: "rmap ?f d = Inr ps" "j = JObj ps" using "7.prems"(2) by (auto simp: rbind_eq_Inr)
  have "map fst ps = map fst d"
    using rmap_list_all2 [OF ps(1)] by (induction rule: list_all2_induct) (auto simp: rbind_eq_Inr)
  moreover have "jwf (snd q)" if "q \<in> set ps" for q
    using rmap_member [OF ps(1) that] "7.IH" "7.prems"(1) by (auto simp: rbind_eq_Inr)
  ultimately show ?case using "7.prems"(1) ps(2) by (simp add: dwf_def dkeys_def)
qed auto

lemma jsort_idem [simp]: "jsort (jsort v) = jsort v"
proof (induction v rule: jsort.induct)
  case (2 ps)
  define qs where "qs = sort_key fst (map (\<lambda>(k, v). (k, jsort v)) ps)"
  have "map (\<lambda>(k, v). (k, jsort v)) qs = qs"
  proof (rule map_idI)
    fix q assume "q \<in> set qs"
    then obtain k v where "(k, v) \<in> set ps" "q = (k, jsort v)" by (auto simp: qs_def)
    with "2.IH" [of "(k, v)" k v] show "(case q of (k, v) \<Rightarrow> (k, jsort v)) = q" by simp
  qed
  moreover have "sort_key fst qs = qs" unfolding qs_def by (intro sort_key_id_if_sorted sorted_sort_key)
  ultimately show ?case unfolding jsort.simps(2) qs_def [symmetric] by simp
qed simp_all

end
