(* ===== verification/Gbrg_Ledger.thy ===== *)
theory Gbrg_Ledger
  imports Json_Canonical
begin

text \<open>
  \<open>gbrg/governance/ledger.py\<close>, and the sealed record of \<open>gbrg/governance/gate.py\<close> that it verifies:
  an append-only text file with one JSON record per line, chained by hashes or sealed by a receipt.
  The file is its text; sha256 is a parameter. Records hold no fractions. A verification outcome
  keeps which check failed and where, not the wording of its message.
\<close>

section \<open>The anchor\<close>

definition genesis_text :: string where
  "genesis_text = ''gbrg-mcp-ledger-genesis''"

definition GENESIS :: "(bytes \<Rightarrow> bytes) \<Rightarrow> string" where
  "GENESIS sha = seal_text sha genesis_text"

section \<open>The file\<close>

definition ledger_append :: "json \<Rightarrow> string \<Rightarrow> string" where
  "ledger_append rec f = f @ canonical rec @ [CHR 0x0A]"

text \<open>Reading a text file ends a line at a line feed or a carriage return.\<close>

definition line_end :: "char \<Rightarrow> bool" where
  "line_end c \<longleftrightarrow> c = CHR 0x0A \<or> c = CHR 0x0D"

fun split_lines :: "string \<Rightarrow> string \<Rightarrow> string list" where
  "split_lines cur [] = [cur]"
| "split_lines cur (c # cs) = (if line_end c then cur # split_lines [] cs else split_lines (cur @ [c]) cs)"

definition read_raw :: "string \<Rightarrow> json list result" where
  "read_raw f = rmap loads_str (filter (\<lambda>l. l \<noteq> []) (map strip (split_lines [] f)))"

section \<open>Decision records\<close>

text \<open>\<open>k in rec\<close>, \<open>rec[k]\<close>.\<close>

fun jin :: "string \<Rightarrow> json \<Rightarrow> bool result" where
  "jin k (JObj ps) = Inr (k \<in> set (dkeys ps))"
| "jin k (JList vs) = Inr (JStr k \<in> set vs)"
| "jin k (JStr s) = Inr (substring k s)"
| "jin k _ = Inl TypeError"

fun jat :: "string \<Rightarrow> json \<Rightarrow> json result" where
  "jat k (JObj ps) = (case dget ps k of None \<Rightarrow> Inl KeyError | Some v \<Rightarrow> Inr v)"
| "jat k _ = Inl TypeError"

definition decision_fields :: "string list" where
  "decision_fields =
     [''recordType'', ''schemaVersion'', ''agentRef'', ''action'', ''cell_id'', ''epistemicLevel'', ''proof_id'',
      ''verdict'', ''included'', ''reason'', ''priority'', ''content_verdict'', ''authority_verdict'',
      ''authority_reason_code'', ''decided_at'']"

definition authority_receipt :: "json \<Rightarrow> json result" where
  "authority_receipt authority =
     (case authority of
        JObj ps \<Rightarrow> Inr (case dget ps ''receipt_hash'' of None \<Rightarrow> JNull | Some v \<Rightarrow> v)
      | _ \<Rightarrow> Inl AttributeError)"

definition decision_core :: "json \<Rightarrow> json result" where
  "decision_core rec =
     rbind (rmap (\<lambda>k. rbind (jat k rec) (\<lambda>v. Inr (k, v))) decision_fields) (\<lambda>fields.
     rbind (authority_receipt (case rec of JObj ps \<Rightarrow> dgetdef ps ''authority'' (JObj []) | _ \<Rightarrow> JNull)) (\<lambda>r.
       Inr (JObj (fields @ [(''authority_receipt'', r)]))))"

definition recompute_receipt :: "(bytes \<Rightarrow> bytes) \<Rightarrow> json \<Rightarrow> string result" where
  "recompute_receipt sha rec = rbind (decision_core rec) (\<lambda>core. Inr (sha_of sha core))"

section \<open>Verification\<close>

datatype ledger_break = BrokenLink | BadEventHash | Undecodable | BadReceipt | UnknownRecord | HeadMismatch

record VerifyResult =
  vr_ok :: bool
  vr_records :: nat
  vr_head :: "string option"
  vr_broken_index :: "nat option"
  vr_reason :: "ledger_break option"

definition broken :: "nat \<Rightarrow> nat option \<Rightarrow> ledger_break \<Rightarrow> VerifyResult" where
  "broken num i why = \<lparr>vr_ok = False, vr_records = num, vr_head = None, vr_broken_index = i, vr_reason = Some why\<rparr>"

definition event_core :: "json \<Rightarrow> json" where
  "event_core rec = (case rec of JObj ps \<Rightarrow> JObj (filter (\<lambda>p. fst p \<noteq> ''hash'') ps) | v \<Rightarrow> v)"

definition recompute_event_hash :: "(bytes \<Rightarrow> bytes) \<Rightarrow> json \<Rightarrow> string" where
  "recompute_event_hash sha rec = sha_of sha (event_core rec)"

text \<open>
  One record against the running chain head: the check that fails, or the new head and the seal of the
  record.
\<close>

definition verify_event :: "(bytes \<Rightarrow> bytes) \<Rightarrow> string \<Rightarrow> json \<Rightarrow> (ledger_break + string \<times> string) result" where
  "verify_event sha chain_head rec =
     rbind (jat ''prev_hash'' rec) (\<lambda>prev.
     if prev \<noteq> JStr chain_head then Inr (Inl BrokenLink)
     else rbind (jat ''hash'' rec) (\<lambda>hash.
       let recomputed = recompute_event_hash sha rec in
       if JStr recomputed \<noteq> hash then Inr (Inl BadEventHash) else Inr (Inr (recomputed, recomputed))))"

definition verify_decision :: "(bytes \<Rightarrow> bytes) \<Rightarrow> string \<Rightarrow> json \<Rightarrow> (ledger_break + string \<times> string) result" where
  "verify_decision sha chain_head rec =
     (case recompute_receipt sha rec of
        Inl KeyError \<Rightarrow> Inr (Inl Undecodable)
      | Inl TypeError \<Rightarrow> Inr (Inl Undecodable)
      | Inl e \<Rightarrow> Inl e
      | Inr recomputed \<Rightarrow>
          rbind (jat ''receipt'' rec) (\<lambda>receipt.
            if JStr recomputed \<noteq> receipt then Inr (Inl BadReceipt) else Inr (Inr (chain_head, recomputed))))"

definition is_chained :: "json \<Rightarrow> bool result" where
  "is_chained rec = rbind (jin ''hash'' rec) (\<lambda>h. if h then jin ''prev_hash'' rec else Inr False)"

definition verify_record :: "(bytes \<Rightarrow> bytes) \<Rightarrow> string \<Rightarrow> json \<Rightarrow> (ledger_break + string \<times> string) result" where
  "verify_record sha chain_head rec =
     rbind (is_chained rec) (\<lambda>chained.
     if chained then verify_event sha chain_head rec
     else rbind (jin ''receipt'' rec) (\<lambda>sealed.
       if sealed then verify_decision sha chain_head rec else Inr (Inl UnknownRecord)))"

text \<open>The loop over the records, at index \<open>i\<close> of \<open>num\<close>, with the running chain head and the last seal.\<close>

fun verify_from ::
    "(bytes \<Rightarrow> bytes) \<Rightarrow> nat \<Rightarrow> nat \<Rightarrow> string \<Rightarrow> string option \<Rightarrow> json list \<Rightarrow> VerifyResult result" where
  "verify_from sha num i chain_head last_seal [] =
     Inr \<lparr>vr_ok = True, vr_records = num, vr_head = last_seal, vr_broken_index = None, vr_reason = None\<rparr>"
| "verify_from sha num i chain_head last_seal (rec # recs) =
     rbind (verify_record sha chain_head rec) (\<lambda>r.
       case r of
         Inl why \<Rightarrow> Inr (broken num (Some i) why)
       | Inr (head, seal) \<Rightarrow> verify_from sha num (Suc i) head (Some seal) recs)"

definition verify_records :: "(bytes \<Rightarrow> bytes) \<Rightarrow> string \<Rightarrow> json list \<Rightarrow> VerifyResult result" where
  "verify_records sha genesis recs = verify_from sha (length recs) 0 genesis None recs"

definition verify_ledger :: "(bytes \<Rightarrow> bytes) \<Rightarrow> string \<Rightarrow> string \<Rightarrow> VerifyResult result" where
  "verify_ledger sha genesis f = rbind (read_raw f) (verify_records sha genesis)"

definition verify_head :: "(bytes \<Rightarrow> bytes) \<Rightarrow> string \<Rightarrow> string \<Rightarrow> string \<Rightarrow> VerifyResult result" where
  "verify_head sha genesis expected_head f =
     rbind (verify_ledger sha genesis f) (\<lambda>result.
       if \<not> vr_ok result then Inr result
       else if vr_head result \<noteq> Some expected_head then Inr (broken (vr_records result) None HeadMismatch)
       else Inr result)"

definition read_verified :: "(bytes \<Rightarrow> bytes) \<Rightarrow> string \<Rightarrow> json list result" where
  "read_verified sha f =
     rbind (verify_ledger sha (GENESIS sha) f) (\<lambda>result.
       if \<not> vr_ok result then Inl RuntimeError else read_raw f)"

definition ledger_read_all :: "(bytes \<Rightarrow> bytes) \<Rightarrow> string \<Rightarrow> bool \<Rightarrow> json list result" where
  "ledger_read_all sha f verify = (if verify then read_verified sha f else read_raw f)"

fun jtruthy :: "json \<Rightarrow> bool" where
  "jtruthy JNull \<longleftrightarrow> False"
| "jtruthy (JBool b) \<longleftrightarrow> b"
| "jtruthy (JInt i) \<longleftrightarrow> i \<noteq> 0"
| "jtruthy (JStr s) \<longleftrightarrow> s \<noteq> []"
| "jtruthy (JList vs) \<longleftrightarrow> vs \<noteq> []"
| "jtruthy (JObj ps) \<longleftrightarrow> ps \<noteq> []"

text \<open>\<open>rec.get(k)\<close>.\<close>

fun jget :: "string \<Rightarrow> json \<Rightarrow> json result" where
  "jget k (JObj ps) = Inr (dgetdef ps k JNull)"
| "jget k _ = Inl AttributeError"

definition record_seal :: "json \<Rightarrow> json result" where
  "record_seal rec =
     rbind (jget ''receipt'' rec) (\<lambda>r. if jtruthy r then Inr r else jget ''hash'' rec)"

definition iter_receipts :: "(bytes \<Rightarrow> bytes) \<Rightarrow> string \<Rightarrow> json list result" where
  "iter_receipts sha f =
     rbind (read_verified sha f) (\<lambda>recs.
     rbind (rmap record_seal recs) (\<lambda>seals. Inr (filter (\<lambda>s. s \<noteq> JNull) seals)))"

section \<open>One record is one line\<close>

lemma esc_char_visible: "c \<in> set (esc_char d) \<Longrightarrow> \<not> line_end c"
proof -
  have h: "hex_digit n \<noteq> CHR 0x0A \<and> hex_digit n \<noteq> CHR 0x0D" if "n < 16" for n
  proof -
    have "hex_val (CHR 0x0A) = None" "hex_val (CHR 0x0D) = None" by (simp_all add: hex_val_def)
    with hex_val_digit [OF that] show ?thesis by auto
  qed
  have n: "of_char d < (256::nat)" by (rule of_char_less)
  then have "(of_char d :: nat) div 16 < 16" "(of_char d :: nat) mod 16 < 16" by (auto intro: less_mult_imp_div_less)
  note hd = h [OF this(1)] h [OF this(2)]
  have b: "char_of (92::nat) \<noteq> CHR 0x0A" "char_of (92::nat) \<noteq> CHR 0x0D" by (simp_all add: char_of_def bit_iff_odd)
  assume "c \<in> set (esc_char d)"
  then show ?thesis using hd b
    by (auto simp: esc_char_def line_end_def Let_def split: if_splits)
qed

lemma str_text_visible: "c \<in> set (str_text s) \<Longrightarrow> \<not> line_end c"
  using esc_char_visible by (auto simp: str_text_def line_end_def dq_eq)

lemma digits_visible: "c \<in> set (int_str i) \<Longrightarrow> \<not> line_end c"
  using nat_str_digits by (fastforce simp: int_str_def line_end_def is_digit_def split: if_splits)

lemma join_chars: "c \<in> set (join sep ts) \<Longrightarrow> c \<in> set sep \<or> (\<exists>t \<in> set ts. c \<in> set t)"
  by (induction sep ts rule: join.induct) auto

lemma marks_visible [simp]:
  "\<not> line_end (CHR ''{'')" "\<not> line_end (CHR ''}'')" "\<not> line_end (CHR ''['')" "\<not> line_end (CHR '']'')"
  "\<not> line_end (CHR '','')" "\<not> line_end (CHR '':'')"
  by (simp_all add: line_end_def)

lemma dumps_visible: "c \<in> set (dumps_gap False v) \<Longrightarrow> \<not> line_end c"
proof (induction v)
  case (JList vs)
  then show ?case by (auto dest!: join_chars)
next
  case (JObj ps)
  have "\<not> line_end c" if "(k, v) \<in> set ps" "c \<in> set (str_text k @ CHR '':'' # dumps_gap False v)" for k v
    using that str_text_visible JObj.IH [of "(k, v)" v] by auto
  with JObj.prems show ?case by (fastforce dest!: join_chars)
qed (auto simp: line_end_def str_text_visible digits_visible split: if_splits dest: str_text_visible digits_visible)

section \<open>Appending and reading back\<close>

lemma split_lines_append:
  "(\<forall>c \<in> set s. \<not> line_end c) \<Longrightarrow> split_lines cur (s @ CHR 0x0A # t) = (cur @ s) # split_lines [] t"
  by (induction s arbitrary: cur) (auto simp: line_end_def)

definition complete_file :: "string \<Rightarrow> bool" where
  "complete_file f \<longleftrightarrow> f = [] \<or> last f = CHR 0x0A"

lemma split_lines_complete:
  "f \<noteq> [] \<Longrightarrow> last f = CHR 0x0A \<Longrightarrow> \<exists>ls. \<forall>t. split_lines cur (f @ t) = ls @ split_lines [] t"
proof (induction f arbitrary: cur)
  case (Cons c f)
  show ?case
  proof (cases "f = []")
    case True
    with Cons.prems show ?thesis by (intro exI [of _ "[cur]"]) (simp add: line_end_def)
  next
    case False
    show ?thesis
    proof (cases "line_end c")
      case True
      obtain ls where "\<forall>t. split_lines [] (f @ t) = ls @ split_lines [] t" using Cons.IH Cons.prems False by auto
      with True show ?thesis by (intro exI [of _ "cur # ls"]) simp
    next
      case nl: False
      obtain ls where "\<forall>t. split_lines (cur @ [c]) (f @ t) = ls @ split_lines [] t" using Cons.IH Cons.prems False by auto
      with nl show ?thesis by (intro exI [of _ ls]) simp
    qed
  qed
qed simp

lemma rmap_append: "rmap f (xs @ ys) = rbind (rmap f xs) (\<lambda>as. rbind (rmap f ys) (\<lambda>bs. Inr (as @ bs)))"
  by (induction xs) (auto simp: rbind_def split: sum.splits)

lemma canonical_obj: "\<exists>t. canonical (JObj ps) = CHR ''{'' # t @ ''}''"
  by (simp add: canonical_def)

lemma strip_canonical: "strip (canonical (JObj ps)) = canonical (JObj ps)"
proof -
  obtain t where "canonical (JObj ps) = CHR ''{'' # t @ ''}''" using canonical_obj by blast
  then show ?thesis by (simp add: strip_def is_blank_def)
qed

lemma read_append:
  assumes "complete_file f" "read_raw f = Inr recs" "jwf (JObj ps)"
  shows "read_raw (ledger_append (JObj ps) f) = Inr (recs @ [jsort (JObj ps)])" "complete_file (ledger_append (JObj ps) f)"
proof -
  have line: "split_lines [] (canonical (JObj ps) @ [CHR 0x0A]) = [canonical (JObj ps), []]"
  proof -
    have "\<forall>c \<in> set (canonical (JObj ps)). \<not> line_end c" unfolding canonical_def using dumps_visible by blast
    then show ?thesis using split_lines_append [of "canonical (JObj ps)" "[]" "[]"] by simp
  qed
  have lds: "loads_str (canonical (JObj ps)) = Inr (jsort (JObj ps))"
    by (rule loads_canonical [OF assms(3)])
  have ne: "canonical (JObj ps) \<noteq> []" using canonical_obj [of ps] by auto
  obtain ls where ls: "split_lines [] (f @ t) = ls @ split_lines [] t" for t
    using assms(1) split_lines_complete [of f "[]"] by (cases "f = []") (auto simp: complete_file_def)
  have old: "rmap loads_str (filter (\<lambda>l. l \<noteq> []) (map strip ls)) = Inr recs"
    using assms(2) ls [of "[]"] by (simp add: read_raw_def strip_def)
  show "read_raw (ledger_append (JObj ps) f) = Inr (recs @ [jsort (JObj ps)])"
    using old lds ne
    by (simp add: read_raw_def ledger_append_def ls line strip_canonical rmap_append strip_def [of "[]"] del: jsort.simps)
  show "complete_file (ledger_append (JObj ps) f)" by (simp add: complete_file_def ledger_append_def)
qed

section \<open>The chain\<close>

text \<open>A chained record, as the verifier accepts it after a given head.\<close>

definition links :: "(bytes \<Rightarrow> bytes) \<Rightarrow> string \<Rightarrow> json \<Rightarrow> bool" where
  "links sha h rec \<longleftrightarrow>
     (\<exists>ps. rec = JObj ps \<and> dget ps ''prev_hash'' = Some (JStr h) \<and> dget ps ''hash'' = Some (JStr (recompute_event_hash sha rec)))"

lemma linksE:
  assumes "links sha h rec"
  obtains ps where "rec = JObj ps" "dget ps ''prev_hash'' = Some (JStr h)" "dget ps ''hash'' = Some (JStr (recompute_event_hash sha rec))"
  using assms unfolding links_def by (elim exE conjE)

fun chain :: "(bytes \<Rightarrow> bytes) \<Rightarrow> string \<Rightarrow> json list \<Rightarrow> bool" where
  "chain sha h [] \<longleftrightarrow> True"
| "chain sha h (rec # recs) \<longleftrightarrow> links sha h rec \<and> chain sha (recompute_event_hash sha rec) recs"

definition chain_head :: "(bytes \<Rightarrow> bytes) \<Rightarrow> string \<Rightarrow> json list \<Rightarrow> string" where
  "chain_head sha h recs = (if recs = [] then h else recompute_event_hash sha (last recs))"

definition is_event :: "json \<Rightarrow> bool" where
  "is_event rec \<longleftrightarrow> (\<exists>ps. rec = JObj ps \<and> ''hash'' \<in> set (dkeys ps) \<and> ''prev_hash'' \<in> set (dkeys ps))"

lemma event_record:
  "is_event rec \<Longrightarrow> verify_record sha h rec =
     Inr (if links sha h rec then Inr (recompute_event_hash sha rec, recompute_event_hash sha rec)
          else Inl (if jat ''prev_hash'' rec = Inr (JStr h) then BadEventHash else BrokenLink))"
proof -
  assume "is_event rec"
  then obtain ps a b where r: "rec = JObj ps" "dget ps ''hash'' = Some a" "dget ps ''prev_hash'' = Some b"
    and k: "''hash'' \<in> set (dkeys ps)" "''prev_hash'' \<in> set (dkeys ps)"
    using dget_None_iff unfolding is_event_def by (metis not_None_eq)
  then show ?thesis by (auto simp: verify_record_def is_chained_def verify_event_def links_def Let_def)
qed

lemma verify_chain:
  "list_all is_event recs \<Longrightarrow>
     \<exists>r. verify_from sha n i h l recs = Inr r \<and> (vr_ok r \<longleftrightarrow> chain sha h recs) \<and>
       (vr_ok r \<longrightarrow> vr_head r = (if recs = [] then l else Some (chain_head sha h recs)))"
proof (induction recs arbitrary: i h l)
  case (Cons rec recs)
  let ?h = "recompute_event_hash sha rec"
  obtain r where "verify_from sha n (Suc i) ?h (Some ?h) recs = Inr r" "vr_ok r \<longleftrightarrow> chain sha ?h recs"
    "vr_ok r \<longrightarrow> vr_head r = (if recs = [] then Some ?h else Some (chain_head sha ?h recs))"
    using Cons by fastforce
  with Cons.prems show ?case by (auto simp: event_record chain_head_def broken_def)
qed simp

lemma chain_append: "chain sha h (xs @ ys) \<longleftrightarrow> chain sha h xs \<and> chain sha (chain_head sha h xs) ys"
  by (induction xs arbitrary: h) (auto simp: chain_head_def)

section \<open>Tamper evidence\<close>

text \<open>The texts whose hashes the seals of a chain are.\<close>

definition sealed_texts :: "json list \<Rightarrow> string set" where
  "sealed_texts recs = (\<lambda>rec. canonical (event_core rec)) ` set recs"

definition no_collision :: "(bytes \<Rightarrow> bytes) \<Rightarrow> string set \<Rightarrow> bool" where
  "no_collision sha T \<longleftrightarrow> inj_on (\<lambda>s. sha (utf8 s)) T"

lemma no_collisionD: "no_collision sha T \<Longrightarrow> s \<in> T \<Longrightarrow> t \<in> T \<Longrightarrow> seal_text sha s = seal_text sha t \<Longrightarrow> s = t"
  by (auto simp: no_collision_def seal_text_def hexdigest_def inj_on_def)

lemma jwf_event_core: "jwf rec \<Longrightarrow> jwf (event_core rec)"
  by (cases rec) (auto simp: event_core_def distinct_map_filter)

lemma dget_filter_hash: "k \<noteq> ''hash'' \<Longrightarrow> dget (filter (\<lambda>p. fst p \<noteq> ''hash'') ps) k = dget ps k"
  by (induction ps) auto

lemma same_seal:
  assumes "links sha h a" "links sha h' b" "jwf a" "jwf b" "no_collision sha T"
    and "canonical (event_core a) \<in> T" "canonical (event_core b) \<in> T"
    and "recompute_event_hash sha a = recompute_event_hash sha b"
  shows "h = h' \<and> jsort a = jsort b"
proof -
  from assms(1) obtain ps where a: "a = JObj ps" "dget ps ''prev_hash'' = Some (JStr h)"
    "dget ps ''hash'' = Some (JStr (recompute_event_hash sha a))" by (rule linksE)
  from assms(2) obtain qs where b: "b = JObj qs" "dget qs ''prev_hash'' = Some (JStr h')"
    "dget qs ''hash'' = Some (JStr (recompute_event_hash sha b))" by (rule linksE)
  have "canonical (event_core a) = canonical (event_core b)"
    by (rule no_collisionD [OF assms(5-7)]) (use assms(8) in \<open>simp only: recompute_event_hash_def sha_of_def\<close>)
  then have j: "jsort (event_core a) = jsort (event_core b)"
    using assms(3,4) by (intro canonical_inj jwf_event_core)
  let ?c = "filter (\<lambda>p. fst p \<noteq> ''hash'')"
  have d: "distinct (map fst ps)" "distinct (map fst qs)" using assms(3,4) a b by auto
  then have dc: "distinct (map fst (?c ps))" "distinct (map fst (?c qs))" by (auto simp: distinct_map_filter)
  obtain zs where z: "jsort (JObj (?c ps)) = JObj zs" "jsort (JObj (?c qs)) = JObj zs" using j a b by (auto simp: event_core_def)
  have same: "map_option jsort (dget ps k) = map_option jsort (dget qs k)" if "k \<noteq> ''hash''" for k
    using jsort_dget [OF dc(1) z(1), of k] jsort_dget [OF dc(2) z(2), of k] that by (simp add: dget_filter_hash)
  have "h = h'" using same [of "''prev_hash''"] a(2) b(2) by simp
  moreover have "jsort (JObj ps) = jsort (JObj qs)"
  proof (rule jsort_eq_obj [OF d])
    show "map_option jsort (dget ps k) = map_option jsort (dget qs k)" for k
      using same [of k] a(3) b(3) assms(8) by (cases "k = ''hash''") simp_all
  qed
  ultimately show ?thesis using a b by simp
qed

lemma chain_head_simps [simp]: "chain_head sha h [] = h" "chain_head sha h (xs @ [x]) = recompute_event_hash sha x"
  by (simp_all add: chain_head_def)

lemma genesis_not_sealed: "links sha h rec \<Longrightarrow> canonical (event_core rec) \<noteq> genesis_text"
proof -
  assume "links sha h rec"
  then obtain qs where "rec = JObj qs" by (rule linksE)
  then obtain ps where "event_core rec = JObj ps" by (simp add: event_core_def)
  with canonical_obj [of ps] show ?thesis by (auto simp: genesis_text_def)
qed

lemma chains_agree:
  assumes "chain sha (GENESIS sha) xs" "chain sha (GENESIS sha) ys" "list_all jwf xs" "list_all jwf ys"
    and "no_collision sha (insert genesis_text (sealed_texts xs \<union> sealed_texts ys))"
    and "chain_head sha (GENESIS sha) xs = chain_head sha (GENESIS sha) ys"
  shows "map jsort xs = map jsort ys"
  using assms
proof (induction xs arbitrary: ys rule: rev_induct)
  case Nil
  show ?case
  proof (cases ys rule: rev_cases)
    case (snoc zs z)
    then have z: "links sha (chain_head sha (GENESIS sha) zs) z" using Nil.prems(2) by (simp add: chain_append)
    have "seal_text sha genesis_text = seal_text sha (canonical (event_core z))"
      using Nil.prems(6) unfolding snoc chain_head_simps GENESIS_def recompute_event_hash_def sha_of_def .
    then have "genesis_text = canonical (event_core z)"
      by (rule no_collisionD [OF Nil.prems(5), rotated 2]) (simp_all add: sealed_texts_def snoc)
    with genesis_not_sealed [OF z] show ?thesis by simp
  qed simp
next
  case (snoc x xs)
  have x: "links sha (chain_head sha (GENESIS sha) xs) x" "chain sha (GENESIS sha) xs" using snoc.prems(1) by (auto simp: chain_append)
  show ?case
  proof (cases ys rule: rev_cases)
    case Nil
    have "seal_text sha (canonical (event_core x)) = seal_text sha genesis_text"
      using snoc.prems(6) unfolding Nil chain_head_simps GENESIS_def recompute_event_hash_def sha_of_def .
    then have "canonical (event_core x) = genesis_text"
      by (rule no_collisionD [OF snoc.prems(5), rotated 2]) (simp_all add: sealed_texts_def)
    with genesis_not_sealed [OF x(1)] show ?thesis by simp
  next
    case y: (snoc zs z)
    have z: "links sha (chain_head sha (GENESIS sha) zs) z" "chain sha (GENESIS sha) zs" using snoc.prems(2) by (simp_all add: y chain_append)
    have "chain_head sha (GENESIS sha) xs = chain_head sha (GENESIS sha) zs \<and> jsort x = jsort z"
      using snoc.prems(3,4,6)
      by (intro same_seal [OF x(1) z(1) _ _ snoc.prems(5)]) (simp_all add: y sealed_texts_def)
    moreover have "no_collision sha (insert genesis_text (sealed_texts xs \<union> sealed_texts zs))"
      using snoc.prems(5) unfolding no_collision_def by (rule inj_on_subset) (auto simp: y sealed_texts_def)
    ultimately show ?thesis using snoc.IH [OF x(2) z(2)] snoc.prems(3,4) by (simp add: y)
  qed
qed

section \<open>What the verifier does not see\<close>

lemma decision_keeps_head: "verify_record sha h rec = Inr (Inr (h', s)) \<Longrightarrow> is_chained rec = Inr False \<Longrightarrow> h' = h"
  by (auto simp: verify_record_def verify_decision_def rbind_eq_Inr split: if_splits sum.splits exn.splits)

lemma verify_step:
  assumes "verify_from sha n i h l (rec # recs) = Inr r" "vr_ok r"
  obtains h' s where "verify_record sha h rec = Inr (Inr (h', s))" "verify_from sha n (Suc i) h' (Some s) recs = Inr r"
proof -
  obtain x where x: "verify_record sha h rec = Inr x" using assms(1) by (auto simp: rbind_eq_Inr)
  with assms that show thesis by (cases x) (auto simp: broken_def)
qed

lemma verify_ok_shift:
  "verify_from sha n i h l recs = Inr r \<Longrightarrow> vr_ok r \<Longrightarrow> \<exists>r'. verify_from sha n' i' h l' recs = Inr r' \<and> vr_ok r'"
proof (induction recs arbitrary: i h l i' l')
  case (Cons rec recs)
  obtain h' s where s: "verify_record sha h rec = Inr (Inr (h', s))" "verify_from sha n (Suc i) h' (Some s) recs = Inr r"
    using verify_step [OF Cons.prems] by metis
  from Cons.IH [OF s(2) Cons.prems(2)] s(1) show ?case by simp
qed simp

lemma verify_delete:
  "verify_from sha n i h l (xs @ d # ys) = Inr r \<Longrightarrow> vr_ok r \<Longrightarrow> is_chained d = Inr False \<or> ys = [] \<Longrightarrow>
     \<exists>r'. verify_from sha n' i' h l' (xs @ ys) = Inr r' \<and> vr_ok r'"
proof (induction xs arbitrary: i h l i' l')
  case Nil
  obtain h' s where s: "verify_record sha h d = Inr (Inr (h', s))" "verify_from sha n (Suc i) h' (Some s) ys = Inr r"
    using verify_step [of sha n i h l d ys r] Nil.prems by auto
  show ?case
  proof (cases "ys = []")
    case False
    then have "h' = h" using Nil.prems(3) decision_keeps_head [OF s(1)] by blast
    with verify_ok_shift [OF s(2) Nil.prems(2)] show ?thesis by simp
  qed simp
next
  case (Cons rec xs)
  obtain h' s where s: "verify_record sha h rec = Inr (Inr (h', s))" "verify_from sha n (Suc i) h' (Some s) (xs @ d # ys) = Inr r"
    using verify_step [of sha n i h l rec "xs @ d # ys" r] Cons.prems by auto
  from Cons.IH [OF s(2) Cons.prems(2,3)] s(1) show ?case by simp
qed

section \<open>Properties\<close>

lemma read_raw_jwf: "read_raw f = Inr recs \<Longrightarrow> list_all jwf recs"
  using loads_str_jwf rmap_member by (fastforce simp: read_raw_def list_all_iff)

lemma broken_not_ok [simp]: "\<not> vr_ok (broken n i why)"
  by (simp add: broken_def)

lemma broken_eq: "broken n i why = r \<Longrightarrow> \<not> vr_ok r"
  by auto

lemma verify_head_chain:
  assumes "verify_head sha g h f = Inr r" "vr_ok r" "read_raw f = Inr recs" "list_all is_event recs"
  shows "chain sha g recs \<and> recs \<noteq> [] \<and> chain_head sha g recs = h"
proof -
  obtain q where q: "verify_records sha g recs = Inr q" "vr_ok q" "vr_head q = Some h"
    using assms(1-3) by (auto simp: verify_head_def verify_ledger_def rbind_eq_Inr split: if_splits dest: broken_eq)
  with verify_chain [OF assms(4), of sha "length recs" 0 g None] show ?thesis
    by (auto simp: verify_records_def split: if_splits)
qed

text \<open>
  C19: A pinned head pins the ledger. If sha256 has no collision on the texts involved, two ledgers of
  chained events that verify against the same out-of-band head hold the same records in the same
  order, up to the order of keys inside a record.
\<close>

theorem pinned_head_pins_ledger:
  assumes "verify_head sha (GENESIS sha) h f = Inr r" "vr_ok r" "read_raw f = Inr xs" "list_all is_event xs"
    and "verify_head sha (GENESIS sha) h g = Inr q" "vr_ok q" "read_raw g = Inr ys" "list_all is_event ys"
    and "no_collision sha (insert genesis_text (sealed_texts xs \<union> sealed_texts ys))"
  shows "map jsort xs = map jsort ys"
  using verify_head_chain [OF assms(1-4)] verify_head_chain [OF assms(5-8)] read_raw_jwf assms(3,7,9)
  by (intro chains_agree) auto

definition one_event :: "(bytes \<Rightarrow> bytes) \<Rightarrow> json" where
  "one_event sha =
     JObj [(''hash'', JStr (sha_of sha (JObj [(''prev_hash'', JStr (GENESIS sha))]))), (''prev_hash'', JStr (GENESIS sha))]"

lemma one_event:
  "is_event (one_event sha)" "links sha (GENESIS sha) (one_event sha)" "jwf (one_event sha)" "jsort (one_event sha) = one_event sha"
  "read_raw (ledger_append (one_event sha) []) = Inr [one_event sha]"
proof -
  show "is_event (one_event sha)" by (simp add: is_event_def one_event_def dkeys_def)
  show "links sha (GENESIS sha) (one_event sha)"
    by (simp add: links_def one_event_def recompute_event_hash_def event_core_def)
  show wf: "jwf (one_event sha)" by (simp add: one_event_def)
  have "''hash'' \<le> ''prev_hash''" by code_simp
  then show s: "jsort (one_event sha) = one_event sha" by (simp add: one_event_def)
  have "read_raw [] = Inr []" by (simp add: read_raw_def strip_def)
  with read_append(1) [of "[]" "[]"] wf s show "read_raw (ledger_append (one_event sha) []) = Inr [one_event sha]"
    by (simp add: one_event_def complete_file_def del: jsort.simps)
qed

theorem pinned_head_pins_ledger_witness: "map jsort [one_event id] = [one_event id]"
proof -
  let ?f = "ledger_append (one_event id) []"
  let ?h = "recompute_event_hash id (one_event id)"
  obtain r where r: "verify_head id (GENESIS id) ?h ?f = Inr r" "vr_ok r"
    using verify_chain [of "[one_event id]" id 1 0 "GENESIS id" None] one_event [of id]
    by (auto simp: verify_head_def verify_ledger_def verify_records_def chain_head_def)
  have "no_collision id (insert genesis_text (sealed_texts [one_event id] \<union> sealed_texts [one_event id]))"
    by (simp add: no_collision_def inj_on_def)
  with pinned_head_pins_ledger [OF r one_event(5) _ r one_event(5)] one_event(1,4) [of id] show ?thesis by simp
qed

text \<open>
  C20: Some deletions are not seen. If a ledger verifies, it still verifies after its last record is
  removed, and after a decision record is removed anywhere.
\<close>

theorem deletion_unseen:
  assumes "verify_records sha g (xs @ d # ys) = Inr r" "vr_ok r" "is_chained d = Inr False \<or> ys = []"
  shows "\<exists>r'. verify_records sha g (xs @ ys) = Inr r' \<and> vr_ok r'"
  using verify_delete [OF assms(1) [unfolded verify_records_def] assms(2,3)] by (simp add: verify_records_def)

theorem deletion_unseen_witness:
  "\<exists>r. verify_records id (GENESIS id) ([] @ []) = Inr r \<and> vr_ok r"
proof -
  obtain r where "verify_records id (GENESIS id) ([] @ one_event id # []) = Inr r" "vr_ok r"
    using verify_chain [of "[one_event id]" id 1 0 "GENESIS id" None] one_event [of id]
    by (auto simp: verify_records_def)
  from deletion_unseen [OF this] show ?thesis by simp
qed

end
