(* ===== verification/Gbrg_Gate.thy ===== *)
theory Gbrg_Gate
  imports Gbrg_Ledger
begin

text \<open>
  \<open>gbrg/governance/gate.py\<close>: the content proposal, the call of the authority program, and the gate
  that takes the stricter of the two, seals the decision and appends it to the ledger. A proof artifact
  is a value; the authority program is a parameter that maps its command line to how it ended. The
  wording of reasons is a parameter \<open>msg\<close> of the sealed record. Values that hold a float or a text of a
  container cannot be written to a record here (\<open>OtherError\<close>).
\<close>

section \<open>Constants\<close>

definition AGENT_REF :: string where "AGENT_REF = ''agent-registry://gbrg/scorer''"
definition INCLUSION_ACTION :: string where "INCLUSION_ACTION = ''memory''"
definition EXIT_ALLOW :: int where "EXIT_ALLOW = 0"
definition EXIT_DENY :: int where "EXIT_DENY = 1"
definition EXIT_REVIEW :: int where "EXIT_REVIEW = 3"
definition BLAST_INCLUDE_FLOOR :: rat where "BLAST_INCLUDE_FLOOR = 20 / 100"
definition BLAST_HIGH_RISK :: rat where "BLAST_HIGH_RISK = 60 / 100"

section \<open>The content proposal\<close>

datatype artifact_problem =
    BlastNonNumeric pyval
  | BlastNotFinite pyval
  | BlastOutOfRange rat
  | DependentsNotInt pyval
  | DependentsNegative int

datatype gate_reason =
    RejectedOrDead pyval pyval
  | Unverifiable artifact_problem
  | HighBlastWeakEvidence rat bool pyval
  | AboveFloor rat bool
  | BelowFloor rat

datatype priority = HighPriority | NormalPriority | Deprioritized | NoPriority

datatype inclusion = INCLUDE | EXCLUDE

record Proposal =
  p_verdict :: inclusion
  p_priority :: priority
  p_reason :: gate_reason

definition validate_blast_radius :: "pyval \<Rightarrow> artifact_problem option result" where
  "validate_blast_radius v =
     (case v of
        VInt _ \<Rightarrow>
          rbind (v_float v) (\<lambda>f. case f of
             Fin q \<Rightarrow> Inr (if q < 0 \<or> q > 1 then Some (BlastOutOfRange q) else None)
           | _ \<Rightarrow> Inr (Some (BlastNotFinite v)))
      | VFloat f \<Rightarrow>
          (case f of
             Fin q \<Rightarrow> Inr (if q < 0 \<or> q > 1 then Some (BlastOutOfRange q) else None)
           | _ \<Rightarrow> Inr (Some (BlastNotFinite v)))
      | _ \<Rightarrow> Inr (Some (BlastNonNumeric v)))"

definition validate_dependents_count :: "pyval \<Rightarrow> artifact_problem option" where
  "validate_dependents_count v =
     (case v of
        VNone \<Rightarrow> None
      | VInt i \<Rightarrow> if i < 0 then Some (DependentsNegative i) else None
      | _ \<Rightarrow> Some (DependentsNotInt v))"

definition artifact_problem_of :: "(string, pyval) dict \<Rightarrow> artifact_problem option result" where
  "artifact_problem_of a =
     rbind (validate_blast_radius (dgetdef a ''blast_radius'' (VFloat (Fin 0)))) (\<lambda>p.
       case p of
         Some q \<Rightarrow> Inr (Some q)
       | None \<Rightarrow> Inr (validate_dependents_count (dgetdef a ''dependents_count'' VNone)))"

definition blast_of :: "(string, pyval) dict \<Rightarrow> rat" where
  "blast_of a =
     (case v_float (v_or (dgetdef a ''blast_radius'' (VFloat (Fin 0))) (VFloat (Fin 0))) of
        Inr (Fin q) \<Rightarrow> q
      | _ \<Rightarrow> 0)"

definition epistemic_level :: "(string, pyval) dict \<Rightarrow> pyval result" where
  "epistemic_level a =
     rbind (dict_or_empty (dgetdef a ''claim'' (VDict []))) (\<lambda>claim. Inr (dgetdef claim ''epistemicLevel'' (VStr [])))"

definition rejected_or_dead :: "pyval \<Rightarrow> pyval \<Rightarrow> bool result" where
  "rejected_or_dead level status =
     (if level = VStr ''rejected'' then Inr True else v_in_set status [''FAILED'', ''BLOCKED''])"

definition decide_inclusion :: "pyval \<Rightarrow> Proposal result" where
  "decide_inclusion artifact =
     (case artifact of
        VDict a \<Rightarrow>
          rbind (epistemic_level a) (\<lambda>level.
          let status = dgetdef a ''status'' (VStr []);
              tested = truthy (dgetdef a ''test_coverage_reach'' (VBool False));
              generated = truthy (dgetdef a ''generated'' (VBool False)) in
          rbind (rejected_or_dead level status) (\<lambda>dead.
          if dead then Inr \<lparr>p_verdict = EXCLUDE, p_priority = NoPriority, p_reason = RejectedOrDead level status\<rparr>
          else rbind (artifact_problem_of a) (\<lambda>problem.
          case problem of
            Some q \<Rightarrow> Inr \<lparr>p_verdict = INCLUDE, p_priority = HighPriority, p_reason = Unverifiable q\<rparr>
          | None \<Rightarrow>
              let blast = blast_of a in
              rbind (if \<not> tested then Inr True else v_in_set level [''speculative'', ''synthetic'', ''empirical'']) (\<lambda>weak_evidence.
              Inr (if BLAST_HIGH_RISK \<le> blast \<and> weak_evidence
                   then \<lparr>p_verdict = INCLUDE, p_priority = HighPriority, p_reason = HighBlastWeakEvidence blast tested level\<rparr>
                   else if BLAST_INCLUDE_FLOOR \<le> blast
                   then \<lparr>p_verdict = INCLUDE, p_priority = (if generated then Deprioritized else NormalPriority),
                         p_reason = AboveFloor blast generated\<rparr>
                   else \<lparr>p_verdict = EXCLUDE, p_priority = NoPriority, p_reason = BelowFloor blast\<rparr>)))))
      | _ \<Rightarrow> Inl AttributeError)"

section \<open>The authority gate\<close>

text \<open>
  How the authority program ends: it cannot be run, or it exits with a code, a standard output (blank,
  unparsable, or a value) and a standard error.
\<close>

datatype process = InvocationFailed string | Finished int "pyval result option" string

definition authorize_cmd :: "string \<Rightarrow> string option \<Rightarrow> string option \<Rightarrow> string \<Rightarrow> string \<Rightarrow> string list" where
  "authorize_cmd authorize_py state_file status agent_ref action =
     [''python3'', authorize_py, ''check'', agent_ref, ''--action'', action] @
     (case state_file of None \<Rightarrow> [] | Some s \<Rightarrow> [''--state-file'', s]) @
     (case status of None \<Rightarrow> [] | Some s \<Rightarrow> [''--status'', s])"

definition exit_verdict :: "int \<Rightarrow> string" where
  "exit_verdict rc =
     (if rc = EXIT_ALLOW then ''allow'' else if rc = EXIT_REVIEW then ''require-review'' else ''deny'')"

definition decision_payload :: "int \<Rightarrow> pyval result option \<Rightarrow> string \<Rightarrow> pyval" where
  "decision_payload rc stdout stderr =
     (let raw = (case stdout of Some (Inr v) \<Rightarrow> v | _ \<Rightarrow> VDict []) in
      if truthy raw then raw
      else VDict [(''verdict'', VStr (exit_verdict rc)), (''reason_code'', VStr ''no_decision_payload''),
                  (''receipt_hash'', VNone), (''exit_code'', VInt rc), (''stderr'', VStr (strip stderr))])"

definition authority_meet :: "string \<Rightarrow> pyval \<Rightarrow> string result" where
  "authority_meet ev pv =
     (if \<not> v_hashable pv then Inl TypeError
      else if ev = ''deny'' \<or> pv = VStr ''deny'' then Inr ''deny''
      else if pv = VStr ev then Inr ev
      else Inr ''deny'')"

definition authorize_inclusion ::
    "(string list \<Rightarrow> process) \<Rightarrow> string \<Rightarrow> string option \<Rightarrow> string option \<Rightarrow> string \<Rightarrow> string \<Rightarrow>
      (string \<times> (string, pyval) dict) result" where
  "authorize_inclusion run authorize_py state_file status agent_ref action =
     (case run (authorize_cmd authorize_py state_file status agent_ref action) of
        InvocationFailed err \<Rightarrow>
          Inr (''deny'', [(''verdict'', VStr ''deny''), (''reason_code'', VStr ''authorize_invocation_failed''),
                          (''error'', VStr err), (''receipt_hash'', VNone)])
      | Finished rc stdout stderr \<Rightarrow>
          let raw = decision_payload rc stdout stderr in
          rbind (vget raw ''verdict'' (VStr (exit_verdict rc))) (\<lambda>pv.
          rbind (authority_meet (exit_verdict rc) pv) (\<lambda>verdict.
            Inr (verdict, case raw of VDict d \<Rightarrow> d | _ \<Rightarrow> []))))"

section \<open>The sealed decision\<close>

datatype gate_message =
    ContentMessage gate_reason
  | FailClosedMessage string pyval gate_reason
  | AllowedMessage gate_reason

record Decision =
  d_agentRef :: string
  d_action :: string
  d_cell_id :: pyval
  d_epistemicLevel :: pyval
  d_proof_id :: pyval
  d_verdict :: inclusion
  d_included :: bool
  d_reason :: gate_message
  d_priority :: priority
  d_content_verdict :: inclusion
  d_authority_verdict :: string
  d_authority_reason_code :: string
  d_decided_at :: string
  d_authority :: "(string, pyval) dict"

fun inclusion_text :: "inclusion \<Rightarrow> string" where
  "inclusion_text INCLUDE = ''INCLUDE''"
| "inclusion_text EXCLUDE = ''EXCLUDE''"

fun priority_text :: "priority \<Rightarrow> string" where
  "priority_text HighPriority = ''high''"
| "priority_text NormalPriority = ''normal''"
| "priority_text Deprioritized = ''deprioritized''"
| "priority_text NoPriority = ''n/a''"

text \<open>\<open>asdict\<close> of a decision with its receipt.\<close>

definition decision_json :: "(gate_message \<Rightarrow> string) \<Rightarrow> Decision \<Rightarrow> string \<Rightarrow> json result" where
  "decision_json msg d receipt =
     rbind (jval (d_cell_id d)) (\<lambda>cell. rbind (jval (d_epistemicLevel d)) (\<lambda>level. rbind (jval (d_proof_id d)) (\<lambda>proof_id.
     rbind (jval (VDict (d_authority d))) (\<lambda>authority.
     Inr (JObj
       [(''recordType'', JStr ''ContextInclusionDecision''),
        (''schemaVersion'', JStr ''gbrg.governance.context-inclusion-decision.v0.1''),
        (''agentRef'', JStr (d_agentRef d)), (''action'', JStr (d_action d)), (''cell_id'', cell),
        (''epistemicLevel'', level), (''proof_id'', proof_id), (''verdict'', JStr (inclusion_text (d_verdict d))),
        (''included'', JBool (d_included d)), (''reason'', JStr (msg (d_reason d))),
        (''priority'', JStr (priority_text (d_priority d))),
        (''content_verdict'', JStr (inclusion_text (d_content_verdict d))),
        (''authority_verdict'', JStr (d_authority_verdict d)),
        (''authority_reason_code'', JStr (d_authority_reason_code d)), (''decided_at'', JStr (d_decided_at d)),
        (''authority'', authority), (''receipt'', JStr receipt)])))))"

definition seal_decision :: "(bytes \<Rightarrow> bytes) \<Rightarrow> (gate_message \<Rightarrow> string) \<Rightarrow> Decision \<Rightarrow> json result" where
  "seal_decision sha msg d =
     rbind (decision_json msg d []) (\<lambda>j. rbind (decision_core j) (\<lambda>core. decision_json msg d (sha_of sha core)))"

section \<open>The gate\<close>

definition final_verdict :: "Proposal \<Rightarrow> string \<Rightarrow> (string, pyval) dict \<Rightarrow> inclusion \<times> gate_message" where
  "final_verdict proposal authority_verdict raw =
     (if p_verdict proposal = EXCLUDE then (EXCLUDE, ContentMessage (p_reason proposal))
      else if authority_verdict \<noteq> ''allow''
      then (EXCLUDE, FailClosedMessage authority_verdict (dgetdef raw ''reason_code'' VNone) (p_reason proposal))
      else (INCLUDE, AllowedMessage (p_reason proposal)))"

definition make_decision ::
    "string \<Rightarrow> string \<Rightarrow> (string, pyval) dict \<Rightarrow> pyval \<Rightarrow> Proposal \<Rightarrow> string \<Rightarrow> (string, pyval) dict \<Rightarrow> Decision result" where
  "make_decision now agent_ref a level proposal av raw =
     rbind (v_text (dgetdef raw ''reason_code'' (VStr []))) (\<lambda>code.
     let (final, reason) = final_verdict proposal av raw in
     Inr \<lparr>d_agentRef = agent_ref, d_action = INCLUSION_ACTION, d_cell_id = dgetdef a ''cell_id'' (VStr []),
          d_epistemicLevel = level, d_proof_id = dgetdef a ''proofId'' (VStr []), d_verdict = final,
          d_included = (final = INCLUDE), d_reason = reason,
          d_priority = (if final = INCLUDE then p_priority proposal else NoPriority),
          d_content_verdict = p_verdict proposal, d_authority_verdict = av, d_authority_reason_code = code,
          d_decided_at = now, d_authority = raw\<rparr>)"

definition gate_inclusion ::
    "(bytes \<Rightarrow> bytes) \<Rightarrow> (gate_message \<Rightarrow> string) \<Rightarrow> (string list \<Rightarrow> process) \<Rightarrow> string \<Rightarrow> string \<Rightarrow>
      pyval \<Rightarrow> string option \<Rightarrow> string option \<Rightarrow> string \<Rightarrow> bool \<Rightarrow> string \<Rightarrow> (Decision \<times> json \<times> string) result" where
  "gate_inclusion sha msg run authorize_py now artifact state_file status agent_ref persist ledger =
     (case artifact of
        VDict a \<Rightarrow>
          rbind (epistemic_level a) (\<lambda>level.
          rbind (decide_inclusion artifact) (\<lambda>proposal.
          rbind (authorize_inclusion run authorize_py state_file status agent_ref INCLUSION_ACTION) (\<lambda>(av, raw).
          rbind (make_decision now agent_ref a level proposal av raw) (\<lambda>d.
          rbind (seal_decision sha msg d) (\<lambda>rec.
            Inr (d, rec, if persist then ledger_append rec ledger else ledger))))))
      | _ \<Rightarrow> Inl AttributeError)"

section \<open>What the proposal excludes\<close>

lemma validate_blast_None:
  "validate_blast_radius v = Inr None \<longleftrightarrow> (\<exists>q. v_float v = Inr (Fin q) \<and> 0 \<le> q \<and> q \<le> 1 \<and> (\<forall>b. v \<noteq> VBool b))"
  by (cases v) (auto simp: validate_blast_radius_def rbind_eq_Inr split: pyfloat.splits if_splits)

lemma blast_of_valid:
  assumes "validate_blast_radius (dgetdef a ''blast_radius'' (VFloat (Fin 0))) = Inr None"
  shows "v_float (dgetdef a ''blast_radius'' (VFloat (Fin 0))) = Inr (Fin (blast_of a))"
  using assms unfolding validate_blast_None
  by (cases "dgetdef a ''blast_radius'' (VFloat (Fin 0))") (auto simp: blast_of_def v_or_def split: if_splits)

lemma decide_inclusion_cases:
  assumes "decide_inclusion artifact = Inr p"
  obtains (dead) a level where "artifact = VDict a" "epistemic_level a = Inr level" "p_verdict p = EXCLUDE"
      "rejected_or_dead level (dgetdef a ''status'' (VStr [])) = Inr True"
  | (problem) a level q where "artifact = VDict a" "epistemic_level a = Inr level" "p_verdict p = INCLUDE" "artifact_problem_of a = Inr (Some q)"
      "rejected_or_dead level (dgetdef a ''status'' (VStr [])) = Inr False"
  | (scored) a level where "artifact = VDict a" "epistemic_level a = Inr level" "artifact_problem_of a = Inr None"
      "rejected_or_dead level (dgetdef a ''status'' (VStr [])) = Inr False"
      "p_verdict p = (if BLAST_INCLUDE_FLOOR \<le> blast_of a then INCLUDE else EXCLUDE)"
proof -
  obtain a level dead where a: "artifact = VDict a" "epistemic_level a = Inr level"
    "rejected_or_dead level (dgetdef a ''status'' (VStr [])) = Inr dead"
    using assms by (cases artifact) (auto simp: decide_inclusion_def Let_def rbind_eq_Inr)
  show thesis
  proof (cases dead)
    case True
    with a assms show thesis by (intro dead [of a level]) (auto simp: decide_inclusion_def Let_def)
  next
    case False
    then obtain pr where pr: "artifact_problem_of a = Inr pr"
      using a assms by (auto simp: decide_inclusion_def Let_def rbind_eq_Inr)
    show thesis
    proof (cases pr)
      case None
      have "BLAST_INCLUDE_FLOOR \<le> blast_of a" if "BLAST_HIGH_RISK \<le> blast_of a"
        using that by (simp add: BLAST_INCLUDE_FLOOR_def BLAST_HIGH_RISK_def)
      with a False pr None assms show thesis
        by (intro scored [of a level]) (auto simp: decide_inclusion_def Let_def rbind_eq_Inr split: if_splits)
    next
      case (Some q)
      with a False pr assms show thesis by (intro problem [of a level q]) (auto simp: decide_inclusion_def Let_def)
    qed
  qed
qed

section \<open>The authority verdict\<close>




lemma gate_inclusion_parts:
  assumes "gate_inclusion sha msg run py now artifact sf st ref persist f = Inr (d, rec, f')"
  obtains a level p av raw where "artifact = VDict a" "epistemic_level a = Inr level" "decide_inclusion artifact = Inr p"
    "authorize_inclusion run py sf st ref INCLUSION_ACTION = Inr (av, raw)"
    "make_decision now ref a level p av raw = Inr d" "seal_decision sha msg d = Inr rec"
    "f' = (if persist then ledger_append rec f else f)"
  using assms by (cases artifact) (auto simp: gate_inclusion_def rbind_eq_Inr)


section \<open>Properties\<close>



text \<open>
  Nothing unscorable is dropped. A proposal excludes a cell exactly when its level is rejected or its
  status dead, or when its blast radius and dependents count are valid and the radius is below the
  inclusion floor; a cell that cannot be scored is included.
\<close>

theorem unscorable_never_dropped:
  assumes "decide_inclusion (VDict a) = Inr p" "epistemic_level a = Inr level"
  shows "p_verdict p = EXCLUDE \<longleftrightarrow>
     rejected_or_dead level (dgetdef a ''status'' (VStr [])) = Inr True \<or>
     validate_dependents_count (dgetdef a ''dependents_count'' VNone) = None \<and>
     (\<exists>q. v_float (dgetdef a ''blast_radius'' (VFloat (Fin 0))) = Inr (Fin q) \<and> 0 \<le> q \<and> q < BLAST_INCLUDE_FLOOR \<and>
        (\<forall>b. dgetdef a ''blast_radius'' (VFloat (Fin 0)) \<noteq> VBool b))"
  using assms(1)
proof (cases rule: decide_inclusion_cases)
  case (dead b l)
  with assms(2) show ?thesis by simp
next
  case (problem b l q)
  then have "\<not> (validate_blast_radius (dgetdef a ''blast_radius'' (VFloat (Fin 0))) = Inr None \<and>
      validate_dependents_count (dgetdef a ''dependents_count'' VNone) = None)"
    by (auto simp: artifact_problem_of_def)
  moreover have "BLAST_INCLUDE_FLOOR \<le> 1" by (simp add: BLAST_INCLUDE_FLOOR_def)
  ultimately show ?thesis using problem assms(2) by (auto simp: validate_blast_None)
next
  case (scored b l)
  then have v: "validate_blast_radius (dgetdef a ''blast_radius'' (VFloat (Fin 0))) = Inr None"
    "validate_dependents_count (dgetdef a ''dependents_count'' VNone) = None"
    by (auto simp: artifact_problem_of_def rbind_eq_Inr split: option.splits)
  with scored assms(2) blast_of_valid [OF v(1)] show ?thesis unfolding validate_blast_None by auto
qed

theorem unscorable_never_dropped_witness:
  "\<exists>p. decide_inclusion (VDict [(''blast_radius'', VFloat NaN)]) = Inr p \<and> p_verdict p = INCLUDE"
proof -
  obtain p where p: "decide_inclusion (VDict [(''blast_radius'', VFloat NaN)]) = Inr p"
    by (simp add: epistemic_level_def dict_or_empty_def decide_inclusion_def rejected_or_dead_def v_in_set_def
        artifact_problem_of_def validate_blast_radius_def dgetdef_def Let_def image_iff)
  have l: "epistemic_level [(''blast_radius'', VFloat NaN)] = Inr (VStr [])"
    by (simp add: epistemic_level_def dict_or_empty_def dgetdef_def)
  have "p_verdict p \<noteq> EXCLUDE"
    using unscorable_never_dropped [OF p l] by (simp add: dgetdef_def rejected_or_dead_def v_in_set_def image_iff)
  with p show ?thesis by (cases "p_verdict p") auto
qed

section \<open>Sealed decisions verify\<close>

lemma jat_jsort:
  assumes "jwf (JObj ps)"
  shows "jat k (jsort (JObj ps)) = rbind (jat k (JObj ps)) (\<lambda>v. Inr (jsort v))"
proof -
  obtain qs where qs: "jsort (JObj ps) = JObj qs" by simp
  have "dget qs k = map_option jsort (dget ps k)" using jsort_dget [OF _ qs] assms by simp
  then show ?thesis unfolding qs by (simp split: option.splits)
qed

lemma jin_jsort: "jin k (jsort (JObj ps)) = jin k (JObj ps)"
proof -
  have "set (map fst (sort_key fst (map (\<lambda>(k, v). (k, jsort v)) ps))) = set (map fst ps)"
    using jsort_keys [of ps] by (rule mset_eq_setD)
  then show ?thesis by (simp add: dkeys_def)
qed

lemma rmap_map_result:
  "(\<And>x. g x = rbind (f x) (\<lambda>y. Inr (h y))) \<Longrightarrow> rmap g xs = rbind (rmap f xs) (\<lambda>ys. Inr (map h ys))"
  by (induction xs) (auto simp: rbind_def split: sum.splits)

lemma jsort_values: "jsort (JObj (map (\<lambda>(k, v). (k, jsort v)) fs)) = jsort (JObj fs)"
proof -
  have "map (\<lambda>(k, v). (k, jsort v)) (map (\<lambda>(k, v). (k, jsort v)) fs) = map (\<lambda>(k, v). (k, jsort v)) fs" by (induction fs) auto
  then show ?thesis by (simp only: jsort.simps)
qed

lemma decision_core_jsort:
  assumes "jwf (JObj ps)" "decision_core (JObj ps) = Inr c"
  shows "\<exists>c'. decision_core (jsort (JObj ps)) = Inr c' \<and> jsort c' = jsort c"
proof -
  obtain qs where qs: "jsort (JObj ps) = JObj qs" by simp
  let ?at = "\<lambda>r k. rbind (jat k r) (\<lambda>v. Inr (k, v))"
  have fields: "rmap (?at (JObj qs)) decision_fields = rbind (rmap (?at (JObj ps)) decision_fields) (\<lambda>fs. Inr (map (\<lambda>(k, v). (k, jsort v)) fs))"
  proof (rule rmap_map_result)
    fix k
    show "?at (JObj qs) k = rbind (?at (JObj ps) k) (\<lambda>p. Inr ((\<lambda>(k, v). (k, jsort v)) p))"
      unfolding jat_jsort [OF assms(1), unfolded qs] by (cases "jat k (JObj ps)") (simp_all del: jat.simps)
  qed
  obtain fs r where fs: "rmap (?at (JObj ps)) decision_fields = Inr fs"
    and r: "authority_receipt (dgetdef ps ''authority'' (JObj [])) = Inr r"
    and c: "c = JObj (fs @ [(''authority_receipt'', r)])"
    using assms(2) by (auto simp: decision_core_def rbind_eq_Inr)
  obtain as where as: "dgetdef ps ''authority'' (JObj []) = JObj as" "r = dgetdef as ''receipt_hash'' JNull"
    using r by (cases "dgetdef ps ''authority'' (JObj [])") (auto simp: authority_receipt_def dgetdef_def)
  have wf: "jwf (JObj as)"
  proof (cases "dget ps ''authority''")
    case None
    with as(1) show ?thesis by (simp add: dgetdef_def)
  next
    case (Some v)
    then have "(''authority'', v) \<in> set ps" by (rule dget_Some_in)
    then have "jwf v" using assms(1) by auto
    with Some as(1) show ?thesis by (simp add: dgetdef_def)
  qed
  have "dgetdef qs ''authority'' (JObj []) = jsort (dgetdef ps ''authority'' (JObj []))"
    using jsort_dget [OF _ qs, of "''authority''"] assms(1) by (simp add: dgetdef_def split: option.splits)
  then obtain bs where bs: "dgetdef qs ''authority'' (JObj []) = JObj bs" "jsort (JObj as) = JObj bs" using as(1) by simp
  have "dgetdef bs ''receipt_hash'' JNull = jsort r"
    using jsort_dget [OF _ bs(2), of "''receipt_hash''"] wf as(2) by (simp add: dgetdef_def split: option.splits)
  then have "authority_receipt (dgetdef qs ''authority'' (JObj [])) = Inr (jsort r)"
    unfolding bs(1) by (simp add: authority_receipt_def dgetdef_def)
  then have "decision_core (JObj qs) = Inr (JObj (map (\<lambda>(k, v). (k, jsort v)) (fs @ [(''authority_receipt'', r)])))"
    using fields fs by (simp add: decision_core_def)
  with qs c jsort_values [of "fs @ [(''authority_receipt'', r)]"] show ?thesis by (simp only:) blast
qed

lemma verify_append_ok:
  assumes "verify_from sha n i h l xs = Inr r" "vr_ok r" "\<And>h. \<exists>h'. verify_record sha h rec = Inr (Inr (h', s))"
  shows "\<exists>r'. verify_from sha n' i' h l' (xs @ [rec]) = Inr r' \<and> vr_ok r' \<and> vr_head r' = Some s \<and> vr_records r' = n'"
  using assms(1,2)
proof (induction xs arbitrary: i h l i' l')
  case Nil
  obtain h' where "verify_record sha h rec = Inr (Inr (h', s))" using assms(3) by blast
  then show ?case by simp
next
  case (Cons x xs)
  obtain h' s' where s: "verify_record sha h x = Inr (Inr (h', s'))" "verify_from sha n (Suc i) h' (Some s') xs = Inr r"
    using verify_step [OF Cons.prems] by metis
  from Cons.IH [OF s(2) Cons.prems(2)] s(1) show ?case by simp
qed

lemma decision_json_obj:
  assumes "decision_json msg d r = Inr rec" "vwf (d_cell_id d)" "vwf (d_epistemicLevel d)" "vwf (d_proof_id d)" "vwf (VDict (d_authority d))"
  shows "\<exists>ps. rec = JObj ps \<and> jwf (JObj ps) \<and> dget ps ''hash'' = None \<and> dget ps ''receipt'' = Some (JStr r)"
proof -
  obtain a b c e where v: "jval (d_cell_id d) = Inr a" "jval (d_epistemicLevel d) = Inr b" "jval (d_proof_id d) = Inr c"
    "jval (VDict (d_authority d)) = Inr e"
    using assms(1) unfolding decision_json_def rbind_eq_Inr by blast
  have "jwf a" "jwf b" "jwf c" "jwf e" using v assms(2-5) jval_jwf by blast+
  then show ?thesis using assms(1) unfolding decision_json_def v rbind_Inr by auto
qed

lemma decision_core_receipt:
  assumes "decision_json msg d r = Inr j" shows "\<exists>k. decision_json msg d r' = Inr k \<and> decision_core k = decision_core j"
proof -
  obtain a b c e where v: "jval (d_cell_id d) = Inr a" "jval (d_epistemicLevel d) = Inr b" "jval (d_proof_id d) = Inr c"
    "jval (VDict (d_authority d)) = Inr e"
    using assms(1) unfolding decision_json_def rbind_eq_Inr by blast
  show ?thesis
    using assms unfolding decision_json_def v rbind_Inr by (auto simp: decision_core_def decision_fields_def dgetdef_def)
qed

lemma sealed_decision_verifies:
  assumes "seal_decision sha msg d = Inr rec" "vwf (d_cell_id d)" "vwf (d_epistemicLevel d)" "vwf (d_proof_id d)" "vwf (VDict (d_authority d))"
  shows "\<exists>ps s. rec = JObj ps \<and> jwf (JObj ps) \<and> dget ps ''receipt'' = Some (JStr s) \<and> dget ps ''hash'' = None \<and>
           (\<exists>cs. s = sha_of sha (JObj cs)) \<and> (\<forall>h. verify_record sha h (jsort rec) = Inr (Inr (h, s)))"
proof -
  obtain j core where j: "decision_json msg d [] = Inr j" "decision_core j = Inr core" "decision_json msg d (sha_of sha core) = Inr rec"
    using assms(1) by (auto simp: seal_decision_def rbind_eq_Inr)
  have core: "decision_core rec = Inr core"
    using decision_core_receipt [OF j(1), of "sha_of sha core"] j(2,3) by auto
  obtain ps where ps: "rec = JObj ps" "jwf (JObj ps)" "dget ps ''hash'' = None" "dget ps ''receipt'' = Some (JStr (sha_of sha core))"
    using decision_json_obj [OF j(3) assms(2-5)] by blast
  obtain c' where c': "decision_core (jsort (JObj ps)) = Inr c'" "jsort c' = jsort core"
    using decision_core_jsort [OF ps(2)] core ps(1) by auto
  have "recompute_receipt sha (jsort (JObj ps)) = Inr (sha_of sha core)"
    using c' by (simp add: recompute_receipt_def sha_of_def canonical_def del: jsort.simps)
  moreover have "jat ''receipt'' (jsort (JObj ps)) = Inr (JStr (sha_of sha core))"
    by (simp add: jat_jsort [OF ps(2)] ps(4) del: jsort.simps(2))
  moreover have "''hash'' \<notin> set (dkeys ps)" "''receipt'' \<in> set (dkeys ps)"
    using ps(3,4) dget_None_iff [of ps "''hash''"] dget_None_iff [of ps "''receipt''"] by auto
  ultimately have "verify_record sha h (jsort (JObj ps)) = Inr (Inr (h, sha_of sha core))" for h
    by (simp add: verify_record_def is_chained_def jin_jsort verify_decision_def del: jsort.simps)
  moreover have "\<exists>cs. core = JObj cs" using j(2) by (auto simp: decision_core_def rbind_eq_Inr split: json.splits)
  ultimately show ?thesis using ps by auto
qed

lemma gate_appends_decision:
  assumes "gate_inclusion sha msg run py now artifact sf st ref True f = Inr (d, rec, f')"
    and "vwf artifact" "vwf (VDict (d_authority d))"
  obtains ps s cs where "rec = JObj ps" "jwf (JObj ps)" "dget ps ''receipt'' = Some (JStr s)" "dget ps ''hash'' = None"
    "\<forall>h. verify_record sha h (jsort rec) = Inr (Inr (h, s))" "f' = ledger_append rec f"
    "s = sha_of sha (JObj cs)"
proof -
  obtain a level p av raw where parts: "artifact = VDict a" "epistemic_level a = Inr level"
    "make_decision now ref a level p av raw = Inr d" "seal_decision sha msg d = Inr rec" "f' = ledger_append rec f"
    using gate_inclusion_parts [OF assms(1)] by metis
  obtain claim where claim: "dict_or_empty (dgetdef a ''claim'' (VDict [])) = Inr claim" "level = dgetdef claim ''epistemicLevel'' (VStr [])"
    using parts(2) by (auto simp: epistemic_level_def rbind_eq_Inr)
  have wa: "vwf (VDict a)" using assms(2) parts(1) by simp
  have "vwf (VDict claim)"
    using vwf_get [OF wa, of "VDict []" "''claim''"] claim(1)
    by (auto simp: dict_or_empty_def split: if_splits pyval.splits)
  then have "vwf level" using claim(2) vwf_get by simp
  moreover have "d_cell_id d = dgetdef a ''cell_id'' (VStr [])" "d_epistemicLevel d = level" "d_proof_id d = dgetdef a ''proofId'' (VStr [])"
    using parts(3) by (auto simp: make_decision_def rbind_eq_Inr split_beta)
  ultimately have "\<exists>ps s. rec = JObj ps \<and> jwf (JObj ps) \<and> dget ps ''receipt'' = Some (JStr s) \<and> dget ps ''hash'' = None \<and>
           (\<exists>cs. s = sha_of sha (JObj cs)) \<and> (\<forall>h. verify_record sha h (jsort rec) = Inr (Inr (h, s)))"
    using wa vwf_get assms(3) by (intro sealed_decision_verifies [OF parts(4)]) simp_all
  with parts(5) that show thesis by blast
qed

text \<open>
  C22: Every decision, inclusion or exclusion, is persisted and verifiable. If the ledger verified before,
  then after the gate it holds one more record, verifies, and its head is the receipt of the new
  decision.
\<close>

theorem gate_keeps_ledger_verified:
  assumes "gate_inclusion sha msg run py now artifact sf st ref True f = Inr (d, rec, f')"
    and "vwf artifact" "vwf (VDict (d_authority d))" "complete_file f"
    and "verify_ledger sha g f = Inr r" "vr_ok r" "read_raw f = Inr recs"
  shows "complete_file f' \<and> read_raw f' = Inr (recs @ [jsort rec]) \<and>
    (\<exists>r' s. verify_ledger sha g f' = Inr r' \<and> vr_ok r' \<and> vr_head r' = Some s \<and> jat ''receipt'' rec = Inr (JStr s))"
proof -
  obtain ps s cs where ps: "rec = JObj ps" "jwf (JObj ps)" "dget ps ''receipt'' = Some (JStr s)" "dget ps ''hash'' = None"
    "\<forall>h. verify_record sha h (jsort rec) = Inr (Inr (h, s))" "f' = ledger_append rec f"
    "s = sha_of sha (JObj cs)"
    by (rule gate_appends_decision [OF assms(1-3)])
  note A = read_append [OF assms(4,7) ps(2), folded ps(1)]
  have "verify_from sha (length recs) 0 g None recs = Inr r" using assms(5,7) by (simp add: verify_ledger_def verify_records_def)
  from verify_append_ok [OF this assms(6), of "jsort rec" s "length (recs @ [jsort rec])" 0 None] ps(5)
  obtain r' where "verify_records sha g (recs @ [jsort rec]) = Inr r'" "vr_ok r'" "vr_head r' = Some s"
    unfolding verify_records_def by auto
  with A ps(6) ps(1,3) show ?thesis by (auto simp: verify_ledger_def simp del: jsort.simps)
qed

text \<open>An artifact with nothing in it, refused by the authority.\<close>

lemma refused_artifact:
  "\<exists>d rec f'. gate_inclusion sha (\<lambda>m. []) (\<lambda>c. Finished 1 None []) ''authorize.py'' ''now''
     (VDict []) None None AGENT_REF True [] = Inr (d, rec, f') \<and> vwf (VDict (d_authority d))"
  by (simp add: gate_inclusion_def epistemic_level_def dict_or_empty_def decide_inclusion_def rejected_or_dead_def v_in_set_def
      artifact_problem_of_def validate_blast_radius_def validate_dependents_count_def dgetdef_def authorize_inclusion_def
      decision_payload_def authority_meet_def exit_verdict_def EXIT_ALLOW_def EXIT_REVIEW_def make_decision_def final_verdict_def
      seal_decision_def decision_json_def decision_core_def decision_fields_def authority_receipt_def blast_of_def v_or_def
      BLAST_HIGH_RISK_def BLAST_INCLUDE_FLOOR_def Let_def image_iff dwf_def dkeys_def)

theorem gate_keeps_ledger_verified_witness:
  "\<exists>d rec f'. gate_inclusion id (\<lambda>m. []) (\<lambda>c. Finished 1 None []) ''authorize.py'' ''now''
     (VDict []) None None AGENT_REF True [] = Inr (d, rec, f') \<and> read_raw f' = Inr ([] @ [jsort rec])"
proof -
  obtain d rec f' where g: "gate_inclusion id (\<lambda>m. []) (\<lambda>c. Finished 1 None []) ''authorize.py'' ''now''
     (VDict []) None None AGENT_REF True [] = Inr (d, rec, f')" "vwf (VDict (d_authority d))" using refused_artifact by blast
  have e: "read_raw [] = Inr []" by (simp add: read_raw_def strip_def)
  then have v: "\<exists>r. verify_ledger id [] [] = Inr r \<and> vr_ok r" by (simp add: verify_ledger_def verify_records_def)
  then obtain r where r: "verify_ledger id [] [] = Inr r" "vr_ok r" by blast
  have "complete_file []" "vwf (VDict [])" by (simp_all add: complete_file_def)
  from gate_keeps_ledger_verified [OF g(1) this(2) g(2) this(1) r e] g(1) show ?thesis by blast
qed

end
