(* ===== verification/Gbrg_Mcp.thy ===== *)
theory Gbrg_Mcp
  imports Gbrg_Gate
begin

text \<open>
  \<open>gbrg/mcp/mcp_gate.py\<close>: the per-call gate of the tool server. Every call, allowed or refused, appends
  a hash-chained event to the ledger. The clock, the fresh event id and the registry file are arguments;
  arguments and results of tools are JSON without fractions. The printed output of a command is the
  record of what it reports, with its exit code and the ledger it leaves.
\<close>

section \<open>Registry\<close>

definition SPIFFE_ID :: string where "SPIFFE_ID = ''spiffe://socioprophet/mcp/gbrg''"
definition MCP_AGENT_REF :: string where "MCP_AGENT_REF = ''agent-registry://gbrg/mcp''"
definition SERVER_NAME :: string where "SERVER_NAME = ''gbrg-mcp''"
definition TOOL_ACTION :: string where "TOOL_ACTION = ''tool''"

definition path_schema :: "(string \<times> json) list \<Rightarrow> json" where
  "path_schema props =
     JObj [(''type'', JStr ''object''), (''required'', JList [JStr ''path'']), (''properties'', JObj props)]"

definition string_type :: json where
  "string_type = JObj [(''type'', JStr ''string'')]"

definition proof_artifact_out :: json where
  "proof_artifact_out =
     JObj [(''type'', JStr ''object''),
           (''description'', JStr ''GBRG BlastRadiusProofArtifact (never a bare float).''),
           (''required'', JList (map JStr [''proofId'', ''claim'', ''status'', ''blast_radius'', ''derivation'', ''declared_by'']))]"

definition read_tool :: "string \<Rightarrow> json \<Rightarrow> json \<Rightarrow> json" where
  "read_tool capability_ref s_in s_out =
     JObj [(''capability_ref'', JStr capability_ref), (''effect'', JStr ''read''), (''danger_class_hint'', JStr ''LOW''),
           (''side_effect_tags'', JList []), (''schema'', JObj [(''in'', s_in), (''out'', s_out)])]"

definition tool_descriptors :: "(string, json) dict" where
  "tool_descriptors =
     [(''impact_query'',
       read_tool ''capd://gbrg/mcp/impact_query'' (path_schema [(''path'', string_type), (''cellId'', string_type)]) proof_artifact_out),
      (''minimal_context_query'',
       read_tool ''capd://gbrg/mcp/minimal_context_query'' (path_schema [(''path'', string_type)])
         (JObj [(''type'', JStr ''object''), (''description'', JStr ''Only the cells the gate INCLUDES, each a ProofArtifact.'')])),
      (''graph_status'',
       read_tool ''capd://gbrg/mcp/graph_status'' (path_schema [(''path'', string_type)])
         (JObj [(''type'', JStr ''object''), (''description'', JStr ''Counts + epistemicLevel spread, wrapped as a ProofArtifact.'')]))]"

definition descriptor_fields :: "string list" where
  "descriptor_fields = [''capability_ref'', ''effect'', ''danger_class_hint'', ''side_effect_tags'', ''schema'']"

definition capability_digest :: "(bytes \<Rightarrow> bytes) \<Rightarrow> string \<Rightarrow> json \<Rightarrow> string result" where
  "capability_digest sha name desc =
     rbind (rmap (\<lambda>k. rbind (jat k desc) (\<lambda>v. Inr (k, v))) descriptor_fields) (\<lambda>fields.
       Inr (sha_of sha (JObj ((''name'', JStr name) # fields))))"

definition trust_hints :: json where
  "trust_hints = JObj [(''attestationRequired'', JBool True), (''grantRequired'', JBool True), (''ledgerMode'', JStr ''required'')]"

definition registry_tool :: "(bytes \<Rightarrow> bytes) \<Rightarrow> string \<times> json \<Rightarrow> json result" where
  "registry_tool sha = (\<lambda>(name, desc).
     rbind (jat ''capability_ref'' desc) (\<lambda>ref. rbind (capability_digest sha name desc) (\<lambda>digest.
     rbind (jat ''effect'' desc) (\<lambda>effect. rbind (jat ''side_effect_tags'' desc) (\<lambda>tags.
     rbind (jat ''danger_class_hint'' desc) (\<lambda>hint. rbind (jat ''schema'' desc) (\<lambda>schema.
       Inr (JObj [(''name'', JStr name), (''capability_ref'', ref), (''capability_digest'', JStr digest), (''effect'', effect),
                  (''side_effect_tags'', tags), (''danger_class_hint'', hint), (''schema'', schema),
                  (''trustHints'', trust_hints)]))))))))"

definition build_registry :: "(bytes \<Rightarrow> bytes) \<Rightarrow> json result" where
  "build_registry sha =
     rbind (rmap (registry_tool sha) tool_descriptors) (\<lambda>tools.
       Inr (JObj [(''servers'', JList [JObj [(''name'', JStr SERVER_NAME), (''side'', JStr ''either''), (''tools'', JList tools)]])]))"

text \<open>Iteration over a JSON value.\<close>

fun jiter :: "json \<Rightarrow> json list result" where
  "jiter (JList vs) = Inr vs"
| "jiter (JObj ps) = Inr (map JStr (dkeys ps))"
| "jiter (JStr s) = Inr (map (\<lambda>c. JStr [c]) s)"
| "jiter _ = Inl TypeError"

fun find_tool :: "string \<Rightarrow> json list \<Rightarrow> json option result" where
  "find_tool name [] = Inr None"
| "find_tool name (t # ts) = rbind (jat ''name'' t) (\<lambda>n. if n = JStr name then Inr (Some t) else find_tool name ts)"

fun find_in_servers :: "string \<Rightarrow> json list \<Rightarrow> json result" where
  "find_in_servers name [] = Inl OtherError"
| "find_in_servers name (s # ss) =
     rbind (jat ''tools'' s) (\<lambda>tools. rbind (jiter tools) (\<lambda>ts. rbind (find_tool name ts) (\<lambda>found.
       case found of Some t \<Rightarrow> Inr t | None \<Rightarrow> find_in_servers name ss)))"

definition tool_target :: "string \<Rightarrow> json \<Rightarrow> json result" where
  "tool_target name doc =
     rbind (jat ''servers'' doc) (\<lambda>servers. rbind (jiter servers) (\<lambda>ss. rbind (find_in_servers name ss) (\<lambda>entry.
     rbind (jat ''capability_ref'' entry) (\<lambda>ref. rbind (jat ''capability_digest'' entry) (\<lambda>digest.
       Inr (JObj [(''kind'', JStr ''mcp_tool''), (''spiffe_id'', JStr SPIFFE_ID), (''capability_ref'', ref),
                  (''capability_digest'', digest), (''server'', JStr SERVER_NAME), (''tool'', JStr name)]))))))"

section \<open>Events\<close>

definition prev_hash :: "(bytes \<Rightarrow> bytes) \<Rightarrow> string \<Rightarrow> json result" where
  "prev_hash sha ledger =
     rbind (ledger_read_all sha ledger True) (\<lambda>records.
       if records = [] then Inr (JStr (GENESIS sha))
       else rbind (jget ''hash'' (last records)) (\<lambda>h. if jtruthy h then Inr h else jat ''receipt'' (last records)))"

definition event_fields :: "string \<Rightarrow> string \<Rightarrow> string \<Rightarrow> json \<Rightarrow> string \<Rightarrow> string \<Rightarrow> json \<Rightarrow> (string \<times> json) list" where
  "event_fields event_id ts event_type target payload_hash policy_hash prev =
     [(''event_id'', JStr event_id), (''ts'', JStr ts), (''type'', JStr event_type), (''actor'', JObj [(''spiffe_id'', JStr SPIFFE_ID)]),
      (''target'', target), (''payload_hash'', JStr payload_hash), (''policy_hash'', JStr policy_hash), (''prev_hash'', prev)]"

definition emit_event ::
    "(bytes \<Rightarrow> bytes) \<Rightarrow> string \<Rightarrow> string \<Rightarrow> string \<Rightarrow> string \<Rightarrow> json \<Rightarrow> bool \<Rightarrow> string \<Rightarrow> string \<Rightarrow> string result \<Rightarrow>
      (json \<times> string) result" where
  "emit_event sha ts event_id event_type tool payload allow reason ledger registry =
     rbind (rbind registry loads_str) (\<lambda>doc. rbind (prev_hash sha ledger) (\<lambda>prev. rbind (tool_target tool doc) (\<lambda>target.
     let decision = JObj [(''allow'', JBool allow), (''reason'', JStr reason)];
         fields = event_fields event_id ts event_type target (sha_of sha payload) (sha_of sha doc) prev;
         event_hash = sha_of sha (JObj (fields @ [(''decision'', decision)]));
         event = JObj (fields @ [(''hash'', JStr event_hash), (''decision'', decision)]) in
     Inr (event, ledger_append event ledger))))"

section \<open>Commands\<close>

record McpOutput =
  mo_exit :: int
  mo_verdict :: string
  mo_reason_code :: string
  mo_ledger_written :: bool
  mo_event :: "json option"
  mo_ledger :: string

definition call_args :: "json result option \<Rightarrow> json" where
  "call_args args_json =
     (case args_json of None \<Rightarrow> JObj [] | Some (Inr v) \<Rightarrow> v | Some (Inl _) \<Rightarrow> JObj [(''_unparseable'', JBool True)])"

definition call_payload :: "string \<Rightarrow> json \<Rightarrow> string \<Rightarrow> string \<Rightarrow> json" where
  "call_payload tool args verdict reason_code =
     JObj [(''tool'', JStr tool), (''args'', args), (''verdict'', JStr verdict), (''reason_code'', JStr reason_code)]"

definition cmd_authorize ::
    "(bytes \<Rightarrow> bytes) \<Rightarrow> (string list \<Rightarrow> process) \<Rightarrow> string \<Rightarrow> string \<Rightarrow> string \<Rightarrow> string \<Rightarrow> json result option \<Rightarrow>
      string option \<Rightarrow> string option \<Rightarrow> string \<Rightarrow> string result \<Rightarrow> McpOutput result" where
  "cmd_authorize sha run authorize_py ts event_id tool args_json state_file status ledger registry =
     rbind (authorize_inclusion run authorize_py state_file status MCP_AGENT_REF TOOL_ACTION) (\<lambda>(verdict, raw).
     rbind (v_text (dgetdef raw ''reason_code'' (VStr []))) (\<lambda>reason_code.
     let allow = (verdict = ''allow'');
         reason = ''authorize verdict='' @ verdict @ '' ('' @ reason_code @ '')'';
         payload = call_payload tool (call_args args_json) verdict reason_code in
     case emit_event sha ts event_id ''MCP_CALL'' tool payload allow reason ledger registry of
       Inl e \<Rightarrow>
         Inr \<lparr>mo_exit = 1, mo_verdict = ''deny'', mo_reason_code = ''ledger_emit_failed'', mo_ledger_written = False,
              mo_event = None, mo_ledger = ledger\<rparr>
     | Inr (event, ledger') \<Rightarrow>
         Inr \<lparr>mo_exit = (if allow then 0 else 1), mo_verdict = verdict, mo_reason_code = reason_code, mo_ledger_written = True,
              mo_event = Some event, mo_ledger = ledger'\<rparr>))"

definition result_summary :: "string \<Rightarrow> json \<Rightarrow> json" where
  "result_summary tool res =
     JObj [(''tool'', JStr tool),
           (''result_keys'', case res of JObj ps \<Rightarrow> JList (map JStr (sort (dkeys ps))) | _ \<Rightarrow> JStr ''array'')]"

definition cmd_emit_result ::
    "(bytes \<Rightarrow> bytes) \<Rightarrow> string \<Rightarrow> string \<Rightarrow> string \<Rightarrow> json result option \<Rightarrow> string \<Rightarrow> string result \<Rightarrow> McpOutput" where
  "cmd_emit_result sha ts event_id tool result_json ledger registry =
     (case emit_event sha ts event_id ''MCP_RESULT'' tool (result_summary tool (call_args result_json)) True
             ''tool result served'' ledger registry of
        Inl e \<Rightarrow> \<lparr>mo_exit = 1, mo_verdict = [], mo_reason_code = [], mo_ledger_written = False, mo_event = None, mo_ledger = ledger\<rparr>
      | Inr (event, ledger') \<Rightarrow>
          \<lparr>mo_exit = 0, mo_verdict = [], mo_reason_code = [], mo_ledger_written = True, mo_event = Some event, mo_ledger = ledger'\<rparr>)"

definition cmd_refuse ::
    "(bytes \<Rightarrow> bytes) \<Rightarrow> string \<Rightarrow> string \<Rightarrow> string \<Rightarrow> string \<Rightarrow> json result option \<Rightarrow> string \<Rightarrow> string result \<Rightarrow> McpOutput" where
  "cmd_refuse sha ts event_id tool code args_json ledger registry =
     (let reason_code = (if code = [] then ''resource_confinement'' else code);
          payload = call_payload tool (call_args args_json) ''deny'' reason_code in
      case emit_event sha ts event_id ''MCP_CALL'' tool payload False
             (''resource confinement refusal ('' @ reason_code @ '')'') ledger registry of
        Inl e \<Rightarrow> \<lparr>mo_exit = 1, mo_verdict = [], mo_reason_code = [], mo_ledger_written = False, mo_event = None, mo_ledger = ledger\<rparr>
      | Inr (event, ledger') \<Rightarrow>
          \<lparr>mo_exit = 1, mo_verdict = [], mo_reason_code = reason_code, mo_ledger_written = True, mo_event = Some event,
           mo_ledger = ledger'\<rparr>)"

text \<open>What \<open>filter-include\<close> prints: each included artifact with its note, and the number of artifacts read.\<close>

datatype inclusion_note = Noted priority gate_reason | DecideError exn

definition keep_artifact :: "pyval \<Rightarrow> (pyval \<times> inclusion_note) list \<Rightarrow> (pyval \<times> inclusion_note) list" where
  "keep_artifact art included =
     (case decide_inclusion art of
        Inl e \<Rightarrow> included @ [(if is_dict art then art else VDict [(''_raw'', art)], DecideError e)]
      | Inr p \<Rightarrow> if p_verdict p = INCLUDE then included @ [(art, Noted (p_priority p) (p_reason p))] else included)"

definition cmd_filter_include :: "pyval \<Rightarrow> ((pyval \<times> inclusion_note) list \<times> nat) result" where
  "cmd_filter_include data0 =
     (let data = (if is_dict data0 then VList [data0] else data0) in
      rbind (v_iter data) (\<lambda>arts. Inr (fold keep_artifact arts [], length arts)))"

definition cmd_gen_registry :: "(bytes \<Rightarrow> bytes) \<Rightarrow> json result" where
  "cmd_gen_registry sha = build_registry sha"

section \<open>Events extend the chain\<close>

lemma event_core_jsort: "jwf (JObj ps) \<Longrightarrow> jsort (event_core (jsort (JObj ps))) = jsort (event_core (JObj ps))"
proof -
  assume wf: "jwf (JObj ps)"
  obtain qs where qs: "jsort (JObj ps) = JObj qs" by simp
  have wq: "jwf (JObj qs)" using jwf_jsort [OF wf] unfolding qs .
  let ?c = "filter (\<lambda>p. fst p \<noteq> ''hash'')"
  have "jsort (JObj (?c qs)) = jsort (JObj (?c ps))"
  proof (rule jsort_eq_obj)
    show "distinct (map fst (?c qs))" "distinct (map fst (?c ps))" using wf wq by (auto simp: distinct_map_filter)
    show "map_option jsort (dget (?c qs) k) = map_option jsort (dget (?c ps) k)" for k
    proof (cases "k = ''hash''")
      case True
      have "dget (?c xs) ''hash'' = None" for xs :: "(string \<times> json) list" by (induction xs) auto
      with True show ?thesis by simp
    next
      case False
      with jsort_dget [OF _ qs, of k] wf show ?thesis by (simp add: dget_filter_hash option.map_comp comp_def)
    qed
  qed
  then show ?thesis unfolding qs by (simp add: event_core_def)
qed

lemma jwf_jat: "jwf v \<Longrightarrow> jat k v = Inr w \<Longrightarrow> jwf w"
  by (cases v) (fastforce split: option.splits dest: dget_Some_in)+

lemma jwf_jiter: "jwf v \<Longrightarrow> jiter v = Inr vs \<Longrightarrow> list_all jwf vs"
  by (cases v) (auto simp: list_all_iff)

lemma jwf_find_tool: "list_all jwf ts \<Longrightarrow> find_tool name ts = Inr (Some t) \<Longrightarrow> jwf t"
  by (induction ts) (auto simp: rbind_eq_Inr split: if_splits)

lemma jwf_find_in_servers: "list_all jwf ss \<Longrightarrow> find_in_servers name ss = Inr t \<Longrightarrow> jwf t"
proof (induction ss)
  case (Cons s ss)
  then show ?case
    by (auto simp: rbind_eq_Inr simp del: jat.simps split: option.splits intro: jwf_find_tool [OF jwf_jiter] jwf_jat)
qed simp

lemma jwf_tool_target: "jwf doc \<Longrightarrow> tool_target name doc = Inr target \<Longrightarrow> jwf target"
proof -
  assume "jwf doc" "tool_target name doc = Inr target"
  then obtain a ss entry ref digest where a: "jat ''servers'' doc = Inr a" "jiter a = Inr ss" "find_in_servers name ss = Inr entry"
    and r: "jat ''capability_ref'' entry = Inr ref" "jat ''capability_digest'' entry = Inr digest"
    and t: "target = JObj [(''kind'', JStr ''mcp_tool''), (''spiffe_id'', JStr SPIFFE_ID), (''capability_ref'', ref),
                  (''capability_digest'', digest), (''server'', JStr SERVER_NAME), (''tool'', JStr name)]"
    unfolding tool_target_def rbind_eq_Inr by blast
  have "jwf entry" using jwf_find_in_servers [OF jwf_jiter [OF jwf_jat [OF \<open>jwf doc\<close> a(1)] a(2)] a(3)] .
  then have "jwf ref" "jwf digest" using r jwf_jat by blast+
  with t show ?thesis by simp
qed

lemma seal_nonempty: "sha_of sha v \<noteq> []"
  by (simp add: sha_of_def seal_text_def)

lemma prev_hash_events:
  assumes "read_raw f = Inr recs" "list_all is_event recs" "chain sha (GENESIS sha) recs"
  shows "prev_hash sha f = Inr (JStr (chain_head sha (GENESIS sha) recs))"
proof -
  have v: "ledger_read_all sha f True = Inr recs"
    using verify_chain [OF assms(2), of sha "length recs" 0 "GENESIS sha" None] assms(1,3)
    by (auto simp: ledger_read_all_def read_verified_def verify_ledger_def verify_records_def)
  show ?thesis
  proof (cases recs rule: rev_cases)
    case (snoc xs x)
    then have "links sha (chain_head sha (GENESIS sha) xs) x" using assms(3) by (simp add: chain_append)
    then obtain ps where ps: "x = JObj ps" "dget ps ''hash'' = Some (JStr (recompute_event_hash sha x))" by (rule linksE)
    have "jtruthy (JStr (recompute_event_hash sha x))" using seal_nonempty by (simp add: recompute_event_hash_def)
    then have "prev_hash sha f = Inr (JStr (recompute_event_hash sha x))"
      unfolding prev_hash_def v using ps by (simp add: snoc dgetdef_def del: jtruthy.simps)
    then show ?thesis using snoc by simp
  qed (use v in \<open>simp add: prev_hash_def\<close>)
qed

text \<open>A ledger of events that verifies, with its records.\<close>

definition event_ledger :: "(bytes \<Rightarrow> bytes) \<Rightarrow> string \<Rightarrow> json list \<Rightarrow> bool" where
  "event_ledger sha f recs \<longleftrightarrow>
     complete_file f \<and> read_raw f = Inr recs \<and> list_all is_event recs \<and> chain sha (GENESIS sha) recs"

lemma event_ledger_empty: "event_ledger sha [] []"
  by (simp add: event_ledger_def complete_file_def read_raw_def strip_def)

lemma event_ledger_verifies:
  "event_ledger sha f recs \<Longrightarrow> \<exists>r. verify_ledger sha (GENESIS sha) f = Inr r \<and> vr_ok r"
  using verify_chain [of recs sha "length recs" 0 "GENESIS sha" None]
  by (auto simp: event_ledger_def verify_ledger_def verify_records_def)

lemma sealed_links:
  assumes "jwf (JObj ps)" "dget ps ''prev_hash'' = Some (JStr h)" "dget ps ''hash'' = Some (JStr (sha_of sha (event_core (JObj ps))))"
  shows "links sha h (jsort (JObj ps)) \<and> is_event (jsort (JObj ps))"
proof -
  obtain qs where qs: "jsort (JObj ps) = JObj qs" by simp
  have d: "dget qs k = map_option jsort (dget ps k)" for k using jsort_dget [OF _ qs] assms(1) by simp
  have "recompute_event_hash sha (JObj qs) = sha_of sha (event_core (JObj ps))"
    using event_core_jsort [OF assms(1)] unfolding qs by (simp add: recompute_event_hash_def sha_of_def canonical_def)
  then have "links sha h (JObj qs)" using d [of "''hash''"] d [of "''prev_hash''"] assms(2,3) by (simp add: links_def)
  moreover have "''hash'' \<in> set (dkeys qs)" "''prev_hash'' \<in> set (dkeys qs)"
    using d [of "''hash''"] d [of "''prev_hash''"] assms(2,3)
      dget_None_iff [of qs "''hash''"] dget_None_iff [of qs "''prev_hash''"] by simp_all
  ultimately show ?thesis unfolding qs by (simp add: is_event_def)
qed

lemma emit_event_parts:
  assumes "emit_event sha ts i ty tool payload allow why f registry = Inr (e, f')"
  shows "\<exists>doc prev target ps. rbind registry loads_str = Inr doc \<and> prev_hash sha f = Inr prev \<and> tool_target tool doc = Inr target \<and>
    e = JObj ps \<and> f' = ledger_append e f \<and> dget ps ''prev_hash'' = Some prev \<and> dget ps ''type'' = Some (JStr ty) \<and>
    dget ps ''decision'' = Some (JObj [(''allow'', JBool allow), (''reason'', JStr why)]) \<and>
    dget ps ''hash'' = Some (JStr (sha_of sha (event_core e))) \<and> (jwf target \<and> jwf prev \<longrightarrow> jwf (JObj ps))"
  using assms unfolding emit_event_def rbind_eq_Inr Let_def
  by (auto simp: event_fields_def event_core_def)

lemma emit_event_sealed:
  assumes "prev_hash sha f = Inr (JStr h)" "emit_event sha ts i ty tool payload allow why f registry = Inr (e, f')"
  obtains ps where "e = JObj ps" "jwf (JObj ps)" "f' = ledger_append e f" "links sha h (jsort e)" "is_event (jsort e)"
    "jat ''type'' e = Inr (JStr ty)" "jat ''decision'' e = Inr (JObj [(''allow'', JBool allow), (''reason'', JStr why)])"
proof -
  obtain doc target ps where e: "rbind registry loads_str = Inr doc" "tool_target tool doc = Inr target"
    "e = JObj ps" "f' = ledger_append e f" "dget ps ''prev_hash'' = Some (JStr h)" "dget ps ''type'' = Some (JStr ty)"
    "dget ps ''decision'' = Some (JObj [(''allow'', JBool allow), (''reason'', JStr why)])"
    "dget ps ''hash'' = Some (JStr (sha_of sha (event_core e)))" "jwf target \<longrightarrow> jwf (JObj ps)"
    using emit_event_parts [OF assms(2)] assms(1) by auto
  have "jwf doc" using e(1) loads_str_jwf unfolding rbind_eq_Inr by blast
  then have wf: "jwf (JObj ps)" using e(9) jwf_tool_target [OF _ e(2)] by blast
  have "links sha h (jsort (JObj ps)) \<and> is_event (jsort (JObj ps))"
    using e(3,5,8) by (intro sealed_links [OF wf]) simp_all
  with e(3,4,6,7) wf show thesis by (intro that [of ps]) simp_all
qed

lemma emit_event_extends:
  assumes "event_ledger sha f recs" "emit_event sha ts i ty tool payload allow why f registry = Inr (e, f')"
  shows "event_ledger sha f' (recs @ [jsort e]) \<and> jat ''type'' e = Inr (JStr ty) \<and>
    jat ''decision'' e = Inr (JObj [(''allow'', JBool allow), (''reason'', JStr why)])"
proof -
  have L: "complete_file f" "read_raw f = Inr recs" "list_all is_event recs" "chain sha (GENESIS sha) recs"
    using assms(1) by (simp_all add: event_ledger_def)
  obtain ps where e: "e = JObj ps" "jwf (JObj ps)" "f' = ledger_append e f"
    "links sha (chain_head sha (GENESIS sha) recs) (jsort e)" "is_event (jsort e)"
    "jat ''type'' e = Inr (JStr ty)" "jat ''decision'' e = Inr (JObj [(''allow'', JBool allow), (''reason'', JStr why)])"
    by (rule emit_event_sealed [OF prev_hash_events [OF L(2-4)] assms(2)])
  have "event_ledger sha f' (recs @ [jsort e])"
    using L read_append [OF L(1,2) e(2)] e(4,5) unfolding e(3) unfolding e(1)
    by (simp add: event_ledger_def chain_append del: jsort.simps)
  with e(6,7) show ?thesis by blast
qed

section \<open>Properties\<close>

text \<open>The ledgers that the per-call commands can leave, from an empty file, in any order.\<close>

inductive mcp_reach :: "(bytes \<Rightarrow> bytes) \<Rightarrow> nat \<Rightarrow> string \<Rightarrow> bool" for sha where
  mcp_empty: "mcp_reach sha 0 []"
| mcp_authorize: "mcp_reach sha n f \<Longrightarrow> cmd_authorize sha run py ts i tool args sf st f registry = Inr out \<Longrightarrow>
    mcp_reach sha (if mo_ledger_written out then Suc n else n) (mo_ledger out)"
| mcp_result: "mcp_reach sha n f \<Longrightarrow> cmd_emit_result sha ts i tool res f registry = out \<Longrightarrow>
    mcp_reach sha (if mo_ledger_written out then Suc n else n) (mo_ledger out)"
| mcp_refuse: "mcp_reach sha n f \<Longrightarrow> cmd_refuse sha ts i tool code args f registry = out \<Longrightarrow>
    mcp_reach sha (if mo_ledger_written out then Suc n else n) (mo_ledger out)"

text \<open>Every command either appends one event or leaves the ledger as it was.\<close>

definition one_event_or_none :: "(bytes \<Rightarrow> bytes) \<Rightarrow> string \<Rightarrow> McpOutput \<Rightarrow> bool" where
  "one_event_or_none sha f out \<longleftrightarrow>
     (\<forall>recs. event_ledger sha f recs \<longrightarrow>
        (if mo_ledger_written out then \<exists>e. mo_event out = Some e \<and> event_ledger sha (mo_ledger out) (recs @ [jsort e])
         else mo_ledger out = f))"

lemma cmd_authorize_parts:
  assumes "cmd_authorize sha run py ts i tool args sf st f registry = Inr out"
  obtains verdict raw payload why x where "authorize_inclusion run py sf st MCP_AGENT_REF TOOL_ACTION = Inr (verdict, raw)"
    "emit_event sha ts i ''MCP_CALL'' tool payload (verdict = ''allow'') why f registry = Inl x"
    "\<not> mo_ledger_written out" "mo_ledger out = f" "mo_exit out = 1"
  | verdict raw payload why e f' where "authorize_inclusion run py sf st MCP_AGENT_REF TOOL_ACTION = Inr (verdict, raw)"
    "emit_event sha ts i ''MCP_CALL'' tool payload (verdict = ''allow'') why f registry = Inr (e, f')"
    "mo_ledger_written out" "mo_event out = Some e" "mo_ledger out = f'" "mo_exit out = (if verdict = ''allow'' then 0 else 1)"
proof -
  obtain verdict raw code where a: "authorize_inclusion run py sf st MCP_AGENT_REF TOOL_ACTION = Inr (verdict, raw)"
    "v_text (dgetdef raw ''reason_code'' (VStr [])) = Inr code"
    using assms unfolding cmd_authorize_def rbind_eq_Inr by (auto simp: rbind_eq_Inr)
  let ?why = "''authorize verdict='' @ verdict @ '' ('' @ code @ '')''"
  let ?p = "call_payload tool (call_args args) verdict code"
  let ?e = "emit_event sha ts i ''MCP_CALL'' tool ?p (verdict = ''allow'') ?why f registry"
  note out = assms [unfolded cmd_authorize_def a(1) rbind_Inr prod.case a(2) Let_def]
  show thesis
  proof (cases ?e)
    case (Inl x)
    from out [unfolded Inl] show thesis by (intro that(1) [OF a(1) Inl]) auto
  next
    case (Inr p)
    obtain e f' where p: "p = (e, f')" by (cases p)
    from out [unfolded Inr p] show thesis by (intro that(2) [OF a(1) Inr [unfolded p]]) auto
  qed
qed

lemma cmd_authorize_one: "cmd_authorize sha run py ts i tool args sf st f registry = Inr out \<Longrightarrow> one_event_or_none sha f out"
  by (erule cmd_authorize_parts) (auto simp: one_event_or_none_def emit_event_extends)

lemma cmd_emit_result_one: "one_event_or_none sha f (cmd_emit_result sha ts i tool res f registry)"
  unfolding cmd_emit_result_def one_event_or_none_def
  by (auto simp: emit_event_extends split: sum.splits)

lemma cmd_refuse_one: "one_event_or_none sha f (cmd_refuse sha ts i tool code args f registry)"
  unfolding cmd_refuse_def one_event_or_none_def
  by (auto simp: Let_def emit_event_extends split: sum.splits)

lemma one_event_step:
  "one_event_or_none sha f out \<Longrightarrow> \<exists>recs. event_ledger sha f recs \<and> length recs = n \<Longrightarrow>
     \<exists>recs. event_ledger sha (mo_ledger out) recs \<and> length recs = (if mo_ledger_written out then Suc n else n)"
  unfolding one_event_or_none_def by (metis (no_types, opaque_lifting) length_append_singleton)

lemma mcp_reach_events: "mcp_reach sha n f \<Longrightarrow> \<exists>recs. event_ledger sha f recs \<and> length recs = n"
proof (induction rule: mcp_reach.induct)
  case mcp_empty
  show ?case using event_ledger_empty by force
qed (metis one_event_step cmd_authorize_one cmd_emit_result_one cmd_refuse_one)+

text \<open>
  C23: A ledger that only the per-call commands write always verifies: whatever the calls, results and
  refusals, in whatever order and with whatever registry, the file holds exactly one chained event per
  command that reported it was written, and the verifier accepts it.
\<close>

theorem mcp_ledger_always_verifies:
  assumes "mcp_reach sha n f"
  shows "\<exists>recs r. read_raw f = Inr recs \<and> length recs = n \<and> verify_ledger sha (GENESIS sha) f = Inr r \<and> vr_ok r"
  using mcp_reach_events [OF assms] event_ledger_verifies by (fastforce simp: event_ledger_def)

lemma built_registry:
  obtains doc target where "build_registry sha = Inr doc" "jwf doc" "tool_target ''graph_status'' doc = Inr target"
proof -
  let ?d = "\<lambda>name desc. sha_of sha (JObj ((''name'', JStr name) # map (\<lambda>k. (k, the (dget desc k))) descriptor_fields))"
  have "\<exists>doc target. build_registry sha = Inr doc \<and> jwf doc \<and> tool_target ''graph_status'' doc = Inr target"
    by (simp add: build_registry_def tool_descriptors_def registry_tool_def read_tool_def capability_digest_def descriptor_fields_def
        tool_target_def trust_hints_def path_schema_def string_type_def proof_artifact_out_def)
  with that show thesis by blast
qed

lemma emit_event_ok:
  assumes "event_ledger sha f recs" "rbind registry loads_str = Inr doc" "tool_target tool doc = Inr target"
  obtains e f' where "emit_event sha ts i ty tool payload allow why f registry = Inr (e, f')"
  using assms prev_hash_events [of f recs sha] by (simp add: emit_event_def event_ledger_def Let_def)

theorem mcp_ledger_always_verifies_witness:
  "\<exists>text. \<exists>recs r. read_raw (mo_ledger (cmd_refuse id ''now'' ''evt'' ''graph_status'' [] None [] (Inr text))) = Inr recs \<and> length recs = 1 \<and>
     verify_ledger id (GENESIS id) (mo_ledger (cmd_refuse id ''now'' ''evt'' ''graph_status'' [] None [] (Inr text))) = Inr r \<and> vr_ok r"
proof -
  obtain doc target where doc: "build_registry id = Inr doc" "jwf doc" "tool_target ''graph_status'' doc = Inr target"
    by (rule built_registry)
  have t: "rbind (Inr (dumps doc)) loads_str = Inr doc" using loads_str_dumps [OF doc(2)] by simp
  define out where "out = cmd_refuse id ''now'' ''evt'' ''graph_status'' [] None [] (Inr (dumps doc))"
  have "mo_ledger_written out"
    using emit_event_ok [OF event_ledger_empty t doc(3)] unfolding out_def cmd_refuse_def Let_def
    by (auto split: sum.splits) (metis sum.distinct(1))
  with mcp_reach.mcp_refuse [OF mcp_empty, of id "''now''" "''evt''" "''graph_status''" "[]" None "Inr (dumps doc)" out]
  have "mcp_reach id 1 (mo_ledger out)" by (simp add: out_def)
  from mcp_ledger_always_verifies [OF this] show ?thesis unfolding out_def by blast
qed




lemma verify_from_chain:
  "list_all is_event recs \<Longrightarrow> chain sha h recs \<Longrightarrow>
     \<exists>l'. verify_from sha n i h l (recs @ ys) = verify_from sha n (i + length recs) (chain_head sha h recs) l' ys"
proof (induction recs arbitrary: i h l)
  case (Cons rec recs)
  let ?h = "recompute_event_hash sha rec"
  from Cons obtain l' where "verify_from sha n (Suc i) ?h (Some ?h) (recs @ ys) =
      verify_from sha n (Suc i + length recs) (chain_head sha ?h recs) l' ys" by fastforce
  moreover have "chain_head sha ?h recs = chain_head sha h (rec # recs)" by (simp add: chain_head_def)
  ultimately show ?case using Cons.prems by (auto simp: event_record)
qed auto

lemma decision_prev:
  assumes "event_ledger sha f0 recs"
    and "rec = JObj ps" "jwf (JObj ps)" "dget ps ''receipt'' = Some (JStr s)" "dget ps ''hash'' = None"
    and "\<forall>h. verify_record sha h (jsort rec) = Inr (Inr (h, s))" "f = ledger_append rec f0"
  shows "complete_file f \<and> read_raw f = Inr (recs @ [jsort rec]) \<and> prev_hash sha f = Inr (JStr s)"
proof -
  have L: "complete_file f0" "read_raw f0 = Inr recs" "list_all is_event recs" "chain sha (GENESIS sha) recs"
    using assms(1) by (simp_all add: event_ledger_def)
  note A = read_append [OF L(1,2) assms(3), folded assms(2), folded assms(7)]
  obtain qs where qs: "jsort rec = JObj qs" "dget qs ''hash'' = None" "dget qs ''receipt'' = Some (JStr s)"
    using jsort_dget [of ps] assms(2-5) by auto
  have "\<exists>r. verify_records sha (GENESIS sha) (recs @ [jsort rec]) = Inr r \<and> vr_ok r"
    using verify_from_chain [OF L(3,4), of "Suc (length recs)" 0 None "[jsort rec]"] assms(6) by (auto simp: verify_records_def)
  then have "ledger_read_all sha f True = Inr (recs @ [jsort rec])"
    using A(1) by (auto simp: ledger_read_all_def read_verified_def verify_ledger_def)
  then have "prev_hash sha f = Inr (JStr s)" by (simp add: prev_hash_def qs dgetdef_def)
  with A show ?thesis by blast
qed

text \<open>
  C25: The two writers must not share a file. After the inclusion gate has appended a decision to a
  ledger of events, the next event takes the receipt of the decision as its previous hash, while the
  verifier expects the hash of the last event: the ledger no longer verifies, and no further event can
  be appended.
\<close>

theorem mixed_ledger_breaks:
  assumes "event_ledger sha f0 recs" "gate_inclusion sha msg run py now artifact sf st ref True f0 = Inr (d, rec, f)"
    and "vwf artifact" "vwf (VDict (d_authority d))" "jat ''receipt'' rec \<noteq> Inr (JStr (chain_head sha (GENESIS sha) recs))"
    and "emit_event sha ts i ty tool payload allow why f registry = Inr (e, f')"
  shows "(\<exists>r. verify_ledger sha (GENESIS sha) f' = Inr r \<and> \<not> vr_ok r \<and> vr_reason r = Some BrokenLink) \<and> prev_hash sha f' = Inl RuntimeError"
proof -
  let ?h = "chain_head sha (GENESIS sha) recs"
  have L: "complete_file f0" "read_raw f0 = Inr recs" "list_all is_event recs" "chain sha (GENESIS sha) recs"
    using assms(1) by (simp_all add: event_ledger_def)
  obtain ps s cs where ps: "rec = JObj ps" "jwf (JObj ps)" "dget ps ''receipt'' = Some (JStr s)" "dget ps ''hash'' = None"
    "\<forall>h. verify_record sha h (jsort rec) = Inr (Inr (h, s))" "f = ledger_append rec f0"
    "s = sha_of sha (JObj cs)"
    by (rule gate_appends_decision [OF assms(2-4)])
  have A: "complete_file f" "read_raw f = Inr (recs @ [jsort rec])" "prev_hash sha f = Inr (JStr s)"
    using decision_prev [OF assms(1) ps(1-6)] by blast+
  obtain es where e: "e = JObj es" "jwf (JObj es)" "f' = ledger_append e f" "links sha s (jsort e)" "is_event (jsort e)"
    by (rule emit_event_sealed [OF A(3) assms(6)])
  note B = read_append [OF A(1,2) e(2), folded e(1), folded e(3)]
  have "s \<noteq> ?h" using assms(5) ps(1,3) by simp
  then have "jat ''prev_hash'' (jsort e) \<noteq> Inr (JStr ?h)" using e(4) by (elim linksE) simp
  then have "verify_record sha ?h (jsort e) = Inr (Inl BrokenLink)"
    using event_record [OF e(5), of sha ?h] by (auto simp: links_def)
  then obtain r where r: "verify_ledger sha (GENESIS sha) f' = Inr r" "\<not> vr_ok r" "vr_reason r = Some BrokenLink"
    using verify_from_chain [OF L(3,4), of "Suc (Suc (length recs))" 0 None "[jsort rec, jsort e]"] ps(5) B(1)
    by (auto simp: verify_ledger_def verify_records_def broken_def)
  then have "prev_hash sha f' = Inl RuntimeError" by (simp add: prev_hash_def ledger_read_all_def read_verified_def)
  with r show ?thesis by blast
qed

lemma seal_not_genesis: "sha_of id (JObj cs) \<noteq> GENESIS id"
proof
  assume "sha_of id (JObj cs) = GENESIS id"
  then have "seal_text id (canonical (JObj cs)) = seal_text id genesis_text" by (simp add: sha_of_def GENESIS_def)
  then have "canonical (JObj cs) = genesis_text"
    by (rule no_collisionD [of id "{canonical (JObj cs), genesis_text}", rotated 3]) (simp_all add: no_collision_def inj_on_def)
  with canonical_obj [of cs] show False by (auto simp: genesis_text_def)
qed

theorem mixed_ledger_breaks_witness:
  "\<exists>d rec f text e f'. gate_inclusion id (\<lambda>m. []) (\<lambda>c. Finished 1 None []) ''authorize.py'' ''now'' (VDict []) None None AGENT_REF True [] = Inr (d, rec, f) \<and>
     emit_event id ''now'' ''evt'' ''MCP_CALL'' ''graph_status'' (JObj []) True ''ok'' f (Inr text) = Inr (e, f') \<and> prev_hash id f' = Inl RuntimeError"
proof -
  obtain doc target where doc: "build_registry id = Inr doc" "jwf doc" "tool_target ''graph_status'' doc = Inr target"
    by (rule built_registry)
  have t: "loads_str (dumps doc) = Inr doc" by (rule loads_str_dumps [OF doc(2)])
  obtain d rec f where g: "gate_inclusion id (\<lambda>m. []) (\<lambda>c. Finished 1 None []) ''authorize.py'' ''now''
     (VDict []) None None AGENT_REF True [] = Inr (d, rec, f)" "vwf (VDict (d_authority d))" using refused_artifact by blast
  have wf: "vwf (VDict [])" by simp
  obtain ps s cs where ps: "rec = JObj ps" "jwf (JObj ps)" "dget ps ''receipt'' = Some (JStr s)" "dget ps ''hash'' = None"
    "\<forall>h. verify_record id h (jsort rec) = Inr (Inr (h, s))" "f = ledger_append rec []" "s = sha_of id (JObj cs)"
    by (rule gate_appends_decision [OF g(1) wf g(2)])
  have "jat ''receipt'' rec \<noteq> Inr (JStr (chain_head id (GENESIS id) []))" using ps(1,3,7) seal_not_genesis by simp
  note broken = mixed_ledger_breaks [OF event_ledger_empty g(1) wf g(2) this]
  obtain prev where prev: "prev_hash id f = Inr prev" using decision_prev [OF event_ledger_empty ps(1-6)] by blast
  then obtain e f' where e: "emit_event id ''now'' ''evt'' ''MCP_CALL'' ''graph_status'' (JObj []) True ''ok'' f (Inr (dumps doc)) = Inr (e, f')"
    using t doc(3) by (simp add: emit_event_def Let_def)
  with broken [OF e] g(1) show ?thesis by blast
qed

end
