(* ===== verification/Response_Policy.thy ===== *)
theory Response_Policy
  imports Durable_Queue Json_Canonical
begin

text \<open>
  \<open>automation/policy.py\<close>, \<open>automation/suppression.py\<close> and \<open>automation/learning.py\<close>: the declared policy
  of the responder, the suppression of conditions already decided, and the recommendations drawn from
  the receipts. Parsed files are arguments: a missing file is \<open>None\<close>, or the exception of reading it.
  The keys of a declared mapping are strings. Clock readings are exact rationals. The wording and the
  rounded figures of a recommendation are not represented.
\<close>

section \<open>The policy\<close>

definition VERDICTS :: "string list" where
  "VERDICTS = [''refuse'', ''quarantine'', ''weak'', ''probable'', ''sealed'']"

definition ACTIONS :: "string list" where
  "ACTIONS = [''auto_fix'', ''canary_fix'', ''propose_pr'', ''quarantine'', ''block'', ''escalate_human'']"

record ResponsePolicy =
  law_by_kind :: "(string, pyval) dict"
  verdict_action :: "(string, pyval) dict"
  default_law :: pyval
  iri_block :: pyfloat
  boundary_axes :: "pyval list"
  suppression_cooldown_seconds :: pyfloat

text \<open>\<open>mapping.get(key, default)\<close> for a key of any type; an unhashable key raises.\<close>

definition get_by_value :: "(string, pyval) dict \<Rightarrow> pyval \<Rightarrow> pyval \<Rightarrow> pyval result" where
  "get_by_value d k dflt =
     (case k of
        VStr s \<Rightarrow> Inr (dgetdef d s dflt)
      | _ \<Rightarrow> if v_hashable k then Inr dflt else Inl TypeError)"

definition law_for :: "ResponsePolicy \<Rightarrow> pyval \<Rightarrow> pyval result" where
  "law_for p kind = get_by_value (law_by_kind p) kind (default_law p)"

definition action_for :: "ResponsePolicy \<Rightarrow> string \<Rightarrow> pyval" where
  "action_for p verdict = dgetdef (verdict_action p) verdict (VStr ''escalate_human'')"

definition as_dict :: "ResponsePolicy \<Rightarrow> (string, pyval) dict" where
  "as_dict p =
     [(''law_by_kind'', VDict (law_by_kind p)), (''verdict_action'', VDict (verdict_action p)), (''default_law'', default_law p),
      (''iri_block'', VFloat (iri_block p)), (''boundary_axes'', VList (boundary_axes p)),
      (''suppression_cooldown_seconds'', VFloat (suppression_cooldown_seconds p))]"

definition DEFAULT_POLICY :: ResponsePolicy where
  "DEFAULT_POLICY =
     \<lparr>law_by_kind =
        [(''mirror_drift'', VStr ''sealed''), (''vendored_graph_drift'', VStr ''sealed''), (''build_failure'', VStr ''probable''),
         (''stale_vendor'', VStr ''weak''), (''deploy_regression'', VStr ''weak''), (''workspace_lock_drift'', VStr ''weak''),
         (''policy_violation'', VStr ''quarantine''), (''unknown'', VStr ''refuse'')],
      verdict_action =
        [(''sealed'', VStr ''auto_fix''), (''probable'', VStr ''canary_fix''), (''weak'', VStr ''propose_pr''),
         (''quarantine'', VStr ''quarantine''), (''refuse'', VStr ''block'')],
      default_law = VStr ''refuse'', iri_block = Fin (55 / 100),
      boundary_axes = map VStr [''legality'', ''containment'', ''provenance'', ''privacy'', ''performance'', ''reproducibility'',
                                ''licensing'', ''governance''],
      suppression_cooldown_seconds = Fin 3600\<rparr>"

definition is_verdict :: "pyval \<Rightarrow> bool" where
  "is_verdict v \<longleftrightarrow> v \<in> VStr ` set VERDICTS"

definition is_action :: "pyval \<Rightarrow> bool" where
  "is_action v \<longleftrightarrow> v \<in> VStr ` set ACTIONS"

definition validate_policy :: "ResponsePolicy \<Rightarrow> unit result" where
  "validate_policy p =
     (if \<not> list_all (\<lambda>(kind, law). is_verdict law) (law_by_kind p) then Inl ValueError
      else if \<not> is_verdict (default_law p) then Inl ValueError
      else if \<not> list_all (\<lambda>(verdict, action). verdict \<in> set VERDICTS \<and> is_action action) (verdict_action p) then Inl ValueError
      else if \<not> (flt_le (Fin 0) (iri_block p) \<and> flt_le (iri_block p) (Fin 1)) then Inl ValueError
      else if boundary_axes p = [] then Inl ValueError
      else if flt_less (suppression_cooldown_seconds p) (Fin 0) then Inl ValueError
      else Inr ())"

text \<open>\<open>{**d, **e}\<close> and \<open>data.get(k) or {}\<close> spread into a dict.\<close>

definition dmerge :: "('k, 'v) dict \<Rightarrow> ('k, 'v) dict \<Rightarrow> ('k, 'v) dict" where
  "dmerge d e = fold (\<lambda>(k, v) m. dset m k v) e d"

definition spread :: "pyval \<Rightarrow> (string, pyval) dict result" where
  "spread v = (if truthy v then (case v of VDict d \<Rightarrow> Inr d | _ \<Rightarrow> Inl TypeError) else Inr [])"

definition policy_from_mapping :: "(string, pyval) dict \<Rightarrow> ResponsePolicy result" where
  "policy_from_mapping data =
     rbind (spread (dgetdef data ''law_by_kind'' VNone)) (\<lambda>laws.
     rbind (spread (dgetdef data ''verdict_action'' VNone)) (\<lambda>acts.
     rbind (v_float (dgetdef data ''iri_block'' (VFloat (iri_block DEFAULT_POLICY)))) (\<lambda>iri.
     rbind (let axes = dgetdef data ''boundary_axes'' VNone in if truthy axes then v_iter axes else Inr (boundary_axes DEFAULT_POLICY)) (\<lambda>axes.
     rbind (v_float (dgetdef data ''suppression_cooldown_seconds'' (VFloat (suppression_cooldown_seconds DEFAULT_POLICY)))) (\<lambda>cooldown.
     let merged = \<lparr>law_by_kind = dmerge (law_by_kind DEFAULT_POLICY) laws, verdict_action = dmerge (verdict_action DEFAULT_POLICY) acts,
                   default_law = dgetdef data ''default_law'' (default_law DEFAULT_POLICY), iri_block = iri, boundary_axes = axes,
                   suppression_cooldown_seconds = cooldown\<rparr> in
     rbind (validate_policy merged) (\<lambda>_. Inr merged))))))"

text \<open>
  \<open>read path\<close> is what parsing the file at \<open>path\<close> gives, \<open>None\<close> if there is no such file; \<open>env\<close> is the
  environment variable.
\<close>

definition load_policy ::
    "string option \<Rightarrow> string option \<Rightarrow> bool \<Rightarrow> string \<Rightarrow> (string \<Rightarrow> pyval result option) \<Rightarrow> ResponsePolicy result" where
  "load_policy path env use_default_file default_file read =
     (let src = (case path of
                   Some p \<Rightarrow> Some p
                 | None \<Rightarrow> (case env of
                              Some (c # s) \<Rightarrow> Some (c # s)
                            | _ \<Rightarrow> if use_default_file \<and> read default_file \<noteq> None then Some default_file else None)) in
      case Option.bind src read of
        None \<Rightarrow> Inr DEFAULT_POLICY
      | Some parsed \<Rightarrow> rbind parsed (\<lambda>v.
          let data = v_or v (VDict []) in
          case data of VDict d \<Rightarrow> policy_from_mapping d | _ \<Rightarrow> Inl ValueError))"

section \<open>Suppression\<close>

definition fingerprint :: "pyval \<Rightarrow> string result" where
  "fingerprint beacon =
     rbind (rbind (vget beacon ''kind_class'' (VStr ''unknown'')) v_text) (\<lambda>kind.
     rbind (rbind (vget beacon ''system'' (VStr [])) v_text) (\<lambda>system.
       Inr (kind @ ''::'' @ system)))"

definition sup_load :: "pyval result \<Rightarrow> (string, pyval) dict result" where
  "sup_load file =
     (case file of
        Inr (VDict d) \<Rightarrow> Inr d
      | Inr _ \<Rightarrow> Inr []
      | Inl e \<Rightarrow> if e = FileNotFound \<or> e = ValueError then Inr [] else Inl e)"

definition sup_save :: "(string, pyval) dict \<Rightarrow> pyval result" where
  "sup_save data = Inr (VDict (sort_key fst data))"

definition should_process :: "pyval result \<Rightarrow> string \<Rightarrow> pyfloat \<Rightarrow> rat \<Rightarrow> (bool \<times> pyval result) result" where
  "should_process file fp cooldown_seconds now =
     (if flt_le cooldown_seconds (Fin 0) then Inr (True, file)
      else rbind (sup_load file) (\<lambda>data.
        let recent = (case Option.bind (dget data fp) num_of of
                        Some t \<Rightarrow> flt_less (flt_sub (Fin now) t) cooldown_seconds
                      | None \<Rightarrow> False) in
        if recent then Inr (False, file)
        else Inr (True, sup_save (dset data fp (VFloat (Fin now))))))"

text \<open>A run over a sequence of conditions and clock readings.\<close>

fun sup_run :: "pyfloat \<Rightarrow> pyval result \<Rightarrow> (string \<times> rat) list \<Rightarrow> (bool list \<times> pyval result) result" where
  "sup_run c file [] = Inr ([], file)"
| "sup_run c file ((fp, now) # reqs) =
     rbind (should_process file fp c now) (\<lambda>(b, file1).
     rbind (sup_run c file1 reqs) (\<lambda>(bs, file2). Inr (b # bs, file2)))"

section \<open>Learning\<close>

definition demote :: "pyval \<Rightarrow> string option" where
  "demote law =
     (case law of
        VStr s \<Rightarrow>
          (case List.find (\<lambda>i. VERDICTS ! i = s) [0..<length VERDICTS] of
             None \<Rightarrow> None
           | Some i \<Rightarrow> if 0 < i then Some (VERDICTS ! (i - 1)) else None)
      | _ \<Rightarrow> None)"

definition resolved_outcome :: "pyval \<Rightarrow> bool result" where
  "resolved_outcome ex =
     rbind (vget ex ''healed'' VNone) (\<lambda>h. if truthy h then Inr True
       else rbind (vget ex ''proposed'' VNone) (\<lambda>p. if truthy p then Inr True
       else rbind (vget ex ''quarantined'' VNone) (\<lambda>q. Inr (truthy q))))"

definition count_outcome :: "pyval \<Rightarrow> (string, nat \<times> nat) dict \<Rightarrow> (string, nat \<times> nat) dict result" where
  "count_outcome r stats =
     rbind (vget r ''execution'' VNone) (\<lambda>ex.
     if \<not> truthy ex then Inr stats
     else rbind (rbind (vget r ''beacon_kind'' (VStr ''unknown'')) v_text) (\<lambda>kind.
       let (attempts, failures) = dgetdef stats kind (0, 0) in
       rbind (resolved_outcome ex) (\<lambda>ok.
         Inr (dset stats kind (attempts + 1, if ok then failures else failures + 1)))))"

definition outcomes_by_kind :: "pyval list \<Rightarrow> (string, nat \<times> nat) dict result" where
  "outcomes_by_kind decisions = rfold count_outcome decisions []"

record Recommendation =
  rec_kind_class :: string
  rec_current_law :: pyval
  rec_recommended_law :: string
  rec_attempts :: nat
  rec_failures :: nat

definition recommend :: "ResponsePolicy \<Rightarrow> int \<Rightarrow> rat \<Rightarrow> string \<times> nat \<times> nat \<Rightarrow> Recommendation list \<Rightarrow> Recommendation list result" where
  "recommend p min_samples failure_threshold = (\<lambda>(kind, attempts, failures) recs.
     if int attempts < min_samples then Inr recs
     else let rate = of_nat failures / of_nat attempts in
       if rate < failure_threshold then Inr recs
       else rbind (law_for p (VStr kind)) (\<lambda>current.
         case demote current of
           None \<Rightarrow> Inr recs
         | Some recommended \<Rightarrow>
             if VStr recommended = current then Inr recs
             else Inr (recs @ [\<lparr>rec_kind_class = kind, rec_current_law = current, rec_recommended_law = recommended,
                                rec_attempts = attempts, rec_failures = failures\<rparr>])))"

definition analyze :: "ResponsePolicy \<Rightarrow> int \<Rightarrow> rat \<Rightarrow> dq \<Rightarrow> Recommendation list result" where
  "analyze p min_samples failure_threshold decisions =
     rbind (peek_all decisions) (\<lambda>rs.
     rbind (outcomes_by_kind rs) (\<lambda>stats.
       rfold (recommend p min_samples failure_threshold) (sort_key fst stats) []))"

text \<open>
  \<open>run_once\<close> records what it recommends: \<open>render\<close> is the entry written for a recommendation and \<open>ids\<close> the
  clock reading and random part of each item id.
\<close>

definition learn_run_once ::
    "ResponsePolicy \<Rightarrow> int \<Rightarrow> rat \<Rightarrow> (Recommendation \<Rightarrow> pyval) \<Rightarrow> (nat \<times> string) list \<Rightarrow> dq \<Rightarrow> dq \<Rightarrow> (Recommendation list \<times> dq) result" where
  "learn_run_once p min_samples failure_threshold render ids decisions sink =
     rbind (analyze p min_samples failure_threshold decisions) (\<lambda>recs.
       Inr (recs, fold (\<lambda>(i, r) s. snd (dq_put (fst i) (snd i) s (render r))) (zip ids recs) sink))"

section \<open>Merging\<close>

lemma dkeys_dset_eq: "dkeys (dset d k v) = (if k \<in> set (dkeys d) then dkeys d else dkeys d @ [k])"
  by (induction d k v rule: dset.induct) (auto simp: dkeys_def)

lemma dict_eqI: "dkeys a = dkeys b \<Longrightarrow> dwf a \<Longrightarrow> (\<And>k. dget a k = dget b k) \<Longrightarrow> a = b"
proof (induction a arbitrary: b)
  case (Cons p a)
  obtain k v where p: "p = (k, v)" by (cases p)
  obtain w b' where b: "b = (k, w) # b'" using Cons.prems(1) p by (cases b) (auto simp: dkeys_def)
  have "v = w" using Cons.prems(3) [of k] p b by simp
  have keys: "dkeys a = dkeys b'" using Cons.prems(1) p b by (simp add: dkeys_def)
  have "dget a x = dget b' x" for x
  proof (cases "x = k")
    case True
    have "k \<notin> set (dkeys a)" using Cons.prems(2) p by (simp add: dwf_def dkeys_def)
    with keys True show ?thesis using dget_None_iff [of a k] dget_None_iff [of b' k] by simp
  qed (use Cons.prems(3) [of x] p b in simp)
  moreover have "dwf a" using Cons.prems(2) by (simp add: dwf_def)
  ultimately have "a = b'" using Cons.IH [OF keys] by blast
  with \<open>v = w\<close> p b show ?case by simp
qed (simp add: dkeys_def)

lemma dmerge_simps: "dmerge d [] = d" "dmerge d ((k, v) # e) = dmerge (dset d k v) e"
  by (simp_all add: dmerge_def)

lemma dwf_dmerge: "dwf d \<Longrightarrow> dwf (dmerge d e)"
  by (induction e arbitrary: d) (auto simp: dmerge_simps)

lemma dget_dmerge: "dwf e \<Longrightarrow> dget (dmerge d e) k = (case dget e k of Some v \<Rightarrow> Some v | None \<Rightarrow> dget d k)"
proof (induction e arbitrary: d)
  case (Cons p e)
  obtain a b where p: "p = (a, b)" by (cases p)
  have "a \<notin> set (dkeys e)" "dwf e" using Cons.prems p by (auto simp: dwf_def dkeys_def)
  then have "dget e a = None" by (simp add: dget_None_iff)
  with Cons.IH [OF \<open>dwf e\<close>] p show ?case by (auto simp: dmerge_simps split: option.splits)
qed (simp add: dmerge_simps)

lemma dkeys_dmerge: "dwf e \<Longrightarrow> dkeys (dmerge d e) = dkeys d @ filter (\<lambda>k. k \<notin> set (dkeys d)) (dkeys e)"
proof (induction e arbitrary: d)
  case (Cons p e)
  obtain a b where p: "p = (a, b)" by (cases p)
  have "a \<notin> set (dkeys e)" "dwf e" using Cons.prems p by (auto simp: dwf_def dkeys_def)
  moreover have "dkeys ((a, b) # e) = a # dkeys e" by (simp add: dkeys_def)
  moreover have "filter (\<lambda>k. k \<notin> set (dkeys d) \<and> k \<noteq> a) (dkeys e) = filter (\<lambda>k. k \<notin> set (dkeys d)) (dkeys e)"
    using \<open>a \<notin> set (dkeys e)\<close> by (intro filter_cong) auto
  ultimately show ?case using Cons.IH [OF \<open>dwf e\<close>, of "dset d a b"] p by (auto simp: dmerge_simps dkeys_dset_eq intro!: filter_cong)
qed (simp add: dmerge_simps dkeys_def)

lemma dmerge_idem: "dwf d \<Longrightarrow> dwf e \<Longrightarrow> dmerge d (dmerge d e) = dmerge d e"
proof (rule dict_eqI)
  assume wf: "dwf d" "dwf e"
  note m = dwf_dmerge [OF wf(1), of e]
  show "dkeys (dmerge d (dmerge d e)) = dkeys (dmerge d e)" using wf by (simp add: dkeys_dmerge [OF m] dkeys_dmerge)
  show "dwf (dmerge d (dmerge d e))" by (rule dwf_dmerge [OF wf(1)])
  show "dget (dmerge d (dmerge d e)) k = dget (dmerge d e) k" for k
    using wf by (simp add: dget_dmerge [OF m] dget_dmerge split: option.splits)
qed

section \<open>Properties\<close>

lemma validated:
  assumes "validate_policy p = Inr u"
  shows "\<exists>s \<in> set VERDICTS. law_for p (VStr k) = Inr (VStr s)" "is_action (action_for p v)"
    "\<exists>q. iri_block p = Fin q \<and> 0 \<le> q \<and> q \<le> 1" "boundary_axes p \<noteq> []"
proof -
  have v: "list_all (\<lambda>(kind, law). is_verdict law) (law_by_kind p)" "is_verdict (default_law p)"
    "list_all (\<lambda>(verdict, action). verdict \<in> set VERDICTS \<and> is_action action) (verdict_action p)"
    "flt_le (Fin 0) (iri_block p)" "flt_le (iri_block p) (Fin 1)" "boundary_axes p \<noteq> []"
    using assms by (auto simp: validate_policy_def split: if_splits)
  have "is_verdict (dgetdef (law_by_kind p) k (default_law p))"
    using v(1,2) by (auto simp: dgetdef_def list_all_iff split: option.splits dest!: dget_Some_in)
  then show "\<exists>s \<in> set VERDICTS. law_for p (VStr k) = Inr (VStr s)" by (auto simp: law_for_def get_by_value_def is_verdict_def)
  have "is_action (VStr ''escalate_human'')" by (simp add: is_action_def ACTIONS_def)
  then show "is_action (action_for p v)"
    using v(3) by (auto simp: action_for_def dgetdef_def list_all_iff split: option.splits dest!: dget_Some_in)
  show "\<exists>q. iri_block p = Fin q \<and> 0 \<le> q \<and> q \<le> 1"
    using v(4,5) by (cases "iri_block p") (auto simp: flt_le_def)
qed (use assms in \<open>auto simp: validate_policy_def split: if_splits\<close>)

lemma default_policy_valid: "validate_policy DEFAULT_POLICY = Inr ()"
  by (simp add: validate_policy_def DEFAULT_POLICY_def is_verdict_def is_action_def VERDICTS_def ACTIONS_def flt_le_def)

lemma mapping_parts:
  assumes "policy_from_mapping data = Inr p"
  obtains laws acts iri axes cooldown where "spread (dgetdef data ''law_by_kind'' VNone) = Inr laws"
    "spread (dgetdef data ''verdict_action'' VNone) = Inr acts"
    "p = \<lparr>law_by_kind = dmerge (law_by_kind DEFAULT_POLICY) laws, verdict_action = dmerge (verdict_action DEFAULT_POLICY) acts,
          default_law = dgetdef data ''default_law'' (default_law DEFAULT_POLICY), iri_block = iri, boundary_axes = axes,
          suppression_cooldown_seconds = cooldown\<rparr>"
    "validate_policy p = Inr ()"
proof -
  obtain laws acts iri axes cooldown where p: "spread (dgetdef data ''law_by_kind'' VNone) = Inr laws"
    "spread (dgetdef data ''verdict_action'' VNone) = Inr acts"
    "(let merged = \<lparr>law_by_kind = dmerge (law_by_kind DEFAULT_POLICY) laws, verdict_action = dmerge (verdict_action DEFAULT_POLICY) acts,
          default_law = dgetdef data ''default_law'' (default_law DEFAULT_POLICY), iri_block = iri, boundary_axes = axes,
          suppression_cooldown_seconds = cooldown\<rparr> in rbind (validate_policy merged) (\<lambda>_. Inr merged)) = Inr p"
    using assms unfolding policy_from_mapping_def by (elim rbindE) (rule that)
  define merged where "merged = \<lparr>law_by_kind = dmerge (law_by_kind DEFAULT_POLICY) laws, verdict_action = dmerge (verdict_action DEFAULT_POLICY) acts,
          default_law = dgetdef data ''default_law'' (default_law DEFAULT_POLICY), iri_block = iri, boundary_axes = axes,
          suppression_cooldown_seconds = cooldown\<rparr>"
  have "rbind (validate_policy merged) (\<lambda>_. Inr merged) = Inr p" using p(3) unfolding merged_def Let_def .
  then have "p = merged" "validate_policy p = Inr ()" by (cases "validate_policy merged"; simp)+
  with that [OF p(1,2)] show thesis unfolding merged_def by blast
qed

lemma mapping_valid: "policy_from_mapping d = Inr p \<Longrightarrow> validate_policy p = Inr ()"
  by (erule mapping_parts)

lemma loaded_valid:
  assumes "load_policy path env dflt file read = Inr p" shows "validate_policy p = Inr ()"
proof -
  obtain src where src: "(case Option.bind src read of
        None \<Rightarrow> Inr DEFAULT_POLICY
      | Some parsed \<Rightarrow> rbind parsed (\<lambda>v. case v_or v (VDict []) of VDict d \<Rightarrow> policy_from_mapping d | _ \<Rightarrow> Inl ValueError)) = Inr p"
    using assms unfolding load_policy_def Let_def by blast
  show ?thesis
  proof (cases "Option.bind src read")
    case None
    with src default_policy_valid show ?thesis by simp
  next
    case (Some parsed)
    with src obtain v where "(case v_or v (VDict []) of VDict d \<Rightarrow> policy_from_mapping d | _ \<Rightarrow> Inl ValueError) = Inr p" by (auto elim: rbindE)
    with mapping_valid show ?thesis by (cases "v_or v (VDict [])") auto
  qed
qed

text \<open>
  C29: A loaded policy is well typed. Whatever the environment and the declared file, a policy that loads
  gives every failure class a verdict of the lattice as its law and every verdict a known action, has
  an identity-risk threshold in the unit interval (never a NaN), and has at least one boundary axis.
\<close>

theorem loaded_policy_typed:
  assumes "load_policy path env use_default file read = Inr p"
  shows "(\<exists>s. s \<in> set VERDICTS \<and> law_for p (VStr kind) = Inr (VStr s)) \<and> (\<exists>a. a \<in> set ACTIONS \<and> action_for p verdict = VStr a) \<and>
    (\<exists>q. iri_block p = Fin q \<and> 0 \<le> q \<and> q \<le> 1) \<and> boundary_axes p \<noteq> []"
proof -
  note v = validated [OF loaded_valid [OF assms]]
  show ?thesis using v(1) [of kind] v(2) [of verdict] v(3,4) by (auto simp: is_action_def)
qed

theorem loaded_policy_typed_witness:
  "load_policy None None True ''policy.yaml'' (\<lambda>f. Some (Inr (VDict [(''law_by_kind'', VDict [(''mirror_drift'', VStr ''weak'')])]))) =
     Inr (DEFAULT_POLICY\<lparr>law_by_kind := dset (law_by_kind DEFAULT_POLICY) ''mirror_drift'' (VStr ''weak'')\<rparr>) \<and>
   (\<exists>s. s \<in> set VERDICTS \<and> law_for (DEFAULT_POLICY\<lparr>law_by_kind := dset (law_by_kind DEFAULT_POLICY) ''mirror_drift'' (VStr ''weak'')\<rparr>) (VStr ''x'') = Inr (VStr s))"
proof -
  have l: "load_policy None None True ''policy.yaml'' (\<lambda>f. Some (Inr (VDict [(''law_by_kind'', VDict [(''mirror_drift'', VStr ''weak'')])]))) =
     Inr (DEFAULT_POLICY\<lparr>law_by_kind := dset (law_by_kind DEFAULT_POLICY) ''mirror_drift'' (VStr ''weak'')\<rparr>)"
    by (simp add: load_policy_def policy_from_mapping_def spread_def dgetdef_def v_or_def dmerge_def validate_policy_def DEFAULT_POLICY_def
        is_verdict_def is_action_def VERDICTS_def ACTIONS_def flt_le_def)
  from loaded_policy_typed [OF l, of "''x''"] l show ?thesis by blast
qed

text \<open>
  Declaring a policy in full gives that policy back: the mapping of a policy that was merged and
  validated, merged over the default again, is the same policy.
\<close>

theorem policy_round_trip:
  assumes "policy_from_mapping data = Inr p" "vwf (VDict data)"
  shows "policy_from_mapping (as_dict p) = Inr p"
proof -
  obtain laws acts iri axes cooldown where p: "spread (dgetdef data ''law_by_kind'' VNone) = Inr laws"
    "spread (dgetdef data ''verdict_action'' VNone) = Inr acts"
    "p = \<lparr>law_by_kind = dmerge (law_by_kind DEFAULT_POLICY) laws, verdict_action = dmerge (verdict_action DEFAULT_POLICY) acts,
          default_law = dgetdef data ''default_law'' (default_law DEFAULT_POLICY), iri_block = iri, boundary_axes = axes,
          suppression_cooldown_seconds = cooldown\<rparr>"
    by (rule mapping_parts [OF assms(1)])
  have "dwf l" if "spread (dgetdef data k VNone) = Inr l" for k l
    using that vwf_get [OF assms(2), of VNone k] by (auto simp: spread_def split: if_splits pyval.splits)
  then have wf: "dwf laws" "dwf acts" using p by blast+
  have d: "dwf (law_by_kind DEFAULT_POLICY)" "dwf (verdict_action DEFAULT_POLICY)" by (simp_all add: DEFAULT_POLICY_def dwf_def)
  have m: "dmerge (law_by_kind DEFAULT_POLICY) (law_by_kind p) = law_by_kind p" "dmerge (verdict_action DEFAULT_POLICY) (verdict_action p) = verdict_action p"
    using dmerge_idem [OF d(1) wf(1)] dmerge_idem [OF d(2) wf(2)] p(3) by simp_all
  have "validate_policy p = Inr ()" by (rule mapping_valid [OF assms(1)])
  moreover from this have "boundary_axes p \<noteq> []" by (rule validated)
  moreover have "spread (VDict l) = Inr l" for l by (simp add: spread_def)
  moreover have whole: "\<lparr>law_by_kind = law_by_kind p, verdict_action = verdict_action p, default_law = default_law p, iri_block = iri_block p,
      boundary_axes = boundary_axes p, suppression_cooldown_seconds = suppression_cooldown_seconds p\<rparr> = p" by simp
  ultimately show ?thesis
    by (simp add: policy_from_mapping_def as_dict_def dgetdef_def m Let_def whole)
qed

theorem policy_round_trip_witness:
  "policy_from_mapping (as_dict DEFAULT_POLICY) = Inr DEFAULT_POLICY"
proof -
  have whole: "\<lparr>law_by_kind = law_by_kind DEFAULT_POLICY, verdict_action = verdict_action DEFAULT_POLICY, default_law = default_law DEFAULT_POLICY,
      iri_block = iri_block DEFAULT_POLICY, boundary_axes = boundary_axes DEFAULT_POLICY,
      suppression_cooldown_seconds = suppression_cooldown_seconds DEFAULT_POLICY\<rparr> = DEFAULT_POLICY" by simp
  have "policy_from_mapping [] = Inr DEFAULT_POLICY" "vwf (VDict [])"
    using default_policy_valid by (simp_all add: policy_from_mapping_def spread_def dgetdef_def dmerge_def Let_def whole)
  from policy_round_trip [OF this] show ?thesis .
qed

subsection \<open>Suppression\<close>

text \<open>
  What the suppressor promises: a map from conditions to the time each was last decided. The
  abstraction of a state file reads that map from it.
\<close>

type_synonym decided = "string \<Rightarrow> pyfloat option"

definition last_decided :: "pyval result \<Rightarrow> decided" where
  "last_decided file fp = (case sup_load file of Inr d \<Rightarrow> Option.bind (dget d fp) num_of | Inl e \<Rightarrow> None)"

definition spec_process :: "pyfloat \<Rightarrow> decided \<Rightarrow> string \<Rightarrow> rat \<Rightarrow> bool \<times> decided" where
  "spec_process c m fp now =
     (if (case m fp of None \<Rightarrow> False | Some t \<Rightarrow> flt_less (flt_sub (Fin now) t) c) then (False, m) else (True, m(fp \<mapsto> Fin now)))"

fun spec_run :: "pyfloat \<Rightarrow> decided \<Rightarrow> (string \<times> rat) list \<Rightarrow> bool list \<times> decided" where
  "spec_run c m [] = ([], m)"
| "spec_run c m ((fp, now) # reqs) = (let (b, m1) = spec_process c m fp now; (bs, m2) = spec_run c m1 reqs in (b # bs, m2))"

lemma dwf_sorted: "dwf d \<Longrightarrow> dwf (sort_key fst d)"
  unfolding dwf_def by (metis mset_eq_imp_distinct_iff mset_map mset_sort)

lemma saved_state: "dwf d \<Longrightarrow> last_decided (sup_save (dset d fp (VFloat (Fin now)))) = (last_decided (Inr (VDict d)))(fp \<mapsto> Fin now)"
  using dget_sort [of "dset d fp (VFloat (Fin now))"] dwf_dset [of d fp "VFloat (Fin now)"]
  by (auto simp: last_decided_def sup_save_def sup_load_def dwf_def fun_eq_iff)

lemma should_process_refines:
  assumes "\<not> flt_le c (Fin 0)" "sup_load file = Inr d" "dwf d"
  obtains b file1 d1 where "should_process file fp c now = Inr (b, file1)" "spec_process c (last_decided file) fp now = (b, last_decided file1)"
    "sup_load file1 = Inr d1" "dwf d1"
proof -
  have same: "last_decided file = last_decided (Inr (VDict d))" using assms(2) by (simp add: last_decided_def sup_load_def fun_eq_iff)
  show thesis
  proof (cases "case Option.bind (dget d fp) num_of of Some t \<Rightarrow> flt_less (flt_sub (Fin now) t) c | None \<Rightarrow> False")
    case True
    then show thesis
      using assms by (intro that [of False "file" d]) (auto simp: should_process_def spec_process_def last_decided_def split: option.splits)
  next
    case False
    let ?f = "sup_save (dset d fp (VFloat (Fin now)))"
    have "should_process file fp c now = Inr (True, ?f)" using assms(1,2) False by (simp add: should_process_def Let_def)
    moreover have "spec_process c (last_decided file) fp now = (True, last_decided ?f)"
      using False assms(2) by (auto simp: spec_process_def saved_state [OF assms(3)] same [symmetric] last_decided_def split: option.splits)
    moreover have "sup_load ?f = Inr (sort_key fst (dset d fp (VFloat (Fin now))))" by (simp add: sup_load_def sup_save_def)
    moreover have "dwf (sort_key fst (dset d fp (VFloat (Fin now))))" by (intro dwf_sorted dwf_dset assms(3))
    ultimately show thesis by (rule that)
  qed
qed

lemma sup_run_refines:
  "\<not> flt_le c (Fin 0) \<Longrightarrow> sup_load file = Inr d \<Longrightarrow> dwf d \<Longrightarrow>
     \<exists>bs file'. sup_run c file reqs = Inr (bs, file') \<and> spec_run c (last_decided file) reqs = (bs, last_decided file')"
proof (induction reqs arbitrary: "file" d)
  case (Cons r reqs)
  obtain fp now where r: "r = (fp, now)" by (cases r)
  obtain b file1 d1 where s: "should_process file fp c now = Inr (b, file1)" "spec_process c (last_decided file) fp now = (b, last_decided file1)"
    "sup_load file1 = Inr d1" "dwf d1"
    using should_process_refines [OF Cons.prems] .
  from Cons.IH [OF Cons.prems(1) s(3,4)] s(1,2) r show ?case by auto
qed simp

text \<open>
  C30: The suppressor implements its specification. From any readable state file, with a positive
  cooldown, it decides every sequence of conditions exactly as the map of last decision times does, and
  the file it leaves represents that map.
\<close>

theorem suppressor_refines_map:
  assumes "\<not> flt_le c (Fin 0)" "sup_load file = Inr d" "dwf d"
  shows "\<exists>bs file'. sup_run c file reqs = Inr (bs, file') \<and> spec_run c (last_decided file) reqs = (bs, last_decided file')"
  by (rule sup_run_refines [OF assms])

theorem suppressor_refines_map_witness:
  "\<exists>bs file'. sup_run (Fin 60) (Inl FileNotFound) [(''a'', 0), (''a'', 30), (''a'', 70)] = Inr (bs, file') \<and>
     spec_run (Fin 60) (last_decided (Inl FileNotFound)) [(''a'', 0), (''a'', 30), (''a'', 70)] = (bs, last_decided file')"
  by (rule suppressor_refines_map [of _ _ "[]"]) (simp_all add: sup_load_def)

lemma spec_run_snoc:
  "spec_run c m (reqs @ [(fp, now)]) = (let (bs, m1) = spec_run c m reqs; (b, m2) = spec_process c m1 fp now in (bs @ [b], m2))"
  by (induction c m reqs rule: spec_run.induct) (auto split: prod.splits)

lemma spec_run_state:
  assumes "spec_run c Map.empty reqs = (bs, m)" "sorted (map snd reqs)"
  shows "length bs = length reqs \<and>
    (\<forall>fp. case m fp of
        None \<Rightarrow> \<forall>i < length reqs. bs ! i \<longrightarrow> fst (reqs ! i) \<noteq> fp
      | Some t \<Rightarrow> \<exists>i < length reqs. bs ! i \<and> fst (reqs ! i) = fp \<and> t = Fin (snd (reqs ! i)) \<and>
                    (\<forall>k < length reqs. bs ! k \<and> fst (reqs ! k) = fp \<longrightarrow> snd (reqs ! k) \<le> snd (reqs ! i)))"
  using assms
proof (induction reqs arbitrary: bs m rule: rev_induct)
  case (snoc r reqs)
  obtain fp now where r: "r = (fp, now)" by (cases r)
  obtain bs1 m1 where one: "spec_run c Map.empty reqs = (bs1, m1)" by fastforce
  obtain b m2 where two: "spec_process c m1 fp now = (b, m2)" by fastforce
  have e: "bs = bs1 @ [b]" "m = m2" using snoc.prems(1) r one two by (simp_all add: spec_run_snoc)
  have late: "snd (reqs ! k) \<le> now" if "k < length reqs" for k
    using snoc.prems(2) r that by (auto simp: sorted_append)
  have "length bs1 = length reqs" using snoc.IH [OF one] snoc.prems(2) by (simp add: sorted_append)
  have old: "case m1 f of
        None \<Rightarrow> \<forall>i < length reqs. bs1 ! i \<longrightarrow> fst (reqs ! i) \<noteq> f
      | Some t \<Rightarrow> \<exists>i < length reqs. bs1 ! i \<and> fst (reqs ! i) = f \<and> t = Fin (snd (reqs ! i)) \<and>
                    (\<forall>k < length reqs. bs1 ! k \<and> fst (reqs ! k) = f \<longrightarrow> snd (reqs ! k) \<le> snd (reqs ! i))" for f
    using snoc.IH [OF one] snoc.prems(2) by (simp add: sorted_append)
  let ?n = "length reqs"
  have "case m2 f of
        None \<Rightarrow> \<forall>i < Suc ?n. (bs1 @ [b]) ! i \<longrightarrow> fst ((reqs @ [r]) ! i) \<noteq> f
      | Some t \<Rightarrow> \<exists>i < Suc ?n. (bs1 @ [b]) ! i \<and> fst ((reqs @ [r]) ! i) = f \<and> t = Fin (snd ((reqs @ [r]) ! i)) \<and>
                    (\<forall>k < Suc ?n. (bs1 @ [b]) ! k \<and> fst ((reqs @ [r]) ! k) = f \<longrightarrow> snd ((reqs @ [r]) ! k) \<le> snd ((reqs @ [r]) ! i))" for f
  proof (cases "b \<and> f = fp")
    case True
    then have "m2 f = Some (Fin now)" using two by (auto simp: spec_process_def split: if_splits)
    with True r \<open>length bs1 = ?n\<close> late show ?thesis by (auto intro!: exI [of _ ?n] simp: nth_append)
  next
    case False
    then have "m2 f = m1 f" using two by (auto simp: spec_process_def split: if_splits)
    then show ?thesis
    proof (cases "m1 f")
      case None
      then show ?thesis using old [of f] False r \<open>m2 f = m1 f\<close> \<open>length bs1 = ?n\<close> by (auto simp: nth_append less_Suc_eq)
    next
      case (Some t)
      then obtain i where i: "i < ?n" "bs1 ! i" "fst (reqs ! i) = f" "t = Fin (snd (reqs ! i))"
        "\<forall>k < ?n. bs1 ! k \<and> fst (reqs ! k) = f \<longrightarrow> snd (reqs ! k) \<le> snd (reqs ! i)"
        using old [of f] by auto
      with Some False r \<open>m2 f = m1 f\<close> \<open>length bs1 = ?n\<close> show ?thesis by (auto intro!: exI [of _ i] simp: nth_append less_Suc_eq)
    qed
  qed
  then show ?case unfolding e length_append_singleton \<open>length bs1 = ?n\<close> by blast
qed simp

lemma spec_run_take: "spec_run c m (xs @ ys) = (let (bs, m1) = spec_run c m xs; (cs, m2) = spec_run c m1 ys in (bs @ cs, m2))"
  by (induction c m xs rule: spec_run.induct) (auto split: prod.splits)

lemma spec_run_length: "length (fst (spec_run c m xs)) = length xs"
  by (induction c m xs rule: spec_run.induct) (auto split: prod.splits)

lemma spec_run_exact:
  assumes "spec_run (Fin q) Map.empty reqs = (bs, m)" "sorted (map snd reqs)" "j < length reqs"
  shows "bs ! j \<longleftrightarrow> \<not> (\<exists>i < j. bs ! i \<and> fst (reqs ! i) = fst (reqs ! j) \<and> snd (reqs ! j) - snd (reqs ! i) < q)"
proof -
  obtain fp now where rj: "reqs ! j = (fp, now)" by (cases "reqs ! j")
  have split: "reqs = take j reqs @ (fp, now) # drop (Suc j) reqs" using id_take_nth_drop [OF assms(3)] rj by simp
  obtain bs1 m1 where one: "spec_run (Fin q) Map.empty (take j reqs) = (bs1, m1)" by fastforce
  obtain b m2 where two: "spec_process (Fin q) m1 fp now = (b, m2)" by fastforce
  have len: "length bs1 = j" using spec_run_length [of "Fin q" Map.empty "take j reqs"] one assms(3) by simp
  have "\<exists>cs. bs = bs1 @ b # cs"
    using assms(1) one two by (subst (asm) split) (auto simp: spec_run_take split: prod.splits)
  then obtain cs where bs: "bs = bs1 @ b # cs" by blast
  have "sorted (map snd (take j reqs))" using assms(2) by (simp add: take_map [symmetric] sorted_wrt_take)
  note st = spec_run_state [OF one this]
  have "b \<longleftrightarrow> \<not> (\<exists>i < j. bs1 ! i \<and> fst (reqs ! i) = fp \<and> now - snd (reqs ! i) < q)"
  proof (cases "m1 fp")
    case None
    then show ?thesis using st assms(3) two by (auto simp: spec_process_def dest!: spec [of _ fp])
  next
    case (Some t)
    then obtain i where i: "i < j" "bs1 ! i" "fst (reqs ! i) = fp" "t = Fin (snd (reqs ! i))"
      "\<forall>k < j. bs1 ! k \<and> fst (reqs ! k) = fp \<longrightarrow> snd (reqs ! k) \<le> snd (reqs ! i)"
      using st assms(3) by (auto dest!: spec [of _ fp])
    have "b \<longleftrightarrow> \<not> now - snd (reqs ! i) < q" using two Some i(4) by (auto simp: spec_process_def flt_sub_def)
    with i show ?thesis by fastforce
  qed
  then show ?thesis using rj bs len by (auto simp: nth_append)
qed

text \<open>
  A condition is decided once per window and never silenced for longer. Started without a state
  file and with a clock that does not go back, the suppressor decides a condition exactly if it has not
  decided the same condition less than the cooldown ago.
\<close>

theorem decided_once_per_window:
  assumes "0 < q" "sorted (map snd reqs)" "j < length reqs"
  shows "\<exists>bs file. sup_run (Fin q) (Inl FileNotFound) reqs = Inr (bs, file) \<and>
    (bs ! j \<longleftrightarrow> \<not> (\<exists>i < j. bs ! i \<and> fst (reqs ! i) = fst (reqs ! j) \<and> snd (reqs ! j) - snd (reqs ! i) < q))"
proof -
  have c: "\<not> flt_le (Fin q) (Fin 0)" using assms(1) by simp
  have l: "sup_load (Inl FileNotFound) = Inr []" by (simp add: sup_load_def)
  have e: "last_decided (Inl FileNotFound) = Map.empty" by (simp add: last_decided_def l fun_eq_iff)
  obtain bs f where r: "sup_run (Fin q) (Inl FileNotFound) reqs = Inr (bs, f)" "spec_run (Fin q) Map.empty reqs = (bs, last_decided f)"
    using sup_run_refines [OF c l, of reqs] e by auto
  from spec_run_exact [OF r(2) assms(2,3)] r(1) show ?thesis by blast
qed

theorem decided_once_per_window_witness:
  "\<exists>bs file. sup_run (Fin 60) (Inl FileNotFound) [(''a'', 0), (''a'', 30)] = Inr (bs, file) \<and> (bs ! 1 \<longleftrightarrow> \<not> bs ! 0)"
  using decided_once_per_window [of 60 "[(''a'', 0), (''a'', 30)]" 1] by auto

subsection \<open>Learning\<close>

text \<open>The receipts of one failure class whose executor ran, and those among them that did not resolve.\<close>

definition attempt_of :: "string \<Rightarrow> pyval \<Rightarrow> bool" where
  "attempt_of k r \<longleftrightarrow>
     (case r of
        VDict d \<Rightarrow> truthy (dgetdef d ''execution'' VNone) \<and> v_text (dgetdef d ''beacon_kind'' (VStr ''unknown'')) = Inr k
      | _ \<Rightarrow> False)"

definition failed_attempt :: "string \<Rightarrow> pyval \<Rightarrow> bool" where
  "failed_attempt k r \<longleftrightarrow>
     attempt_of k r \<and> (case r of VDict d \<Rightarrow> resolved_outcome (dgetdef d ''execution'' VNone) = Inr False | _ \<Rightarrow> False)"

definition tally :: "pyval list \<Rightarrow> string \<Rightarrow> nat \<times> nat" where
  "tally rs k = (length (filter (attempt_of k) rs), length (filter (failed_attempt k) rs))"

lemma count_outcome_step:
  assumes "count_outcome r stats = Inr stats'"
  shows "dgetdef stats' k (0, 0) = (fst (dgetdef stats k (0, 0)) + (if attempt_of k r then 1 else 0),
           snd (dgetdef stats k (0, 0)) + (if failed_attempt k r then 1 else 0))"
    and "dget stats' k = None \<longleftrightarrow> dget stats k = None \<and> \<not> attempt_of k r" and "dwf stats \<Longrightarrow> dwf stats'"
proof -
  obtain d where r: "r = VDict d" using assms by (cases r) (simp_all add: count_outcome_def)
  let ?ex = "dgetdef d ''execution'' VNone"
  have "(dgetdef stats' k (0, 0) = (fst (dgetdef stats k (0, 0)) + (if attempt_of k r then 1 else 0),
           snd (dgetdef stats k (0, 0)) + (if failed_attempt k r then 1 else 0))) \<and>
      (dget stats' k = None \<longleftrightarrow> dget stats k = None \<and> \<not> attempt_of k r) \<and> (dwf stats \<longrightarrow> dwf stats')"
  proof (cases "truthy ?ex")
    case False
    then show ?thesis using assms r by (simp add: count_outcome_def attempt_of_def failed_attempt_def)
  next
    case True
    then obtain kind ok where k: "v_text (dgetdef d ''beacon_kind'' (VStr ''unknown'')) = Inr kind" "resolved_outcome ?ex = Inr ok"
      "stats' = dset stats kind (fst (dgetdef stats kind (0, 0)) + 1, if ok then snd (dgetdef stats kind (0, 0)) else snd (dgetdef stats kind (0, 0)) + 1)"
      using assms r by (auto simp: count_outcome_def rbind_eq_Inr split_beta)
    then show ?thesis using True r by (auto simp: attempt_of_def failed_attempt_def dgetdef_def)
  qed
  then show "dgetdef stats' k (0, 0) = (fst (dgetdef stats k (0, 0)) + (if attempt_of k r then 1 else 0),
           snd (dgetdef stats k (0, 0)) + (if failed_attempt k r then 1 else 0))"
    and "dget stats' k = None \<longleftrightarrow> dget stats k = None \<and> \<not> attempt_of k r" and "dwf stats \<Longrightarrow> dwf stats'" by blast+
qed

lemma outcomes_tally:
  assumes "outcomes_by_kind rs = Inr stats"
  shows "dwf stats" "dget stats k = (if fst (tally rs k) = 0 then None else Some (tally rs k))"
proof -
  have gen: "dwf st' \<and> dgetdef st' k (0, 0) = (fst (dgetdef st k (0, 0)) + fst (tally rs k), snd (dgetdef st k (0, 0)) + snd (tally rs k)) \<and>
      (dget st' k = None \<longleftrightarrow> dget st k = None \<and> fst (tally rs k) = 0)"
    if "rfold count_outcome rs st = Inr st'" "dwf st" for rs st st' k
    using that
  proof (induction rs arbitrary: st)
    case (Cons r rs)
    then obtain s1 where s1: "count_outcome r st = Inr s1" "rfold count_outcome rs s1 = Inr st'" by (auto simp: rbind_eq_Inr)
    note c = count_outcome_step [OF s1(1)]
    from Cons.IH [OF s1(2) c(3) [OF Cons.prems(2)]] c(1,2) [of k] show ?case by (auto simp: tally_def)
  qed (simp add: tally_def)
  from gen [OF assms [unfolded outcomes_by_kind_def] dwf_Nil, of k]
  show "dget stats k = (if fst (tally rs k) = 0 then None else Some (tally rs k))"
    by (cases "dget stats k") (auto simp: dgetdef_def)
  from gen [OF assms [unfolded outcomes_by_kind_def] dwf_Nil] show "dwf stats" by blast
qed

definition below_one :: "string \<Rightarrow> string \<Rightarrow> bool" where
  "below_one t v \<longleftrightarrow> (\<exists>i. Suc i < length VERDICTS \<and> VERDICTS ! i = t \<and> VERDICTS ! Suc i = v)"

lemma demote_verdict:
  assumes "v \<in> set VERDICTS"
  shows "demote (VStr v) = None \<longleftrightarrow> v = ''refuse''" "demote (VStr v) = Some t \<Longrightarrow> below_one t v \<and> t \<noteq> v"
proof -
  have i: "List.find (\<lambda>i. VERDICTS ! i = VERDICTS ! j) [0..<length VERDICTS] = Some j" if "j < length VERDICTS" for j
  proof -
    have "distinct VERDICTS" by (simp add: VERDICTS_def)
    with that show ?thesis by (auto simp: find_Some_iff nth_eq_iff_index_eq intro!: exI [of _ j])
  qed
  obtain j where j: "j < length VERDICTS" "v = VERDICTS ! j" using assms by (auto simp: in_set_conv_nth)
  have "VERDICTS ! 0 = ''refuse''" "0 < length VERDICTS" "distinct VERDICTS" by (simp_all add: VERDICTS_def)
  then have floor: "v = ''refuse'' \<longleftrightarrow> j = 0" using j by (metis nth_eq_iff_index_eq)
  have dem: "demote (VStr v) = (if 0 < j then Some (VERDICTS ! (j - 1)) else None)" using i [OF j(1)] j(2) by (simp add: demote_def)
  with floor show "demote (VStr v) = None \<longleftrightarrow> v = ''refuse''" by simp
  show "below_one t v \<and> t \<noteq> v" if "demote (VStr v) = Some t"
  proof -
    have "0 < j" "t = VERDICTS ! (j - 1)" using that dem by (auto split: if_splits)
    then show ?thesis using j \<open>distinct VERDICTS\<close>
      by (auto simp: below_one_def nth_eq_iff_index_eq intro!: exI [of _ "j - 1"])
  qed
qed

definition due :: "ResponsePolicy \<Rightarrow> int \<Rightarrow> rat \<Rightarrow> string \<Rightarrow> nat \<times> nat \<Rightarrow> bool" where
  "due p min_samples failure_threshold kind t \<longleftrightarrow>
     min_samples \<le> int (fst t) \<and> failure_threshold \<le> of_nat (snd t) / of_nat (fst t) \<and> law_for p (VStr kind) \<noteq> Inr (VStr ''refuse'')"

definition sound_rec :: "ResponsePolicy \<Rightarrow> Recommendation \<Rightarrow> bool" where
  "sound_rec p r \<longleftrightarrow>
     (\<exists>v. law_for p (VStr (rec_kind_class r)) = Inr (VStr v) \<and> rec_current_law r = VStr v \<and> below_one (rec_recommended_law r) v)"

definition due_recs :: "ResponsePolicy \<Rightarrow> int \<Rightarrow> rat \<Rightarrow> string \<times> nat \<times> nat \<Rightarrow> Recommendation list" where
  "due_recs p m thr = (\<lambda>(kind, attempts, failures).
     case law_for p (VStr kind) of
       Inl e \<Rightarrow> []
     | Inr law \<Rightarrow> if due p m thr kind (attempts, failures)
         then [\<lparr>rec_kind_class = kind, rec_current_law = law, rec_recommended_law = the (demote law), rec_attempts = attempts, rec_failures = failures\<rparr>]
         else [])"

lemma recommend_due:
  assumes "validate_policy p = Inr ()"
  shows "recommend p m thr e recs = Inr (recs @ due_recs p m thr e)" "list_all (sound_rec p) (due_recs p m thr e)"
    "map rec_kind_class (due_recs p m thr e) = (if due p m thr (fst e) (snd e) then [fst e] else [])"
proof -
  obtain kind a f where e: "e = (kind, a, f)" by (cases e)
  obtain v where v: "v \<in> set VERDICTS" "law_for p (VStr kind) = Inr (VStr v)" using validated(1) [OF assms] by blast
  show "map rec_kind_class (due_recs p m thr e) = (if due p m thr (fst e) (snd e) then [fst e] else [])"
    using e v(2) by (simp add: due_recs_def)
  have "recommend p m thr e recs = Inr (recs @ due_recs p m thr e) \<and> list_all (sound_rec p) (due_recs p m thr e)"
  proof (cases "due p m thr kind (a, f)")
    case False
    then show ?thesis using v demote_verdict(1) [OF v(1)] e by (auto simp: recommend_def due_recs_def due_def Let_def not_le)
  next
    case True
    then obtain t where "demote (VStr v) = Some t" "below_one t v" "t \<noteq> v"
      using demote_verdict [OF v(1)] v(2) by (cases "demote (VStr v)") (auto simp: due_def)
    with True v e show ?thesis by (auto simp: recommend_def due_recs_def due_def Let_def sound_rec_def)
  qed
  then show "recommend p m thr e recs = Inr (recs @ due_recs p m thr e)" "list_all (sound_rec p) (due_recs p m thr e)" by blast+
qed

lemma recommend_all:
  assumes "validate_policy p = Inr ()" "rfold (recommend p m thr) es [] = Inr recs"
  shows "map rec_kind_class recs = map fst (filter (\<lambda>e. due p m thr (fst e) (snd e)) es)" "list_all (sound_rec p) recs"
proof -
  have r: "recs = concat (map (due_recs p m thr) es)"
    using assms(2) rfold_append [of es "recommend p m thr" "due_recs p m thr" "[]"] recommend_due(1) [OF assms(1)] by simp
  show "map rec_kind_class recs = map fst (filter (\<lambda>e. due p m thr (fst e) (snd e)) es)"
    unfolding r by (induction es) (simp_all add: recommend_due(3) [OF assms(1)])
  show "list_all (sound_rec p) recs" unfolding r using recommend_due(2) [OF assms(1)] by (induction es) (simp_all add: list_all_append)
qed

text \<open>
  C31: Learning only ever recommends one step down, and only on evidence. With a validated policy, the
  recommendations are one per failure class in alphabetical order; a class gets one exactly if enough
  of its executions are recorded, at least the threshold share of them did not resolve, and its law is
  above the floor; and each recommends the verdict directly below the law in force.
\<close>

theorem learning_only_demotes:
  assumes "validate_policy p = Inr ()" "peek_all q = Inr rs" "analyze p m thr q = Inr recs"
  shows "sorted (map rec_kind_class recs) \<and> distinct (map rec_kind_class recs) \<and> list_all (sound_rec p) recs \<and>
    (k \<in> set (map rec_kind_class recs) \<longleftrightarrow> 0 < fst (tally rs k) \<and> due p m thr k (tally rs k))"
proof -
  obtain stats where st: "outcomes_by_kind rs = Inr stats" "rfold (recommend p m thr) (sort_key fst stats) [] = Inr recs"
    using assms(2,3) by (auto simp: analyze_def rbind_eq_Inr)
  have d: "distinct (map fst (sort_key fst stats))" using dwf_sorted [OF outcomes_tally(1) [OF st(1)]] by (simp add: dwf_def)
  have mem: "(k, t) \<in> set stats \<longleftrightarrow> dget stats k = Some t" for t
    using dget_Some_in dget_in_dwf outcomes_tally(1) [OF st(1)] by metis
  note all = recommend_all [OF assms(1) st(2)]
  have "k \<in> set (map rec_kind_class recs) \<longleftrightarrow> (\<exists>t. (k, t) \<in> set stats \<and> due p m thr k t)" unfolding all(1) by force
  then have "k \<in> set (map rec_kind_class recs) \<longleftrightarrow> 0 < fst (tally rs k) \<and> due p m thr k (tally rs k)"
    unfolding mem outcomes_tally(2) [OF st(1)] by (cases "tally rs k") auto
  moreover have "sorted (map rec_kind_class recs)" unfolding all(1) by (intro sorted_filter sorted_sort_key)
  moreover have "distinct (map rec_kind_class recs)" unfolding all(1) by (intro distinct_map_filter d)
  ultimately show ?thesis using all(2) by blast
qed

definition failed_receipt :: pyval where
  "failed_receipt = VDict [(''execution'', VDict [(''healed'', VBool False)]), (''beacon_kind'', VStr ''mirror_drift'')]"

theorem learning_only_demotes_witness:
  "\<exists>recs. analyze DEFAULT_POLICY 1 (1 / 2) [(''1.json'', Inr failed_receipt)] = Inr recs \<and> list_all (sound_rec DEFAULT_POLICY) recs \<and>
     ''mirror_drift'' \<in> set (map rec_kind_class recs)"
proof -
  let ?q = "[(''1.json'', Inr failed_receipt)] :: dq"
  have pend: "dq_pending ?q = [''1.json'']" by (simp add: dq_pending_def dkeys_def visible_def endswith_def json_suffix_def startswith_def)
  have peek: "peek_all ?q = Inr [failed_receipt]" by (simp add: peek_all_def pend)
  have stats: "outcomes_by_kind [failed_receipt] = Inr [(''mirror_drift'', 1, 1)]"
    by (simp add: outcomes_by_kind_def count_outcome_def failed_receipt_def dgetdef_def resolved_outcome_def)
  have "\<exists>recs. analyze DEFAULT_POLICY 1 (1 / 2) ?q = Inr recs"
    using recommend_due(1) [OF default_policy_valid] by (simp add: analyze_def peek stats)
  then obtain recs where recs: "analyze DEFAULT_POLICY 1 (1 / 2) ?q = Inr recs" by blast
  have "tally [failed_receipt] ''mirror_drift'' = (1, 1)"
    by (simp add: tally_def failed_attempt_def attempt_of_def failed_receipt_def dgetdef_def resolved_outcome_def)
  moreover have "due DEFAULT_POLICY 1 (1 / 2) ''mirror_drift'' (1, 1)"
    by (simp add: due_def law_for_def get_by_value_def DEFAULT_POLICY_def dgetdef_def)
  ultimately show ?thesis using learning_only_demotes [OF default_policy_valid peek recs, of "''mirror_drift''"] recs by auto
qed

end
