(* ===== verification/Control_Loop.thy ===== *)
theory Control_Loop
  imports Py_Values
begin

text \<open>
  \<open>automation/control_loop.py\<close> and \<open>automation/self_heal.py\<close>: the bounded, fail-closed control loop and
  the two remediations that run under it. What the loop observes and acts on is a world of any type;
  a reading of the clock, an observation and an action are functions of the world that return the new
  one. Errors are floats with infinities and NaN; the clock, the deadline and the target are exact
  rationals. The hash of the trace and the wording of the reasons are not represented.
\<close>

section \<open>The loop\<close>

definition EPS :: rat where
  "EPS = 1 / 10 ^ 12"

record LoopConfig =
  lc_max_iterations :: int
  lc_deadline_s :: rat
  lc_target :: rat
  lc_patience :: int
  lc_safe_state :: string

definition default_config :: LoopConfig where
  "default_config = \<lparr>lc_max_iterations = 5, lc_deadline_s = 30, lc_target = 0, lc_patience = 2, lc_safe_state = ''quarantine-escalate''\<rparr>"

definition control_loop :: "LoopConfig \<Rightarrow> LoopConfig result" where
  "control_loop c =
     (if lc_max_iterations c < 1 then Inl ValueError
      else if lc_deadline_s c \<le> 0 then Inl ValueError
      else if lc_patience c < 1 then Inl ValueError
      else Inr c)"

record 'w Plant =
  pl_observe :: "'w \<Rightarrow> pyval result \<times> 'w"
  pl_act :: "'w \<Rightarrow> unit result \<times> 'w"
  pl_clock :: "'w \<Rightarrow> rat \<times> 'w"

definition loop_observe :: "'w Plant \<Rightarrow> 'w \<Rightarrow> pyfloat \<times> 'w" where
  "loop_observe p w = (let (v, w1) = pl_observe p w in (case rbind v v_float of Inr f \<Rightarrow> f | Inl e \<Rightarrow> PInf, w1))"

definition loop_act :: "'w Plant \<Rightarrow> 'w \<Rightarrow> 'w" where
  "loop_act p w = snd (pl_act p w)"

text \<open>\<open>round(x, 6)\<close>: to the nearest multiple of \<open>10\<^sup>-\<^sup>6\<close>, ties to even.\<close>

definition round_even :: "rat \<Rightarrow> int" where
  "round_even q =
     (let n = \<lfloor>q\<rfloor>; d = q - of_int n in
      if d < 1 / 2 then n else if d > 1 / 2 then n + 1 else if even n then n else n + 1)"

definition round6 :: "rat \<Rightarrow> rat" where
  "round6 q = of_int (round_even (q * 10 ^ 6)) / 10 ^ 6"

record loop_step =
  ls_iter :: int
  ls_error :: pyfloat
  ls_elapsed_s :: rat
  ls_action :: bool

datatype loop_end = TargetReached | Exhausted | DeadlineExceeded | Stuck | NoInvariant

definition on_target :: "LoopConfig \<Rightarrow> pyfloat \<Rightarrow> bool" where
  "on_target c err \<longleftrightarrow> flt_le err (Fin (lc_target c + EPS))"

definition improved :: "pyfloat \<Rightarrow> pyfloat \<Rightarrow> bool" where
  "improved err best \<longleftrightarrow> flt_less err (flt_sub best (Fin EPS))"

partial_function (option) run_loop ::
    "LoopConfig \<Rightarrow> 'w Plant \<Rightarrow> rat \<Rightarrow> int \<Rightarrow> pyfloat \<Rightarrow> pyfloat \<Rightarrow> int \<Rightarrow> loop_step list \<Rightarrow> 'w \<Rightarrow>
      (loop_end \<times> pyfloat \<times> loop_step list \<times> 'w) option" where
  "run_loop c p t0 i err best stall trace w =
     (let (t1, w1) = pl_clock p w;
          st = \<lparr>ls_iter = i, ls_error = err, ls_elapsed_s = round6 (t1 - t0), ls_action = False\<rparr> in
      if on_target c err then Some (TargetReached, err, trace @ [st], w1)
      else if i \<ge> lc_max_iterations c then Some (Exhausted, err, trace @ [st], w1)
      else let (t2, w2) = pl_clock p w1 in
        if t2 - t0 > lc_deadline_s c then Some (DeadlineExceeded, err, trace @ [st], w2)
        else if \<not> improved err best \<and> stall + 1 \<ge> lc_patience c then Some (Stuck, err, trace @ [st], w2)
        else let (err', w3) = loop_observe p (loop_act p w2) in
          run_loop c p t0 (i + 1) err' (if improved err best then err else best) (if improved err best then 0 else stall + 1)
            (trace @ [st\<lparr>ls_action := True\<rparr>]) w3)"

record LoopResult =
  lr_converged :: bool
  lr_iterations :: nat
  lr_initial_error :: pyfloat
  lr_final_error :: pyfloat
  lr_trace :: "loop_step list"
  lr_fail_closed_state :: "string option"
  lr_reason :: loop_end

definition loop_result :: "LoopConfig \<Rightarrow> pyfloat \<Rightarrow> loop_end \<Rightarrow> pyfloat \<Rightarrow> loop_step list \<Rightarrow> LoopResult" where
  "loop_result c initial reason err trace =
     (let converged = (reason = TargetReached \<or> on_target c err) in
      \<lparr>lr_converged = converged, lr_iterations = length trace, lr_initial_error = initial, lr_final_error = err, lr_trace = trace,
       lr_fail_closed_state = (if converged then None else Some (lc_safe_state c)), lr_reason = reason\<rparr>)"

definition control_run :: "LoopConfig \<Rightarrow> 'w Plant \<Rightarrow> 'w \<Rightarrow> (LoopResult \<times> 'w) option" where
  "control_run c p w =
     (let (t0, w0) = pl_clock p w; (err, w1) = loop_observe p w0 in
      case run_loop c p t0 0 err PInf 0 [] w1 of
        None \<Rightarrow> None
      | Some (reason, final, trace, w2) \<Rightarrow> Some (loop_result c err reason final trace, w2))"

section \<open>Healing under an invariant\<close>

text \<open>
  \<open>heal\<close>: \<open>invariant\<close> is what \<open>INVARIANTS.get(kind_class)\<close> gives, \<open>executor\<close> the executor with its
  paths; the loop arguments that the caller gives are applied to the defaults.
\<close>

definition heal ::
    "('w \<Rightarrow> pyval result \<times> 'w) option \<Rightarrow> ('w \<Rightarrow> pyval result \<times> 'w) \<Rightarrow> ('w \<Rightarrow> rat \<times> 'w) \<Rightarrow> (LoopConfig \<Rightarrow> LoopConfig) \<Rightarrow> 'w \<Rightarrow>
      (LoopResult \<times> 'w) option result" where
  "heal invariant executor clock loop_kwargs w =
     (case invariant of
        None \<Rightarrow>
          Inr (Some (\<lparr>lr_converged = False, lr_iterations = 0, lr_initial_error = PInf, lr_final_error = PInf, lr_trace = [],
                      lr_fail_closed_state = Some ''quarantine-escalate'', lr_reason = NoInvariant\<rparr>, w))
      | Some obs \<Rightarrow>
          rbind (control_loop (loop_kwargs default_config)) (\<lambda>c.
            Inr (control_run c \<lparr>pl_observe = obs, pl_act = (\<lambda>w. (Inr (), snd (executor w))), pl_clock = clock\<rparr> w)))"

section \<open>Opening a pull request as a loop\<close>

record captured =
  cap_pr_url :: pyval
  cap_error :: "string option"

definition pr_observe :: "'w \<times> captured \<Rightarrow> pyval result \<times> ('w \<times> captured)" where
  "pr_observe s = (Inr (VFloat (Fin (if truthy (cap_pr_url (snd s)) then 0 else 1))), s)"

definition pr_act :: "(exn \<Rightarrow> string) \<Rightarrow> ('w \<Rightarrow> pyval result \<times> 'w) \<Rightarrow> 'w \<times> captured \<Rightarrow> unit result \<times> ('w \<times> captured)" where
  "pr_act err_text opener = (\<lambda>(w, c).
     case opener w of
       (Inr url, w1) \<Rightarrow> (Inr (), (w1, c\<lparr>cap_pr_url := url\<rparr>))
     | (Inl e, w1) \<Rightarrow> (Inl e, (w1, c\<lparr>cap_error := Some (err_text e)\<rparr>)))"

definition pr_plant :: "(exn \<Rightarrow> string) \<Rightarrow> ('w \<Rightarrow> pyval result \<times> 'w) \<Rightarrow> ('w \<Rightarrow> rat \<times> 'w) \<Rightarrow> ('w \<times> captured) Plant" where
  "pr_plant err_text opener clock =
     \<lparr>pl_observe = pr_observe, pl_act = pr_act err_text opener, pl_clock = (\<lambda>(w, c). let (t, w1) = clock w in (t, (w1, c)))\<rparr>"

definition pr_config :: LoopConfig where
  "pr_config = default_config\<lparr>lc_max_iterations := 2, lc_patience := 2, lc_target := 0, lc_safe_state := ''quarantine-escalate''\<rparr>"

record Sealed =
  se_result :: LoopResult
  se_mode :: string
  se_pr_url :: pyval
  se_error :: "string option"
  se_fail_closed_state :: "string option"

definition seal_pr :: "LoopResult \<Rightarrow> captured \<Rightarrow> Sealed result" where
  "seal_pr r c =
     (let base = \<lparr>se_result = r, se_mode = ''propose_pr'', se_pr_url = cap_pr_url c, se_error = None,
                  se_fail_closed_state = lr_fail_closed_state r\<rparr>;
          failed = base\<lparr>se_error := Some (case cap_error c of Some e \<Rightarrow> e | None \<Rightarrow> ''PR could not be opened'')\<rparr> in
      if lr_converged r then Inr base
      else if truthy (cap_pr_url c) then rbind (v_text (cap_pr_url c)) (\<lambda>u. Inr (failed\<lparr>se_fail_closed_state := Some (''human-review:'' @ u)\<rparr>))
      else Inr failed)"

definition remediate_via_pr ::
    "(exn \<Rightarrow> string) \<Rightarrow> ('w \<Rightarrow> pyval result \<times> 'w) \<Rightarrow> ('w \<Rightarrow> rat \<times> 'w) \<Rightarrow> (LoopConfig \<Rightarrow> LoopConfig) \<Rightarrow> 'w \<Rightarrow>
      (Sealed result \<times> 'w) option result" where
  "remediate_via_pr err_text opener clock loop_kwargs w =
     rbind (control_loop (loop_kwargs pr_config)) (\<lambda>c.
       Inr (case control_run c (pr_plant err_text opener clock) (w, \<lparr>cap_pr_url = VNone, cap_error = None\<rparr>) of
              None \<Rightarrow> None
            | Some (r, (w', cap)) \<Rightarrow> Some (seal_pr r cap, w')))"

definition seal_fix :: "LoopResult \<Rightarrow> Sealed" where
  "seal_fix r =
     \<lparr>se_result = r, se_mode = ''auto_fix'', se_pr_url = VNone, se_error = None, se_fail_closed_state = lr_fail_closed_state r\<rparr>"

text \<open>
  The routing. An action that is not an autonomous remediation gives the non-converged result of the
  last branch, here \<open>None\<close> for its sealed loop.
\<close>

definition remediate ::
    "(pyval \<Rightarrow> ('w \<Rightarrow> pyval result \<times> 'w) option) \<Rightarrow> (exn \<Rightarrow> string) \<Rightarrow> (pyval \<Rightarrow> 'w \<Rightarrow> pyval result \<times> 'w) \<Rightarrow> ('w \<Rightarrow> rat \<times> 'w) \<Rightarrow>
      (LoopConfig \<Rightarrow> LoopConfig) \<Rightarrow> (string, pyval) dict \<Rightarrow> (string, pyval) dict \<Rightarrow> ('w \<Rightarrow> pyval result \<times> 'w) option \<Rightarrow> 'w \<Rightarrow>
      (Sealed option result \<times> 'w) option result" where
  "remediate invariants err_text opener clock loop_kwargs beacon receipt executor_fn w =
     (let action = dgetdef receipt ''action'' VNone in
      if action = VStr ''auto_fix'' \<and> executor_fn \<noteq> None then
        rbind (heal (invariants (dgetdef beacon ''kind_class'' (VStr ''unknown''))) (the executor_fn) clock loop_kwargs w) (\<lambda>out.
          Inr (map_option (\<lambda>(r, w'). (Inr (Some (seal_fix r)), w')) out))
      else if action = VStr ''propose_pr'' then
        rbind (remediate_via_pr err_text (opener (v_or (dgetdef beacon ''proposal'' VNone) (VDict []))) clock loop_kwargs w) (\<lambda>out.
          Inr (map_option (\<lambda>(s, w'). (rbind s (\<lambda>x. Inr (Some x)), w')) out))
      else Inr (Some (Inr None, w)))"

section \<open>The loop returns\<close>

definition acts :: "loop_step list \<Rightarrow> nat" where
  "acts trace = length (filter ls_action trace)"

lemma run_loop_returns:
  "\<exists>reason final steps w'. run_loop c p t0 i err best stall trace w = Some (reason, final, trace @ steps, w') \<and>
     steps \<noteq> [] \<and> length steps \<le> nat (lc_max_iterations c - i) + 1 \<and>
     ls_error (last steps) = final \<and> \<not> ls_action (last steps) \<and> list_all ls_action (butlast steps) \<and>
     (reason = TargetReached \<longleftrightarrow> on_target c final) \<and> reason \<noteq> NoInvariant"
proof (induction "nat (lc_max_iterations c - i)" arbitrary: i err best stall trace w rule: less_induct)
  case less
  obtain t1 w1 where c1: "pl_clock p w = (t1, w1)" by fastforce
  obtain t2 w2 where c2: "pl_clock p w1 = (t2, w2)" by fastforce
  obtain err' w3 where o: "loop_observe p (loop_act p w2) = (err', w3)" by fastforce
  define st where "st = \<lparr>ls_iter = i, ls_error = err, ls_elapsed_s = round6 (t1 - t0), ls_action = False\<rparr>"
  note unfold = run_loop.simps [of c p t0 i err best stall trace w, unfolded c1 c2 o Let_def prod.case]
  consider (stop) "on_target c err" | (max) "\<not> on_target c err" "i \<ge> lc_max_iterations c"
    | (late) "\<not> on_target c err" "i < lc_max_iterations c" "t2 - t0 > lc_deadline_s c"
    | (stuck) "\<not> on_target c err" "i < lc_max_iterations c" "\<not> t2 - t0 > lc_deadline_s c" "\<not> improved err best \<and> stall + 1 \<ge> lc_patience c"
    | (step) "\<not> on_target c err" "i < lc_max_iterations c" "\<not> t2 - t0 > lc_deadline_s c" "\<not> (\<not> improved err best \<and> stall + 1 \<ge> lc_patience c)"
    by fastforce
  then show ?case
  proof cases
    case step
    have "nat (lc_max_iterations c - (i + 1)) < nat (lc_max_iterations c - i)" using step(2) by simp
    from less.hyps [OF this, of err' "if improved err best then err else best" "if improved err best then 0 else stall + 1"
        "trace @ [st\<lparr>ls_action := True\<rparr>]" w3]
    obtain reason final steps w' where r: "run_loop c p t0 i err best stall trace w = Some (reason, final, (trace @ [st\<lparr>ls_action := True\<rparr>]) @ steps, w')"
      "steps \<noteq> []" "length steps \<le> nat (lc_max_iterations c - (i + 1)) + 1"
      "ls_error (last steps) = final" "\<not> ls_action (last steps)" "list_all ls_action (butlast steps)"
      "reason = TargetReached \<longleftrightarrow> on_target c final" "reason \<noteq> NoInvariant"
      using step unfolding unfold st_def by auto
    then show ?thesis using step(2) by (intro exI [of _ reason] exI [of _ final] exI [of _ "st\<lparr>ls_action := True\<rparr> # steps"] exI [of _ w']) auto
  qed (unfold unfold, simp_all)
qed

lemma run_loop_keeps:
  assumes clock: "\<And>err w. I err w \<Longrightarrow> I err (snd (pl_clock p w))"
    and step: "\<And>err w. I err w \<Longrightarrow> \<not> on_target c err \<Longrightarrow> I (fst (loop_observe p (loop_act p w))) (snd (loop_observe p (loop_act p w)))"
  shows "run_loop c p t0 i err best stall trace w = Some r \<Longrightarrow> I err w \<Longrightarrow> I (fst (snd r)) (snd (snd (snd r)))"
proof (induction "nat (lc_max_iterations c - i)" arbitrary: i err best stall trace w rule: less_induct)
  case less
  obtain t1 w1 where c1: "pl_clock p w = (t1, w1)" by fastforce
  obtain t2 w2 where c2: "pl_clock p w1 = (t2, w2)" by fastforce
  obtain err' w3 where o: "loop_observe p (loop_act p w2) = (err', w3)" by fastforce
  have I1: "I err w1" and I2: "I err w2" using clock [of err w] clock [of err w1] less.prems(2) c1 c2 by simp_all
  have I3: "\<not> on_target c err \<Longrightarrow> I err' w3" using step [OF I2] o by simp
  have IH: "\<not> i \<ge> lc_max_iterations c \<Longrightarrow> run_loop c p t0 (i + 1) err' best' stall' trace' w3 = Some r \<Longrightarrow> I err' w3 \<Longrightarrow> I (fst (snd r)) (snd (snd (snd r)))"
    for best' stall' trace' by (rule less.hyps) simp_all
  from less.prems(1) [unfolded run_loop.simps [of c p t0 i err best stall trace w, unfolded c1 c2 o Let_def prod.case]] I1 I2
  show ?case by (auto split: if_splits intro: IH I3)
qed

lemma run_loop_stuck:
  assumes "\<And>w. fst (loop_observe p w) = e" "\<not> improved e best"
  shows "run_loop c p t0 i e best stall trace w = Some (reason, final, trace @ steps, w') \<Longrightarrow> length steps \<le> nat (lc_patience c - stall - 1) + 1"
proof (induction "nat (lc_patience c - stall)" arbitrary: i stall trace steps w rule: less_induct)
  case less
  obtain t1 w1 where c1: "pl_clock p w = (t1, w1)" by fastforce
  obtain t2 w2 where c2: "pl_clock p w1 = (t2, w2)" by fastforce
  obtain w3 where o: "loop_observe p (loop_act p w2) = (e, w3)" using assms(1) [of "loop_act p w2"] by (metis prod.collapse)
  define st where "st = \<lparr>ls_iter = i, ls_error = e, ls_elapsed_s = round6 (t1 - t0), ls_action = False\<rparr>"
  note run = less.prems [unfolded run_loop.simps [of c p t0 i e best stall trace w, unfolded c1 c2 o Let_def prod.case]]
  show ?case
  proof (cases "length steps = 1")
    case False
    with run assms(2) have more: "stall + 1 < lc_patience c"
      "run_loop c p t0 (i + 1) e best (stall + 1) (trace @ [st\<lparr>ls_action := True\<rparr>]) w3 = Some (reason, final, trace @ steps, w')"
      by (auto simp: st_def split: if_splits)
    obtain ys where ys: "trace @ steps = (trace @ [st\<lparr>ls_action := True\<rparr>]) @ ys"
      using run_loop_returns [of c p t0 "i + 1" e best "stall + 1" "trace @ [st\<lparr>ls_action := True\<rparr>]" w3] more(2) by auto
    have "length ys \<le> nat (lc_patience c - (stall + 1) - 1) + 1"
      using less.hyps [OF _ more(2) [unfolded ys]] more(1) by simp
    with ys more(1) show ?thesis by auto
  qed simp
qed

lemma control_runE:
  obtains t0 w0 err w1 reason final steps w' where "pl_clock p w = (t0, w0)" "loop_observe p w0 = (err, w1)"
    "run_loop c p t0 0 err PInf 0 [] w1 = Some (reason, final, steps, w')" "control_run c p w = Some (loop_result c err reason final steps, w')"
    "steps \<noteq> []" "length steps \<le> nat (lc_max_iterations c) + 1" "ls_error (last steps) = final" "acts steps + 1 = length steps"
    "reason = TargetReached \<longleftrightarrow> on_target c final"
proof -
  obtain t0 w0 where c: "pl_clock p w = (t0, w0)" by fastforce
  obtain err w1 where o: "loop_observe p w0 = (err, w1)" by fastforce
  obtain reason final steps w' where r: "run_loop c p t0 0 err PInf 0 [] w1 = Some (reason, final, [] @ steps, w')"
    "steps \<noteq> []" "length steps \<le> nat (lc_max_iterations c - 0) + 1" "ls_error (last steps) = final" "\<not> ls_action (last steps)"
    "list_all ls_action (butlast steps)" "reason = TargetReached \<longleftrightarrow> on_target c final"
    using run_loop_returns [of c p t0 0 err PInf 0 "[]" w1] by blast
  have "acts (butlast steps @ [last steps]) + 1 = length (butlast steps @ [last steps])"
    using r(5,6) by (simp add: acts_def filter_id_conv [THEN iffD2] list_all_iff del: append_butlast_last_id)
  with r that [OF c o, of reason final steps w'] show thesis by (simp add: control_run_def c o)
qed

section \<open>Properties\<close>

text \<open>
  C26: The control loop always returns. Whatever is observed, however the clock behaves and whatever
  the actions do, the loop ends after at most \<open>max_iterations\<close> actions, and its trace has one entry per
  observation.
\<close>

theorem control_loop_returns:
  "\<exists>r w'. control_run c p w = Some (r, w') \<and> lr_iterations r = length (lr_trace r) \<and> acts (lr_trace r) + 1 = lr_iterations r \<and>
     acts (lr_trace r) \<le> nat (lc_max_iterations c) \<and> ls_error (last (lr_trace r)) = lr_final_error r"
  by (rule control_runE [of p w c]) (auto simp: loop_result_def Let_def)

text \<open>
  C27: Success is verified, not assumed. For a system whose error does not depend on when it is read,
  the loop reports convergence exactly if an observation of the system it leaves behind is on target,
  and otherwise it reports the safe state.
\<close>

theorem convergence_is_verified:
  assumes "\<And>w. fst (loop_observe p (snd (pl_clock p w))) = fst (loop_observe p w)"
    and "\<And>w. fst (loop_observe p (snd (loop_observe p w))) = fst (loop_observe p w)"
  shows "\<exists>r w'. control_run c p w = Some (r, w') \<and> (lr_converged r \<longleftrightarrow> on_target c (fst (loop_observe p w'))) \<and>
    lr_fail_closed_state r = (if lr_converged r then None else Some (lc_safe_state c))"
proof -
  obtain t0 w0 err w1 reason final steps w' where r: "pl_clock p w = (t0, w0)" "loop_observe p w0 = (err, w1)"
    "run_loop c p t0 0 err PInf 0 [] w1 = Some (reason, final, steps, w')" "control_run c p w = Some (loop_result c err reason final steps, w')"
    "reason = TargetReached \<longleftrightarrow> on_target c final"
    by (rule control_runE [of p w c])
  have "err = fst (loop_observe p w1)" using assms(2) [of w0] r(2) by simp
  then have "final = fst (loop_observe p w')"
    using run_loop_keeps [of "\<lambda>err w. err = fst (loop_observe p w)", OF _ _ r(3)] assms by simp
  with r(4,5) show ?thesis by (simp add: loop_result_def Let_def)
qed

text \<open>
  A loop that is not getting anywhere gives up. If every observation shows the same error, at most
  \<open>patience\<close> actions are tried.
\<close>

theorem stuck_loop_gives_up:
  assumes "\<And>w. fst (loop_observe p w) = e" "1 \<le> lc_patience c"
  shows "\<exists>r w'. control_run c p w = Some (r, w') \<and> acts (lr_trace r) \<le> nat (lc_patience c)"
proof -
  obtain t0 w0 err w1 reason final steps w' where r: "pl_clock p w = (t0, w0)" "loop_observe p w0 = (err, w1)"
    "run_loop c p t0 0 err PInf 0 [] w1 = Some (reason, final, steps, w')" "control_run c p w = Some (loop_result c err reason final steps, w')"
    "acts steps + 1 = length steps"
    by (rule control_runE [of p w c])
  have err: "err = e" using assms(1) [of w0] r(2) by simp
  have "length steps \<le> nat (lc_patience c) + 1"
  proof (cases "improved e PInf")
    case False
    with run_loop_stuck [OF assms(1), of PInf c t0 0 0 "[]" w1] r(3) err assms(2) show ?thesis by fastforce
  next
    case True
    obtain t1 w2 where c1: "pl_clock p w1 = (t1, w2)" by fastforce
    obtain t2 w3 where c2: "pl_clock p w2 = (t2, w3)" by fastforce
    obtain w4 where o: "loop_observe p (loop_act p w3) = (e, w4)" using assms(1) [of "loop_act p w3"] by (metis prod.collapse)
    have no: "\<not> improved e e" by (cases e) (simp_all add: improved_def flt_sub_def EPS_def)
    note run = r(3) [unfolded err run_loop.simps [of c p t0 0 e PInf 0 "[]" w1, unfolded c1 c2 o Let_def prod.case]]
    show ?thesis
    proof (cases "length steps = 1")
      case False
      with run True obtain st where more: "run_loop c p t0 1 e e 0 [st] w4 = Some (reason, final, steps, w')" by (auto split: if_splits)
      obtain ys where ys: "steps = [st] @ ys" using run_loop_returns [of c p t0 1 e e 0 "[st]" w4] more by auto
      from run_loop_stuck [OF assms(1) no more [unfolded ys]] assms(2) ys show ?thesis by auto
    qed simp
  qed
  with r(4,5) show ?thesis by (simp add: loop_result_def Let_def)
qed

text \<open>A system with a switch: it is healthy when the switch is on, and acting turns it on.\<close>

definition switch_plant :: "bool Plant" where
  "switch_plant = \<lparr>pl_observe = (\<lambda>w. (Inr (VFloat (Fin (if w then 0 else 1))), w)), pl_act = (\<lambda>w. (Inr (), True)), pl_clock = (\<lambda>w. (0, w))\<rparr>"

theorem convergence_is_verified_witness:
  "\<exists>r w'. control_run default_config switch_plant False = Some (r, w') \<and> (lr_converged r \<longleftrightarrow> on_target default_config (fst (loop_observe switch_plant w'))) \<and>
    lr_fail_closed_state r = (if lr_converged r then None else Some (lc_safe_state default_config))"
proof -
  have "fst (loop_observe switch_plant (snd (pl_clock switch_plant w))) = fst (loop_observe switch_plant w)"
    "fst (loop_observe switch_plant (snd (loop_observe switch_plant w))) = fst (loop_observe switch_plant w)" for w
    by (simp_all add: switch_plant_def loop_observe_def)
  from convergence_is_verified [OF this, of default_config False] show ?thesis .
qed

theorem stuck_loop_gives_up_witness:
  "\<exists>r w'. control_run default_config \<lparr>pl_observe = (\<lambda>w. (Inl OtherError, w)), pl_act = (\<lambda>w. (Inr (), w)), pl_clock = (\<lambda>w. (0, w))\<rparr> (0 :: nat) = Some (r, w') \<and>
     acts (lr_trace r) \<le> 2"
proof -
  define p :: "nat Plant" where "p = \<lparr>pl_observe = (\<lambda>w. (Inl OtherError, w)), pl_act = (\<lambda>w. (Inr (), w)), pl_clock = (\<lambda>w. (0, w))\<rparr>"
  have "fst (loop_observe p w) = PInf" for w by (simp add: p_def loop_observe_def)
  from stuck_loop_gives_up [OF this, of default_config 0] show ?thesis by (simp add: default_config_def p_def)
qed




end
