(* ===== verification/Envelope.thy ===== *)
theory Envelope
  imports Json_Canonical
begin

text \<open>
  \<open>automation/envelope.py\<close>: the event envelope. Random bytes, clock readings and fresh identifiers are
  arguments; sha256 is a parameter. A payload with fractions has no JSON text here (\<open>OtherError\<close>).
\<close>

unbundle bit_operations_syntax

section \<open>Identifiers\<close>

definition CROCKFORD :: string where
  "CROCKFORD = ''0123456789ABCDEFGHJKMNPQRSTVWXYZ''"

fun ulid_loop :: "nat \<Rightarrow> int \<Rightarrow> string" where
  "ulid_loop 0 v = []"
| "ulid_loop (Suc n) v = CROCKFORD ! nat (v AND 0x1F) # ulid_loop n (drop_bit 5 v)"

definition ulid :: "int \<Rightarrow> int \<Rightarrow> string" where
  "ulid now_ms rand = (let v = push_bit 80 (now_ms AND (push_bit 48 1 - 1)) OR rand in rev (ulid_loop 26 v))"

section \<open>The envelope\<close>

definition SCHEMA_VERSION :: string where "SCHEMA_VERSION = ''v1''"

definition EPISTEMIC_LEVELS :: "string list" where
  "EPISTEMIC_LEVELS = [''proved'', ''bounded'', ''empirical'', ''synthetic'', ''speculative'', ''rejected'']"

definition ENVELOPE_KEYS :: "string list" where
  "ENVELOPE_KEYS = [''message_id'', ''trace_id'', ''span_id'', ''emitted_at'', ''schema_version'', ''content_sha256'', ''epistemic_level'']"

definition VOLATILE_KEYS :: "string list" where
  "VOLATILE_KEYS = [''observed_at'', ''decided_at'', ''address'']"

definition content_hash :: "(bytes \<Rightarrow> bytes) \<Rightarrow> (string, pyval) dict \<Rightarrow> string result" where
  "content_hash sha payload = rbind (jval (VDict payload)) (\<lambda>j. Inr (seal_text sha (dumps (jsort j))))"

text \<open>What one call of \<open>stamp\<close> draws: a message id, a uuid, the span bytes in hex and the time.\<close>

record Fresh =
  fr_message_id :: string
  fr_uuid :: string
  fr_span :: string
  fr_now :: string

definition setdefault :: "('k, 'v) dict \<Rightarrow> 'k \<Rightarrow> 'v \<Rightarrow> ('k, 'v) dict" where
  "setdefault d k v = (if dget d k = None then dset d k v else d)"

definition semantic :: "(string, pyval) dict \<Rightarrow> (string, pyval) dict" where
  "semantic e = filter (\<lambda>p. fst p \<notin> set ENVELOPE_KEYS \<and> fst p \<notin> set VOLATILE_KEYS) e"

definition enveloped :: "Fresh \<Rightarrow> pyval \<Rightarrow> (string, pyval) dict \<Rightarrow> (string, pyval) dict" where
  "enveloped fr trace_id event =
     (let e1 = setdefault event ''message_id'' (VStr (fr_message_id fr));
          e2 = setdefault e1 ''trace_id'' (v_or trace_id (v_or (dgetdef e1 ''trace_id'' VNone) (VStr (fr_uuid fr))));
          e3 = setdefault e2 ''span_id'' (VStr (fr_span fr));
          e4 = setdefault e3 ''emitted_at'' (VStr (fr_now fr)) in
      setdefault e4 ''schema_version'' (VStr SCHEMA_VERSION))"

definition stamp :: "(bytes \<Rightarrow> bytes) \<Rightarrow> Fresh \<Rightarrow> pyval \<Rightarrow> (string, pyval) dict \<Rightarrow> (string, pyval) dict result" where
  "stamp sha fr trace_id event =
     (let e = enveloped fr trace_id event in
      rbind (content_hash sha (semantic e)) (\<lambda>h. Inr (dset e ''content_sha256'' (VStr h))))"

definition epistemic_level_for :: "(string, pyval) dict \<Rightarrow> string result" where
  "epistemic_level_for receipt =
     rbind (dict_or_empty (dgetdef receipt ''execution'' VNone)) (\<lambda>ex.
       Inr (if truthy (dgetdef ex ''rolled_back'' VNone) then ''rejected''
            else if truthy (dgetdef ex ''healed'' VNone) then ''proved''
            else if truthy (dgetdef ex ''quarantined'' VNone) then ''bounded''
            else if truthy (dgetdef ex ''proposed'' VNone) then ''synthetic''
            else if dgetdef receipt ''verdict'' VNone = VStr ''BOTTOM'' then ''speculative''
            else ''empirical''))"

section \<open>Identifiers are ordered by time\<close>

lemma crockford_less: "i < j \<Longrightarrow> j < 32 \<Longrightarrow> CROCKFORD ! i < CROCKFORD ! j"
proof -
  have "sorted_wrt (<) CROCKFORD" "length CROCKFORD = 32" by code_simp+
  then show "i < j \<Longrightarrow> j < 32 \<Longrightarrow> CROCKFORD ! i < CROCKFORD ! j" by (simp add: sorted_wrt_iff_nth_less)
qed

lemma low_bits: "v AND 0x1F = v mod 32" "drop_bit 5 v = v div 32" for v :: int
  using take_bit_eq_mask [of 5 v] by (simp_all add: take_bit_eq_mod mask_eq_exp_minus_1 drop_bit_eq_div)

lemma append_less_string: "(p :: string) @ a < p @ b \<longleftrightarrow> a < b"
  by (induction p) auto

lemma ulid_loop_less:
  "0 \<le> v \<Longrightarrow> v < w \<Longrightarrow> w < 32 ^ k \<Longrightarrow> rev (ulid_loop k v) @ x < rev (ulid_loop k w) @ y"
proof (induction k arbitrary: v w x y)
  case (Suc k)
  have "v div 32 \<le> w div 32" using Suc.prems by (simp add: zdiv_mono1)
  then consider "v div 32 < w div 32" | "v div 32 = w div 32" by linarith
  then show ?case
  proof cases
    case 1
    have "w div 32 < 32 ^ k" "0 \<le> v div 32" using Suc.prems by auto
    with Suc.IH [OF _ 1] show ?thesis by (simp add: low_bits del: drop_bit_int_def)
  next
    case 2
    then have "v mod 32 < w mod 32" using Suc.prems(2) by (metis add_less_cancel_left mult_div_mod_eq)
    moreover have "0 \<le> v mod 32" "w mod 32 < 32" by simp_all
    ultimately have "CROCKFORD ! nat (v mod 32) < CROCKFORD ! nat (w mod 32)" by (intro crockford_less) linarith+
    with 2 show ?thesis by (simp add: low_bits append_less_string)
  qed
qed simp

lemma ulid_value:
  assumes "0 \<le> t" "t < 2 ^ 48" "0 \<le> r" "r < 2 ^ 80"
  shows "push_bit 80 (t AND (push_bit 48 1 - 1)) OR r = t * 2 ^ 80 + (r :: int)"
proof -
  have "t AND (push_bit 48 1 - 1) = t"
    using assms(1,2) take_bit_eq_mask [of 48 t] take_bit_int_eq_self [of t 48]
    by (simp add: mask_eq_exp_minus_1 push_bit_eq_mult)
  moreover have "push_bit 80 t OR r = push_bit 80 t + r"
  proof (rule disjunctive_add [symmetric])
    have "take_bit 80 r = r" using assms(3,4) by (simp add: take_bit_int_eq_self)
    then show "\<not> bit (push_bit 80 t) n \<or> \<not> bit r n" for n
      by (metis bit_push_bit_iff bit_take_bit_iff not_le)
  qed
  ultimately show ?thesis by (simp add: push_bit_eq_mult)
qed

text \<open>
  Message ids sort by time. For two clock readings within the 48 bits of the format, the id made at
  the earlier millisecond is smaller as a string, whatever the random parts.
\<close>

theorem ulid_time_ordered:
  assumes "0 \<le> s" "s < t" "t < 2 ^ 48" "0 \<le> a" "a < 2 ^ 80" "0 \<le> b" "b < 2 ^ 80"
  shows "ulid s a < ulid t b"
proof -
  let ?v = "s * 2 ^ 80 + a" and ?w = "t * 2 ^ 80 + b"
  have "(s + 1) * 2 ^ 80 \<le> t * 2 ^ 80" using assms(2) by (intro mult_right_mono) simp_all
  then have "?v < ?w" using assms by (simp add: algebra_simps)
  moreover have "?w < 32 ^ 26"
  proof -
    have "(t + 1) * 2 ^ 80 \<le> 2 ^ 48 * 2 ^ 80" using assms(3) by (intro mult_right_mono) simp_all
    with assms(7) show ?thesis by simp
  qed
  moreover have "0 \<le> ?v" using assms by simp
  ultimately have "rev (ulid_loop 26 ?v) @ [] < rev (ulid_loop 26 ?w) @ []" by (intro ulid_loop_less)
  then show ?thesis using assms ulid_value [of s a] ulid_value [of t b] by (simp add: ulid_def)
qed

theorem ulid_time_ordered_witness: "ulid 1 (2 ^ 80 - 1) < ulid 2 0"
  by (rule ulid_time_ordered) simp_all

section \<open>Stamping\<close>

lemma dget_setdefault [simp]: "dget (setdefault d k v) k' = (if k = k' \<and> dget d k = None then Some v else dget d k')"
  by (auto simp: setdefault_def)

lemma setdefault_present: "dget d k \<noteq> None \<Longrightarrow> setdefault d k v = d"
  unfolding setdefault_def by (simp only: if_False)

lemma semantic_dset [simp]: "k \<in> set ENVELOPE_KEYS \<Longrightarrow> semantic (dset d k v) = semantic d"
  by (induction d k v rule: dset.induct) (auto simp: semantic_def)

lemma semantic_setdefault [simp]: "k \<in> set ENVELOPE_KEYS \<Longrightarrow> semantic (setdefault d k v) = semantic d"
  by (simp add: setdefault_def)

lemma semantic_enveloped: "semantic (enveloped fr tr e) = semantic e"
  by (simp add: enveloped_def Let_def ENVELOPE_KEYS_def)

lemma dset_same: "dget d k = Some v \<Longrightarrow> dset d k v = d"
  by (induction d k v rule: dset.induct) (auto split: if_splits)

text \<open>
  The content hash depends on the content only, and stamping is idempotent. Two events with the same
  semantic fields get the same hash whatever was drawn for their envelopes and whenever they were
  observed; and stamping a stamped event again, with other random draws, changes nothing.
\<close>

theorem stamp_stable:
  assumes "stamp sha fr tr e = Inr e'"
  shows "stamp sha fr' tr' e' = Inr e' \<and>
    (\<forall>f. semantic f = semantic e \<longrightarrow> (\<exists>f'. stamp sha fr' tr' f = Inr f' \<and> dget f' ''content_sha256'' = dget e' ''content_sha256''))"
proof -
  obtain h where h: "content_hash sha (semantic e) = Inr h" "e' = dset (enveloped fr tr e) ''content_sha256'' (VStr h)"
    using assms by (auto simp: stamp_def Let_def rbind_eq_Inr semantic_enveloped)
  have "dget e' ''message_id'' \<noteq> None" "dget e' ''trace_id'' \<noteq> None" "dget e' ''span_id'' \<noteq> None"
    "dget e' ''emitted_at'' \<noteq> None" "dget e' ''schema_version'' \<noteq> None"
    using h(2) by (simp_all add: enveloped_def Let_def)
  then have "enveloped fr' tr' e' = e'" by (simp only: enveloped_def Let_def setdefault_present not_False_eq_True)
  moreover have "semantic e' = semantic e" using h(2) by (simp add: semantic_enveloped ENVELOPE_KEYS_def)
  moreover have "dset e' ''content_sha256'' (VStr h) = e'" using h(2) by (intro dset_same) simp
  ultimately have "stamp sha fr' tr' e' = Inr e'" using h(1) by (simp add: stamp_def)
  moreover have "\<exists>f'. stamp sha fr' tr' f = Inr f' \<and> dget f' ''content_sha256'' = dget e' ''content_sha256''" if "semantic f = semantic e" for f
    using that h by (simp add: stamp_def semantic_enveloped)
  ultimately show ?thesis by blast
qed

theorem stamp_stable_witness:
  "\<exists>e'. stamp id \<lparr>fr_message_id = ''m'', fr_uuid = ''u'', fr_span = ''s'', fr_now = ''n''\<rparr> VNone [(''kind'', VStr ''drift'')] = Inr e' \<and>
     stamp id \<lparr>fr_message_id = ''x'', fr_uuid = ''x'', fr_span = ''x'', fr_now = ''x''\<rparr> VNone e' = Inr e'"
proof -
  have "\<exists>e'. stamp id \<lparr>fr_message_id = ''m'', fr_uuid = ''u'', fr_span = ''s'', fr_now = ''n''\<rparr> VNone [(''kind'', VStr ''drift'')] = Inr e'"
    unfolding stamp_def Let_def semantic_enveloped by (simp add: content_hash_def semantic_def ENVELOPE_KEYS_def VOLATILE_KEYS_def)
  then obtain e' where e: "stamp id \<lparr>fr_message_id = ''m'', fr_uuid = ''u'', fr_span = ''s'', fr_now = ''n''\<rparr> VNone [(''kind'', VStr ''drift'')] = Inr e'"
    by blast
  from stamp_stable [OF e] e show ?thesis by blast
qed

end
