(* ===== verification/Responder.thy ===== *)
theory Responder
  imports Response_Policy Semantic_Algebra Control_Loop Envelope
begin

text \<open>
  \<open>automation/responder.py\<close>: the reasoned responder. A beacon is a dict; floats are exact. The reason
  of a decision is a value, and \<open>why\<close> gives its wording. Executors, the invariants of the control loop
  and the graph sink act on a world of any type and are arguments, as are clock readings and fresh ids.
\<close>

type_synonym beacon = "(string, pyval) dict"
type_synonym receipt = "(string, pyval) dict"

section \<open>Evidence and gates\<close>

definition EXECUTORS :: "(string \<times> string, string) dict" where
  "EXECUTORS = [((''mirror_drift'', ''auto_fix''), ''resync_mirror_drift''), ((''vendored_graph_drift'', ''auto_fix''), ''reconcile_vendored_graph'')]"

definition ACTION_EXECUTORS :: "(string, string) dict" where
  "ACTION_EXECUTORS = [(''propose_pr'', ''propose_pr''), (''canary_fix'', ''canary_fix''), (''quarantine'', ''quarantine'')]"

definition evidence_verdict :: "beacon \<Rightarrow> string option result" where
  "evidence_verdict b =
     rbind (dict_or_empty (dgetdef b ''evidence'' VNone)) (\<lambda>w.
       let has = (\<lambda>k. truthy (dgetdef w k VNone)) in
       Inr (if has ''detector'' \<and> has ''reproducible'' \<and> \<not> has ''stale'' then Some ''sealed''
            else if has ''detector'' then Some ''probable''
            else if has ''signal'' then Some ''weak''
            else None))"

definition compute_iri :: "beacon \<Rightarrow> pyfloat result" where
  "compute_iri b =
     rbind (v_float (dgetdef b ''entropy_uniqueness'' (VFloat (Fin 0)))) (\<lambda>e.
     rbind (v_float (dgetdef b ''injection_normativity'' (VFloat (Fin 0)))) (\<lambda>inj.
     rbind (v_float (dgetdef b ''consent_credits'' (VFloat (Fin 0)))) (\<lambda>cc.
       Inr (flt_max (Fin 0) (flt_sub (flt_add (flt_scale (45 / 100) e) (flt_scale (45 / 100) inj)) (flt_scale (20 / 100) cc))))))"

definition axis_breached :: "(string, pyval) dict \<Rightarrow> pyval \<Rightarrow> bool result" where
  "axis_breached plan ax =
     rbind (get_by_value plan ax (VFloat (Fin 0))) (\<lambda>v. rbind (v_float v) (\<lambda>f. Inr (flt_le (Fin 1) f)))"

definition boundary_breaches :: "beacon \<Rightarrow> pyval list \<Rightarrow> pyval list result" where
  "boundary_breaches b axes =
     rbind (dict_or_empty (dgetdef b ''plan'' VNone)) (\<lambda>plan.
       rfold (\<lambda>ax out. rbind (axis_breached plan ax) (\<lambda>hit. Inr (if hit then out @ [ax] else out)))
         (if axes = [] then boundary_axes DEFAULT_POLICY else axes) [])"

fun evidence_weight :: "string option \<Rightarrow> nat" where
  "evidence_weight None = 0"
| "evidence_weight (Some v) = (if v = ''weak'' then 1 else if v = ''probable'' then 2 else if v = ''sealed'' then 3 else 0)"

definition beacon_weight :: "beacon \<Rightarrow> nat result" where
  "beacon_weight b = rbind (evidence_verdict b) (\<lambda>v. Inr (evidence_weight v))"

definition compose_evidence :: "beacon list \<Rightarrow> string option result" where
  "compose_evidence beacons =
     rbind (rmap beacon_weight beacons) (\<lambda>ws.
       let t = sum_list ws in
       Inr (if t = 0 then None else if t \<ge> 3 then Some ''sealed'' else if t = 2 then Some ''probable'' else Some ''weak''))"

definition kernel_meet :: "pyval list \<Rightarrow> string result" where
  "kernel_meet vs =
     (if \<not> list_all is_str vs then Inl ValueError
      else rbind (meet (map (\<lambda>v. case v of VStr s \<Rightarrow> Some s | _ \<Rightarrow> None) vs)) (\<lambda>r.
        case r of Some v \<Rightarrow> Inr v | None \<Rightarrow> Inl ValueError))"

definition beacon_kind :: "beacon \<Rightarrow> pyval" where
  "beacon_kind b = dgetdef b ''kind_class'' (VStr ''unknown'')"

definition effective_law :: "beacon list \<Rightarrow> ResponsePolicy \<Rightarrow> pyval result" where
  "effective_law beacons p =
     rbind (rmap (\<lambda>b. law_for p (beacon_kind b)) beacons) (\<lambda>laws.
       if laws = [] then Inr (default_law p) else rbind (kernel_meet laws) (\<lambda>v. Inr (VStr v)))"

section \<open>Receipts\<close>

datatype decide_reason =
    BoundaryBreached "pyval list"
  | IriBlocked pyfloat pyfloat
  | NoEvidence
  | Reasoned pyval string string pyfloat "pyval list"

definition make_receipt :: "(decide_reason \<Rightarrow> string) \<Rightarrow> string \<Rightarrow> beacon \<Rightarrow> string \<Rightarrow> pyval \<Rightarrow> decide_reason \<Rightarrow> receipt result" where
  "make_receipt why decided_at b verdict action reason =
     rbind (v_text (dgetdef b ''system'' (VStr ''unknown''))) (\<lambda>system.
     rbind (sa_check \<lparr>sa_term = Some (Prim SND), sa_iri = Some (''system://'' @ system), sa_inference = ''abduced'', sa_mood = ''assert'',
                      sa_confidence = None, sa_evidence_ref = dgetdef b ''evidence_ref'' VNone, sa_valid_from = None, sa_valid_until = None,
                      sa_revocation_ref = None, sa_lexicon = None\<rparr>) (\<lambda>addr.
     let receipt = [(''beacon_kind'', beacon_kind b), (''verdict'', VStr verdict), (''action'', action), (''reason'', VStr (why reason)),
                    (''address'', VDict (sa_to_json addr)), (''decided_at'', VStr decided_at)];
         detail = dgetdef b ''detail'' VNone in
     Inr (if detail \<noteq> VNone then receipt @ [(''detail'', detail)] else receipt)))"

definition signal_json :: "beacon \<Rightarrow> pyval result" where
  "signal_json b =
     rbind (evidence_verdict b) (\<lambda>v.
       Inr (VDict [(''kind_class'', dgetdef b ''kind_class'' VNone), (''system'', dgetdef b ''system'' VNone), (''evidence'', opt_str v)]))"

definition compose_receipt ::
    "(bytes \<Rightarrow> bytes) \<Rightarrow> (decide_reason \<Rightarrow> string) \<Rightarrow> Fresh \<Rightarrow> string \<Rightarrow> beacon \<Rightarrow> beacon list \<Rightarrow> string \<Rightarrow> pyval \<Rightarrow> decide_reason \<Rightarrow> receipt result" where
  "compose_receipt sha why fr decided_at primary beacons verdict action reason =
     rbind (make_receipt why decided_at primary verdict action reason) (\<lambda>r0.
     rbind (if 1 < length beacons
            then rbind (rmap signal_json beacons) (\<lambda>js.
              Inr (dset (dset r0 ''composed_from'' (VList js)) ''n_signals'' (VInt (int (length beacons)))))
            else Inr r0) (\<lambda>r1.
     rbind (stamp sha fr (dgetdef primary ''trace_id'' VNone) r1) (\<lambda>r2.
     rbind (epistemic_level_for r2) (\<lambda>level. Inr (dset r2 ''epistemic_level'' (VStr level))))))"

section \<open>The decision\<close>

text \<open>\<open>max(beacons, key=...)\<close>: the first beacon of the greatest weight.\<close>

definition heaviest :: "(nat \<times> beacon) list \<Rightarrow> beacon" where
  "heaviest wbs =
     (case wbs of
        [] \<Rightarrow> []
      | wb # rest \<Rightarrow> snd (fold (\<lambda>x best. if fst best < fst x then x else best) rest wb))"

definition primary_beacon :: "beacon list \<Rightarrow> beacon result" where
  "primary_beacon beacons = rbind (rmap beacon_weight beacons) (\<lambda>ws. Inr (heaviest (zip ws beacons)))"

text \<open>\<open>sorted\<close> of a set of kinds: it raises if they cannot be compared.\<close>

definition comparable :: "pyval list \<Rightarrow> bool" where
  "comparable ks \<longleftrightarrow> list_all is_str ks \<or> list_all (\<lambda>k. num_of k \<noteq> None) ks \<or> list_all (\<lambda>k. k = VNone) ks"

text \<open>The steps of a decision, in order: boundary fence, identity-risk gate, composed evidence and law.\<close>

definition law_step ::
    "(string \<Rightarrow> pyval \<Rightarrow> decide_reason \<Rightarrow> receipt result) \<Rightarrow> ResponsePolicy \<Rightarrow> beacon list \<Rightarrow> pyfloat \<Rightarrow> receipt result" where
  "law_step settle p beacons iri =
     rbind (compose_evidence beacons) (\<lambda>ev.
     case ev of
       None \<Rightarrow> settle ''BOTTOM'' (VStr ''escalate_human'') NoEvidence
     | Some e \<Rightarrow>
         rbind (effective_law beacons p) (\<lambda>law.
         rbind (kernel_meet [law, VStr e]) (\<lambda>verdict.
         let action = action_for p verdict; kinds = map beacon_kind beacons in
         if 1 < length beacons \<and> \<not> comparable kinds then Inl TypeError
         else settle verdict action (Reasoned law e verdict iri kinds))))"

definition max_iri :: "pyfloat list \<Rightarrow> pyfloat" where
  "max_iri iris = (case iris of [] \<Rightarrow> Fin 0 | f # fs \<Rightarrow> fold (\<lambda>x m. flt_max m x) fs f)"

definition iri_step ::
    "(string \<Rightarrow> pyval \<Rightarrow> decide_reason \<Rightarrow> receipt result) \<Rightarrow> ResponsePolicy \<Rightarrow> beacon list \<Rightarrow> receipt result" where
  "iri_step settle p beacons =
     rbind (rmap compute_iri beacons) (\<lambda>iris.
     let iri = max_iri iris in
     if flt_le (iri_block p) iri then settle ''BOTTOM'' (VStr ''escalate_human'') (IriBlocked iri (iri_block p))
     else law_step settle p beacons iri)"

definition decide_composed ::
    "(bytes \<Rightarrow> bytes) \<Rightarrow> (decide_reason \<Rightarrow> string) \<Rightarrow> Fresh \<Rightarrow> string \<Rightarrow> ResponsePolicy \<Rightarrow> beacon list \<Rightarrow> receipt result" where
  "decide_composed sha why fr decided_at p beacons =
     rbind (primary_beacon beacons) (\<lambda>primary.
     let settle = compose_receipt sha why fr decided_at primary beacons in
     rbind (rmap (\<lambda>b. boundary_breaches b (boundary_axes p)) beacons) (\<lambda>hits.
     if concat hits \<noteq> [] then settle ''BOTTOM'' (VStr ''escalate_human'') (BoundaryBreached (concat hits))
     else iri_step settle p beacons))"

definition decide ::
    "(bytes \<Rightarrow> bytes) \<Rightarrow> (decide_reason \<Rightarrow> string) \<Rightarrow> Fresh \<Rightarrow> string \<Rightarrow> ResponsePolicy \<Rightarrow> beacon \<Rightarrow> receipt result" where
  "decide sha why fr decided_at p b = decide_composed sha why fr decided_at p [b]"

section \<open>Execution\<close>

text \<open>
  What the responder calls: the executors by name, the invariants of the control loop by failure class,
  its clock, the texts of exceptions and of a loop result, and the optional graph sink.
\<close>

record 'w Actuators =
  ac_executor :: "string \<Rightarrow> beacon \<Rightarrow> 'w \<Rightarrow> pyval result \<times> 'w"
  ac_invariant :: "string \<Rightarrow> ('w \<Rightarrow> pyval result \<times> 'w) option"
  ac_clock :: "'w \<Rightarrow> rat \<times> 'w"
  ac_exn_text :: "exn \<Rightarrow> string"
  ac_loop_text :: "LoopResult \<Rightarrow> (string, pyval) dict"
  ac_emit :: "(receipt \<Rightarrow> beacon list \<Rightarrow> 'w \<Rightarrow> unit result \<times> 'w) option"

definition executor_for :: "pyval \<Rightarrow> pyval \<Rightarrow> string option result" where
  "executor_for kind action =
     (if \<not> v_hashable kind \<or> \<not> v_hashable action then Inl TypeError
      else Inr (case (kind, action) of
                  (VStr k, VStr a) \<Rightarrow> (case dget EXECUTORS (k, a) of Some f \<Rightarrow> Some f | None \<Rightarrow> dget ACTION_EXECUTORS a)
                | (_, VStr a) \<Rightarrow> dget ACTION_EXECUTORS a
                | _ \<Rightarrow> None))"

text \<open>The loop result as a dict; \<open>ac_loop_text\<close> gives the entries that hold figures, trace and reason.\<close>

definition loop_outcome :: "((string, pyval) dict) \<Rightarrow> string \<Rightarrow> LoopResult \<Rightarrow> (string, pyval) dict" where
  "loop_outcome texts fn r =
     dset (setdefault (dset (dset texts ''converged'' (VBool (lr_converged r))) ''mode'' (VStr ''auto_fix'')) ''executor'' (VStr fn))
       ''healed'' (VBool (lr_converged r))"

definition run_executor ::
    "'w Actuators \<Rightarrow> beacon \<Rightarrow> pyval \<Rightarrow> pyval \<Rightarrow> string \<Rightarrow> 'w \<Rightarrow> (pyval result \<times> 'w) option" where
  "run_executor ac b kind action fn w =
     (let closed = (case (kind, action) of (VStr k, VStr a) \<Rightarrow> dget EXECUTORS (k, a) \<noteq> None \<and> a = ''auto_fix'' \<and> ac_invariant ac k \<noteq> None | _ \<Rightarrow> False) in
      if closed then
        (case heal (case kind of VStr k \<Rightarrow> ac_invariant ac k | _ \<Rightarrow> None) (ac_executor ac fn b) (ac_clock ac) (\<lambda>c. c) w of
           Inl e \<Rightarrow> Some (Inl e, w)
         | Inr None \<Rightarrow> None
         | Inr (Some (r, w')) \<Rightarrow> Some (Inr (VDict (loop_outcome (ac_loop_text ac r) fn r)), w'))
      else (case ac_executor ac fn b w of
              (Inr outcome, w') \<Rightarrow> Some (Inr outcome, w')
            | (Inl e, w') \<Rightarrow>
                Some (Inr (VDict [(''executor'', VStr fn), (''healed'', VBool False), (''proposed'', VBool False), (''error'', VStr (ac_exn_text ac e))]), w')))"

definition record_outcome :: "string \<Rightarrow> receipt \<Rightarrow> pyval \<Rightarrow> receipt result" where
  "record_outcome fn r outcome =
     rbind (resolved_outcome outcome) (\<lambda>ok.
     let r1 = dset r ''execution'' outcome in
     rbind (if ok then Inr r1
            else rbind (v_text (dgetdef r1 ''reason'' (VStr []))) (\<lambda>reason.
              Inr (dset (dset r1 ''action'' (VStr ''escalate_human'')) ''reason'' (VStr (reason @ '' | executor '' @ [CHR 0x27] @ fn @ [CHR 0x27] @ '' did not resolve''))))) (\<lambda>r2.
     rbind (epistemic_level_for r2) (\<lambda>level. Inr (dset r2 ''epistemic_level'' (VStr level)))))"

definition execute :: "'w Actuators \<Rightarrow> beacon \<Rightarrow> receipt \<Rightarrow> 'w \<Rightarrow> (receipt result \<times> 'w) option" where
  "execute ac b r w =
     (let kind = dgetdef b ''kind_class'' VNone; action = dgetdef r ''action'' VNone in
      case executor_for kind action of
        Inl e \<Rightarrow> Some (Inl e, w)
      | Inr None \<Rightarrow> Some (Inr r, w)
      | Inr (Some fn) \<Rightarrow>
          (case run_executor ac b kind action fn w of
             None \<Rightarrow> None
           | Some (Inl e, w') \<Rightarrow> Some (Inl e, w')
           | Some (Inr outcome, w') \<Rightarrow> Some (record_outcome fn r outcome, w')))"

section \<open>One pass\<close>

text \<open>
  Draining the inbox. Call \<open>i\<close> of the suppressor reads the clock \<open>nows i\<close>. The suppressor is optional and
  is its state file.
\<close>

lemma dq_get_shrinks: "\<not> dq_empty q \<Longrightarrow> dq_size (snd (dq_get q)) < dq_size q"
proof -
  assume "\<not> dq_empty q"
  then obtain p ps where p: "dq_pending q = p # ps" unfolding dq_empty_def by (cases "dq_pending q") auto
  then have "p \<in> set (dkeys q)" using set_dq_pending [of q] by auto
  then obtain content where "dget q p = Some content" using dget_None_iff [of q p] by auto
  then have "snd (dq_get q) = ddel (ddel q p) (claim_name p)" by (simp add: dq_get_def p ddel_dset)
  moreover have "length (filter P (filter (\<lambda>x. x \<noteq> p) (p # ps))) < length (p # ps)" for P
    by (simp add: less_Suc_eq_le)
  ultimately show ?thesis by (simp add: dq_size_def pending_ddel p)
qed

function drain ::
    "(nat \<Rightarrow> rat) \<Rightarrow> pyfloat \<Rightarrow> nat \<Rightarrow> pyval result option \<Rightarrow> pyval list \<Rightarrow> dq \<Rightarrow> pyval list result \<times> pyval result option \<times> dq" where
  "drain nows c i sf acc q =
     (if dq_empty q then (Inr acc, sf, q)
      else case fst (dq_get q) of
             Inl e \<Rightarrow> (Inr acc, sf, snd (dq_get q))
           | Inr b \<Rightarrow>
               (case sf of
                  None \<Rightarrow> drain nows c i sf (acc @ [b]) (snd (dq_get q))
                | Some st \<Rightarrow>
                    (case rbind (fingerprint b) (\<lambda>fp. should_process st fp c (nows i)) of
                       Inl e \<Rightarrow> (Inl e, sf, snd (dq_get q))
                     | Inr (keep, st') \<Rightarrow> drain nows c (Suc i) (Some st') (if keep then acc @ [b] else acc) (snd (dq_get q)))))"
  by pat_completeness auto
termination by (relation "measure (\<lambda>(_, _, _, _, _, q). dq_size q)") (auto intro: dq_get_shrinks)

declare drain.simps [simp del]

definition add_to_group :: "pyval \<Rightarrow> (string, beacon list) dict \<Rightarrow> (string, beacon list) dict result" where
  "add_to_group v groups =
     (case v of
        VDict b \<Rightarrow> rbind (v_text (dgetdef b ''system'' (VStr ''unknown''))) (\<lambda>s. Inr (dset groups s (dgetdef groups s [] @ [b])))
      | _ \<Rightarrow> Inl AttributeError)"

definition group_by_system :: "pyval list \<Rightarrow> (string, beacon list) dict result" where
  "group_by_system survivors = rfold add_to_group survivors []"

text \<open>The state of a pass: the receipts decided so far, the decisions queue and the world.\<close>

record 'w pass_state =
  ps_out :: "receipt list"
  ps_decisions :: dq
  ps_world :: 'w

record pass_args =
  pa_sha :: "bytes \<Rightarrow> bytes"
  pa_why :: "decide_reason \<Rightarrow> string"
  pa_fresh :: "nat \<Rightarrow> Fresh"
  pa_decided_at :: "nat \<Rightarrow> string"
  pa_ids :: "nat \<Rightarrow> nat \<times> string"
  pa_policy :: ResponsePolicy
  pa_execute :: bool

definition settle_group :: "pass_args \<Rightarrow> 'w Actuators \<Rightarrow> nat \<Rightarrow> beacon list \<Rightarrow> 'w \<Rightarrow> (receipt result \<times> 'w) option" where
  "settle_group a ac n grp w =
     (case decide_composed (pa_sha a) (pa_why a) (pa_fresh a n) (pa_decided_at a n) (pa_policy a) grp of
        Inl e \<Rightarrow> Some (Inl e, w)
      | Inr r \<Rightarrow>
          if pa_execute a then
            (case primary_beacon grp of Inl e \<Rightarrow> Some (Inl e, w) | Inr primary \<Rightarrow> execute ac primary r w)
          else Some (Inr r, w))"

definition emit_graph_upsert :: "'w Actuators \<Rightarrow> receipt \<Rightarrow> beacon list \<Rightarrow> 'w \<Rightarrow> unit result \<times> 'w" where
  "emit_graph_upsert ac r grp w = (case ac_emit ac of None \<Rightarrow> (Inr (), w) | Some emit \<Rightarrow> emit r grp w)"

fun decide_groups :: "pass_args \<Rightarrow> 'w Actuators \<Rightarrow> nat \<Rightarrow> beacon list list \<Rightarrow> 'w pass_state \<Rightarrow> (unit result \<times> 'w pass_state) option" where
  "decide_groups a ac n [] s = Some (Inr (), s)"
| "decide_groups a ac n (grp # groups) s =
     (case settle_group a ac n grp (ps_world s) of
        None \<Rightarrow> None
      | Some (Inl e, w) \<Rightarrow> Some (Inl e, s\<lparr>ps_world := w\<rparr>)
      | Some (Inr r, w) \<Rightarrow>
          (case emit_graph_upsert ac r grp w of
             (Inl e, w') \<Rightarrow> Some (Inl e, s\<lparr>ps_world := w'\<rparr>)
           | (Inr u, w') \<Rightarrow>
               decide_groups a ac (Suc n) groups
                 \<lparr>ps_out = ps_out s @ [r], ps_decisions = snd (dq_put (fst (pa_ids a n)) (snd (pa_ids a n)) (ps_decisions s) (VDict r)), ps_world = w'\<rparr>))"

record 'w pass_result =
  pr_receipts :: "receipt list result"
  pr_inbox :: dq
  pr_decisions :: dq
  pr_suppressor :: "pyval result option"
  pr_world :: 'w

definition run_once ::
    "pass_args \<Rightarrow> 'w Actuators \<Rightarrow> (nat \<Rightarrow> rat) \<Rightarrow> dq \<Rightarrow> dq \<Rightarrow> pyval result option \<Rightarrow> 'w \<Rightarrow> 'w pass_result option" where
  "run_once a ac nows inbox decisions sf w =
     (let (survivors, sf', inbox') = drain nows (suppression_cooldown_seconds (pa_policy a)) 0 sf [] inbox in
      case rbind survivors group_by_system of
        Inl e \<Rightarrow> Some \<lparr>pr_receipts = Inl e, pr_inbox = inbox', pr_decisions = decisions, pr_suppressor = sf', pr_world = w\<rparr>
      | Inr groups \<Rightarrow>
          (case decide_groups a ac 0 (map snd groups) \<lparr>ps_out = [], ps_decisions = decisions, ps_world = w\<rparr> of
             None \<Rightarrow> None
           | Some (res, s) \<Rightarrow>
               Some \<lparr>pr_receipts = rbind res (\<lambda>_. Inr (ps_out s)), pr_inbox = inbox', pr_decisions = ps_decisions s, pr_suppressor = sf',
                     pr_world = ps_world s\<rparr>))"

section \<open>What a decision rests on\<close>

lemma dget_enveloped: "k \<notin> set ENVELOPE_KEYS \<Longrightarrow> dget (enveloped fr tr e) k = dget e k"
  by (auto simp: enveloped_def Let_def ENVELOPE_KEYS_def)

lemma stamp_keeps: "stamp sha fr tr e = Inr e' \<Longrightarrow> k \<notin> set ENVELOPE_KEYS \<Longrightarrow> dget e' k = dget e k"
  using dget_enveloped [of k fr tr e] by (auto simp: stamp_def Let_def rbind_eq_Inr ENVELOPE_KEYS_def)

lemma compose_receipt_fields:
  assumes "compose_receipt sha why fr t primary beacons verdict action reason = Inr r"
  shows "dget r ''verdict'' = Some (VStr verdict)" "dget r ''action'' = Some action"
proof -
  obtain r0 r1 r2 level where r: "make_receipt why t primary verdict action reason = Inr r0"
    "(if 1 < length beacons then rbind (rmap signal_json beacons) (\<lambda>js.
        Inr (dset (dset r0 ''composed_from'' (VList js)) ''n_signals'' (VInt (int (length beacons))))) else Inr r0) = Inr r1"
    "stamp sha fr (dgetdef primary ''trace_id'' VNone) r1 = Inr r2" "r = dset r2 ''epistemic_level'' (VStr level)"
    using assms unfolding compose_receipt_def by (elim rbindE) (auto intro: that)
  have r0: "dget r0 ''verdict'' = Some (VStr verdict)" "dget r0 ''action'' = Some action"
    using r(1) by (auto simp: make_receipt_def rbind_eq_Inr Let_def split: if_splits)
  have r1: "dget r1 k = dget r0 k" if "k = ''verdict'' \<or> k = ''action''" for k
    using r(2) that by (auto simp: rbind_eq_Inr split: if_splits)
  have r2: "dget r2 k = dget r1 k" if "k = ''verdict'' \<or> k = ''action''" for k
    using stamp_keeps [OF r(3), of k] that by (auto simp: ENVELOPE_KEYS_def)
  show "dget r ''verdict'' = Some (VStr verdict)" "dget r ''action'' = Some action"
    using r(4) r2 [of "''verdict''"] r2 [of "''action''"] r1 [of "''verdict''"] r1 [of "''action''"] r0 by simp_all
qed

lemma kernel_meet_bound:
  assumes "kernel_meet vs = Inr v"
  shows "\<forall>x \<in> set vs. \<exists>s. x = VStr s \<and> s \<in> set VERDICT_ORDER \<and> verdict_rank v \<le> verdict_rank s" "v \<in> set VERDICT_ORDER"
proof -
  have strs: "list_all is_str vs" using assms by (auto simp: kernel_meet_def split: if_splits)
  define ss where "ss = map (\<lambda>v. case v of VStr s \<Rightarrow> s | _ \<Rightarrow> []) vs"
  have vs: "vs = map VStr ss" using strs unfolding ss_def by (induction vs) (auto simp: is_str_def split: pyval.splits)
  then have "meet (map Some ss) = Inr (Some v)"
    using assms strs by (auto simp: kernel_meet_def rbind_eq_Inr comp_def split: option.splits)
  then have m: "ss \<noteq> []" "set ss \<subseteq> set VERDICT_ORDER" "v = arg_min_list verdict_rank ss" by (simp_all add: meet_Some)
  with arg_min_list_least [OF m(1), of verdict_rank] vs
  show "\<forall>x \<in> set vs. \<exists>s. x = VStr s \<and> s \<in> set VERDICT_ORDER \<and> verdict_rank v \<le> verdict_rank s" "v \<in> set VERDICT_ORDER" by auto
qed

lemma compute_iri_number: "compute_iri b = Inr f \<Longrightarrow> f \<noteq> NaN"
  unfolding compute_iri_def by (elim rbindE) (auto simp: flt_max_def split: if_splits)

lemma flt_max_below:
  assumes "a \<noteq> NaN" "b \<noteq> NaN" "\<not> flt_le (Fin q) (flt_max a b)"
  shows "\<not> flt_le (Fin q) a \<and> \<not> flt_le (Fin q) b" "flt_max a b \<noteq> NaN"
  using assms by (cases a; cases b; auto simp: flt_max_def flt_le_def split: if_splits)+

lemma fold_max_below:
  assumes "\<not> flt_le (Fin q) (fold (\<lambda>x m. flt_max m x) fs f)" "f \<noteq> NaN" "NaN \<notin> set fs"
  shows "\<forall>x \<in> set (f # fs). \<not> flt_le (Fin q) x"
  using assms
proof (induction fs arbitrary: f)
  case (Cons g fs)
  have n: "flt_max f g \<noteq> NaN" using Cons.prems by (auto simp: flt_max_def)
  have "\<forall>x \<in> set (flt_max f g # fs). \<not> flt_le (Fin q) x" using Cons.prems n by (intro Cons.IH) auto
  with flt_max_below(1) [of f g q] Cons.prems show ?case by auto
qed simp

lemma not_le_less: "f \<noteq> NaN \<Longrightarrow> \<not> flt_le (Fin q) f \<Longrightarrow> flt_less f (Fin q)"
  by (cases f) (auto simp: flt_le_def)

text \<open>A decision that is not an escalation, with everything it rests on.\<close>

definition escalates :: "receipt \<Rightarrow> bool" where
  "escalates r \<longleftrightarrow> dget r ''verdict'' = Some (VStr ''BOTTOM'') \<and> dget r ''action'' = Some (VStr ''escalate_human'')"

definition settled :: "ResponsePolicy \<Rightarrow> beacon list \<Rightarrow> receipt \<Rightarrow> bool" where
  "settled p beacons r \<longleftrightarrow>
     (\<exists>e law v. compose_evidence beacons = Inr (Some e) \<and> effective_law beacons p = Inr law \<and> kernel_meet [law, VStr e] = Inr v \<and>
        dget r ''verdict'' = Some (VStr v) \<and> dget r ''action'' = Some (action_for p v))"

lemma law_step_cases:
  assumes "law_step (compose_receipt sha why fr t primary beacons) p beacons iri = Inr r"
  shows "escalates r \<or> settled p beacons r"
proof -
  obtain ev where ev: "compose_evidence beacons = Inr ev" using assms unfolding law_step_def by (elim rbindE)
  show ?thesis
  proof (cases ev)
    case None
    with ev assms compose_receipt_fields show ?thesis by (auto simp: law_step_def escalates_def)
  next
    case (Some e)
    obtain law where law: "effective_law beacons p = Inr law" using assms ev Some unfolding law_step_def by (auto elim: rbindE)
    obtain v where v: "kernel_meet [law, VStr e] = Inr v" using assms ev Some law unfolding law_step_def by (auto elim: rbindE)
    have "compose_receipt sha why fr t primary beacons v (action_for p v) (Reasoned law e v iri (map beacon_kind beacons)) = Inr r"
      using assms ev Some law v by (auto simp: law_step_def Let_def split: if_splits)
    from compose_receipt_fields [OF this] ev Some law v show ?thesis by (auto simp: settled_def)
  qed
qed

lemma decide_cases:
  assumes "decide_composed sha why fr t p beacons = Inr r"
  obtains (escalate) "escalates r"
  | (settle) hits iris where "rmap (\<lambda>b. boundary_breaches b (boundary_axes p)) beacons = Inr hits" "concat hits = []"
    "rmap compute_iri beacons = Inr iris" "\<not> flt_le (iri_block p) (max_iri iris)" "settled p beacons r"
proof -
  obtain primary hits where hits: "rmap (\<lambda>b. boundary_breaches b (boundary_axes p)) beacons = Inr hits"
    "(if concat hits \<noteq> [] then compose_receipt sha why fr t primary beacons ''BOTTOM'' (VStr ''escalate_human'') (BoundaryBreached (concat hits))
      else iri_step (compose_receipt sha why fr t primary beacons) p beacons) = Inr r"
    using assms unfolding decide_composed_def Let_def by (elim rbindE)
  show thesis
  proof (cases "concat hits = []")
    case False
    then have "escalates r" using compose_receipt_fields hits(2) unfolding escalates_def by (metis (full_types))
    then show thesis by (rule escalate)
  next
    case True
    have step: "iri_step (compose_receipt sha why fr t primary beacons) p beacons = Inr r" using hits(2) True by metis
    then obtain iris where iris: "rmap compute_iri beacons = Inr iris" unfolding iri_step_def by (elim rbindE)
    show thesis
    proof (cases "flt_le (iri_block p) (max_iri iris)")
      case True
      then have "escalates r" using step iris compose_receipt_fields by (auto simp: iri_step_def Let_def escalates_def)
      then show thesis by (rule escalate)
    next
      case False
      then have "law_step (compose_receipt sha why fr t primary beacons) p beacons (max_iri iris) = Inr r"
        using step iris by (simp add: iri_step_def Let_def)
      from law_step_cases [OF this] escalate settle [OF hits(1) True iris False] show thesis by blast
    qed
  qed
qed

lemma effective_law_bound:
  assumes "effective_law beacons p = Inr law" "kernel_meet [law, VStr e] = Inr v" "b \<in> set beacons"
  shows "\<exists>l. law_for p (beacon_kind b) = Inr (VStr l) \<and> verdict_rank v \<le> verdict_rank l"
proof -
  obtain laws where laws: "rmap (\<lambda>b. law_for p (beacon_kind b)) beacons = Inr laws"
    "(if laws = [] then Inr (default_law p) else rbind (kernel_meet laws) (\<lambda>v. Inr (VStr v))) = Inr law"
    using assms(1) unfolding effective_law_def by (elim rbindE)
  obtain x where x: "x \<in> set laws" "law_for p (beacon_kind b) = Inr x" using rmap_value [OF laws(1) assms(3)] by blast
  then obtain m where m: "kernel_meet laws = Inr m" "law = VStr m" using laws(2) by (auto simp: rbind_eq_Inr split: if_splits)
  from kernel_meet_bound(1) [OF m(1)] x obtain l where "x = VStr l" "verdict_rank m \<le> verdict_rank l" by blast
  moreover have "verdict_rank v \<le> verdict_rank m" using kernel_meet_bound(1) [OF assms(2)] m(2) by auto
  ultimately show ?thesis using x(2) by auto
qed

text \<open>
  C32: The responder never acts beyond law and evidence. Under a validated policy, every decision is
  either an escalation to a human, or: no beacon of the subject breaches a boundary axis, every beacon
  is below the identity-risk threshold, the verdict is at most the law of every failure class present
  and at most the composed evidence, and the action is the one the policy gives to that verdict.
\<close>

theorem responder_within_law:
  assumes "decide_composed sha why fr t p beacons = Inr r" "validate_policy p = Inr ()"
  shows "(dget r ''verdict'' = Some (VStr ''BOTTOM'') \<and> dget r ''action'' = Some (VStr ''escalate_human'')) \<or>
    (\<exists>v e. dget r ''verdict'' = Some (VStr v) \<and> dget r ''action'' = Some (action_for p v) \<and>
       compose_evidence beacons = Inr (Some e) \<and> verdict_rank v \<le> verdict_rank e \<and>
       list_all (\<lambda>b. boundary_breaches b (boundary_axes p) = Inr [] \<and>
         (\<exists>f. compute_iri b = Inr f \<and> flt_less f (iri_block p)) \<and>
         (\<exists>l. law_for p (beacon_kind b) = Inr (VStr l) \<and> verdict_rank v \<le> verdict_rank l)) beacons)"
  using assms(1)
proof (cases rule: decide_cases)
  case escalate
  then show ?thesis by (simp add: escalates_def)
next
  case (settle hits iris)
  obtain q where q: "iri_block p = Fin q" using validated(3) [OF assms(2)] by blast
  obtain e law v where s: "compose_evidence beacons = Inr (Some e)" "effective_law beacons p = Inr law" "kernel_meet [law, VStr e] = Inr v"
    "dget r ''verdict'' = Some (VStr v)" "dget r ''action'' = Some (action_for p v)"
    using settle(5) unfolding settled_def by blast
  have "boundary_breaches b (boundary_axes p) = Inr []" if "b \<in> set beacons" for b
    using rmap_value [OF settle(1) that] settle(2) by auto
  moreover have "\<exists>f. compute_iri b = Inr f \<and> flt_less f (iri_block p)" if b: "b \<in> set beacons" for b
  proof -
    obtain f where f: "f \<in> set iris" "compute_iri b = Inr f" using rmap_value [OF settle(3) b] by blast
    have "NaN \<notin> set iris" using rmap_member [OF settle(3)] compute_iri_number by blast
    then have "\<not> flt_le (Fin q) f"
      using settle(4) f(1) q fold_max_below [of q "tl iris" "hd iris"] by (cases iris) (auto simp: max_iri_def)
    then show ?thesis using f(2) q not_le_less compute_iri_number by auto
  qed
  moreover have "\<exists>l. law_for p (beacon_kind b) = Inr (VStr l) \<and> verdict_rank v \<le> verdict_rank l" if "b \<in> set beacons" for b
    by (rule effective_law_bound [OF s(2,3) that])
  ultimately have "list_all (\<lambda>b. boundary_breaches b (boundary_axes p) = Inr [] \<and>
         (\<exists>f. compute_iri b = Inr f \<and> flt_less f (iri_block p)) \<and>
         (\<exists>l. law_for p (beacon_kind b) = Inr (VStr l) \<and> verdict_rank v \<le> verdict_rank l)) beacons"
    unfolding list_all_iff by blast
  moreover have "verdict_rank v \<le> verdict_rank e" using kernel_meet_bound(1) [OF s(3)] by auto
  ultimately show ?thesis using s by blast
qed

definition sample_beacon :: "pyfloat \<Rightarrow> beacon" where
  "sample_beacon f =
     [(''kind_class'', VStr ''mirror_drift''), (''system'', VStr ''mirror''), (''evidence'', VDict [(''detector'', VBool True), (''reproducible'', VBool True)]),
      (''entropy_uniqueness'', VFloat f), (''plan'', VDict [(''legality'', VFloat f)])]"

definition sample_fresh :: Fresh where
  "sample_fresh = \<lparr>fr_message_id = ''m'', fr_uuid = ''u'', fr_span = ''s'', fr_now = ''n''\<rparr>"

lemma sample_parts:
  "evidence_verdict (sample_beacon f) = Inr (Some ''sealed'')"
  "compose_evidence [sample_beacon f] = Inr (Some ''sealed'')"
  "primary_beacon [sample_beacon f] = Inr (sample_beacon f)"
  "effective_law [sample_beacon f] DEFAULT_POLICY = Inr (VStr ''sealed'')"
  by (simp_all add: sample_beacon_def evidence_verdict_def compose_evidence_def primary_beacon_def beacon_weight_def heaviest_def dict_or_empty_def
      dgetdef_def effective_law_def law_for_def get_by_value_def beacon_kind_def DEFAULT_POLICY_def kernel_meet_def is_str_def meet_def VERDICT_ORDER_eq)

lemma sample_receipt:
  "\<exists>r. compose_receipt sha why sample_fresh ''t'' (sample_beacon f) [sample_beacon f] v (VStr a) reason = Inr r"
  by (simp add: compose_receipt_def make_receipt_def sample_beacon_def sample_fresh_def dgetdef_def sa_check_def INFERENCE_TYPES_def MOODS_def
      beacon_kind_def stamp_def enveloped_def setdefault_def content_hash_def semantic_def ENVELOPE_KEYS_def VOLATILE_KEYS_def
      epistemic_level_for_def dict_or_empty_def v_or_def Let_def)

lemma sample_breaches:
  "boundary_breaches (sample_beacon f) (boundary_axes DEFAULT_POLICY) = Inr (if flt_le (Fin 1) f then [VStr ''legality''] else [])"
  by (simp add: boundary_breaches_def sample_beacon_def dict_or_empty_def dgetdef_def DEFAULT_POLICY_def axis_breached_def get_by_value_def)

lemma sample_decide:
  assumes "\<not> flt_le (Fin 1) f" "compute_iri (sample_beacon f) = Inr (Fin 0)"
  shows "\<exists>r. decide sha why sample_fresh ''t'' DEFAULT_POLICY (sample_beacon f) = Inr r \<and> dget r ''verdict'' = Some (VStr ''sealed'') \<and>
    dget r ''action'' = Some (VStr ''auto_fix'')"
proof -
  have m: "kernel_meet [VStr ''sealed'', VStr ''sealed''] = Inr ''sealed''" by (simp add: kernel_meet_def is_str_def meet_def VERDICT_ORDER_eq)
  have a: "action_for DEFAULT_POLICY ''sealed'' = VStr ''auto_fix''" by (simp add: action_for_def DEFAULT_POLICY_def dgetdef_def)
  have i: "\<not> flt_le (iri_block DEFAULT_POLICY) (Fin 0)" by (simp add: DEFAULT_POLICY_def)
  obtain r where r: "compose_receipt sha why sample_fresh ''t'' (sample_beacon f) [sample_beacon f] ''sealed'' (VStr ''auto_fix'')
      (Reasoned (VStr ''sealed'') ''sealed'' ''sealed'' (Fin 0) [beacon_kind (sample_beacon f)]) = Inr r"
    using sample_receipt by blast
  have "decide sha why sample_fresh ''t'' DEFAULT_POLICY (sample_beacon f) = Inr r"
    by (simp add: decide_def decide_composed_def sample_parts sample_breaches assms iri_step_def max_iri_def i law_step_def m a r)
  with compose_receipt_fields [OF r] show ?thesis by blast
qed


theorem responder_within_law_witness:
  "\<exists>r. decide_composed id (\<lambda>x. []) sample_fresh ''t'' DEFAULT_POLICY [sample_beacon (Fin 0)] = Inr r \<and> dget r ''action'' = Some (VStr ''auto_fix'') \<and>
     (\<exists>v e. dget r ''verdict'' = Some (VStr v) \<and> compose_evidence [sample_beacon (Fin 0)] = Inr (Some e) \<and> verdict_rank v \<le> verdict_rank e)"
proof -
  have "compute_iri (sample_beacon (Fin 0)) = Inr (Fin 0)" by (simp add: compute_iri_def sample_beacon_def dgetdef_def flt_sub_def)
  then obtain r where r: "decide_composed id (\<lambda>x. []) sample_fresh ''t'' DEFAULT_POLICY [sample_beacon (Fin 0)] = Inr r"
    "dget r ''verdict'' = Some (VStr ''sealed'')" "dget r ''action'' = Some (VStr ''auto_fix'')"
    using sample_decide [of "Fin 0" id "\<lambda>x. []"] by (auto simp: decide_def)
  from responder_within_law [OF r(1) default_policy_valid] r show ?thesis by auto
qed

section \<open>Execution\<close>


lemma heal_returns: "\<exists>x. heal invariant executor clock kw w = Inl x \<or> (\<exists>r w'. heal invariant executor clock kw w = Inr (Some (r, w')))"
proof (cases invariant)
  case (Some obs)
  show ?thesis
  proof (cases "control_loop (kw default_config)")
    case (Inr c)
    let ?p = "\<lparr>pl_observe = obs, pl_act = (\<lambda>w. (Inr (), snd (executor w))), pl_clock = clock\<rparr>"
    have "\<exists>r w'. control_run c ?p w = Some (r, w')" by (rule control_runE [of ?p w c]) blast
    with Some Inr show ?thesis by (simp add: heal_def)
  qed (simp add: heal_def Some)
qed (simp add: heal_def)

lemma run_executor_returns: "\<exists>x. run_executor ac b kind action fn w = Some x"
proof -
  define closed where "closed \<longleftrightarrow> (case (kind, action) of (VStr k, VStr a) \<Rightarrow> dget EXECUTORS (k, a) \<noteq> None \<and> a = ''auto_fix'' \<and> ac_invariant ac k \<noteq> None | _ \<Rightarrow> False)"
  show ?thesis
  proof (cases closed)
    case True
    then show ?thesis
      using heal_returns [of "case kind of VStr k \<Rightarrow> ac_invariant ac k | _ \<Rightarrow> None" "ac_executor ac fn b" "ac_clock ac" "\<lambda>c. c" w]
      unfolding run_executor_def Let_def closed_def [symmetric] by auto
  next
    case False
    then show ?thesis unfolding run_executor_def Let_def closed_def [symmetric] by (auto split: prod.splits sum.splits)
  qed
qed

lemma execute_returns: "\<exists>x. execute ac b r w = Some x"
  using run_executor_returns [of ac b "dgetdef b ''kind_class'' VNone" "dgetdef r ''action'' VNone"]
  by (auto simp: execute_def Let_def split: sum.splits option.splits prod.splits) (metis option.distinct(1))+


definition idle_actuators :: "unit Actuators" where
  "idle_actuators =
     \<lparr>ac_executor = (\<lambda>fn b w. (Inl OtherError, w)), ac_invariant = (\<lambda>k. None), ac_clock = (\<lambda>w. (0, w)), ac_exn_text = (\<lambda>e. []),
      ac_loop_text = (\<lambda>r. []), ac_emit = None\<rparr>"


section \<open>One pass settles every beacon\<close>

lemma drain_all:
  "dwf q \<Longrightarrow> dq_contents q = map Inr vs \<Longrightarrow> \<exists>q'. drain nows c i None acc q = (Inr (acc @ vs), None, q') \<and> dq_empty q'"
proof (induction vs arbitrary: acc q)
  case Nil
  then have "dq_empty q" using dqueue.empty_iff by simp
  then show ?case by (simp add: drain.simps)
next
  case (Cons v vs)
  obtain q1 where g: "dq_get q = (Inr v, q1)" "dwf q1" "dq_contents q1 = map Inr vs"
    using dqueue.get_first [OF Cons.prems(1), of "Inr v" "map Inr vs"] Cons.prems(2) by auto
  have "\<not> dq_empty q" using dqueue.empty_iff [OF Cons.prems(1)] Cons.prems(2) by simp
  with Cons.IH [OF g(2,3), of "acc @ [v]"] g(1) show ?case by (auto simp: drain.simps [of nows c i None acc q])
qed

abbreviation system_text :: "beacon \<Rightarrow> string result" where
  "system_text b \<equiv> v_text (dgetdef b ''system'' (VStr ''unknown''))"

lemma add_group_mset:
  "mset (concat (map snd (dset gs s (dgetdef gs s [] @ [b])))) = mset (concat (map snd gs)) + {#b#}"
  by (induction gs) (auto simp: dgetdef_def split: option.splits)

lemma group_all:
  assumes "list_all (\<lambda>b. \<exists>s. system_text b = Inr s) bs" "dwf gs"
  shows "\<exists>gs'. rfold add_to_group (map VDict bs) gs = Inr gs' \<and> dwf gs' \<and> mset (concat (map snd gs')) = mset (concat (map snd gs)) + mset bs \<and>
    (\<forall>s b g rest. gs = (s, b # g) # rest \<longrightarrow> (\<exists>g' rest'. gs' = (s, b # g') # rest'))"
  using assms
proof (induction bs arbitrary: gs)
  case (Cons b bs)
  then obtain s where s: "system_text b = Inr s" by auto
  let ?gs = "dset gs s (dgetdef gs s [] @ [b])"
  have wf: "dwf ?gs" using Cons.prems(2) by simp
  obtain gs' where g: "rfold add_to_group (map VDict bs) ?gs = Inr gs'" "dwf gs'" "mset (concat (map snd gs')) = mset (concat (map snd ?gs)) + mset bs"
    "\<And>s b g rest. ?gs = (s, b # g) # rest \<Longrightarrow> \<exists>g' rest'. gs' = (s, b # g') # rest'"
    using Cons.IH [OF _ wf] Cons.prems(1) by auto
  have "rfold add_to_group (map VDict (b # bs)) gs = Inr gs'" using g(1) s by (simp add: add_to_group_def)
  moreover have "\<exists>g' rest'. gs' = (t, c # g') # rest'" if "gs = (t, c # g0) # rest" for t c g0 rest
    using g(4) [of t c] that by (cases "t = s") (auto simp: dgetdef_def)
  ultimately show ?case using g(2,3) add_group_mset [of gs s b] by auto
qed simp

lemma settle_group_returns: "\<exists>x. settle_group a ac n grp w = Some x"
  using execute_returns [of ac] by (auto simp: settle_group_def split: sum.splits)

lemma decide_groups_returns: "\<exists>x. decide_groups a ac n groups s = Some x"
proof (induction groups arbitrary: n s)
  case (Cons grp groups)
  obtain r w where sg: "settle_group a ac n grp (ps_world s) = Some (r, w)" using settle_group_returns [of a ac n grp "ps_world s"] by auto
  show ?case
  proof (cases r)
    case (Inr rc)
    obtain u w' where e: "emit_graph_upsert ac rc grp w = (u, w')" by fastforce
    from Cons.IH sg Inr e show ?thesis by (cases u) auto
  qed (use sg in simp)
qed simp




lemma run_once_drained:
  assumes "dwf inbox" "dq_contents inbox = map (\<lambda>b. Inr (VDict b)) bs" "list_all (\<lambda>b. \<exists>s. system_text b = Inr s) bs"
  obtains groups inbox' res s where "group_by_system (map VDict bs) = Inr groups" "dwf groups" "mset (concat (map snd groups)) = mset bs" "dq_empty inbox'"
    "decide_groups a ac 0 (map snd groups) \<lparr>ps_out = [], ps_decisions = dec, ps_world = w\<rparr> = Some (res, s)"
    "run_once a ac nows inbox dec None w =
       Some \<lparr>pr_receipts = rbind res (\<lambda>_. Inr (ps_out s)), pr_inbox = inbox', pr_decisions = ps_decisions s, pr_suppressor = None, pr_world = ps_world s\<rparr>"
proof -
  have c: "dq_contents inbox = map Inr (map VDict bs)" using assms(2) by simp
  obtain inbox' where d: "drain nows (suppression_cooldown_seconds (pa_policy a)) 0 None [] inbox = (Inr ([] @ map VDict bs), None, inbox')" "dq_empty inbox'"
    using drain_all [OF assms(1) c] by blast
  obtain groups where g: "group_by_system (map VDict bs) = Inr groups" "dwf groups" "mset (concat (map snd groups)) = mset bs"
    using group_all [OF assms(3) dwf_Nil] by (auto simp: group_by_system_def)
  obtain res s where r: "decide_groups a ac 0 (map snd groups) \<lparr>ps_out = [], ps_decisions = dec, ps_world = w\<rparr> = Some (res, s)"
    using decide_groups_returns by (metis surj_pair)
  show thesis by (rule that [OF g d(2) r]) (simp add: run_once_def d(1) g(1) r)
qed


text \<open>
  C36: One malformed beacon loses the batch. If the evidence of the oldest beacon cannot be read, the pass
  raises after the inbox has been emptied and before anything is decided: every beacon of the batch is
  gone and the decisions queue is unchanged.
\<close>

theorem malformed_beacon_loses_batch:
  assumes "dwf inbox" "dq_contents inbox = map (\<lambda>b. Inr (VDict b)) (b # bs)" "list_all (\<lambda>b. \<exists>s. system_text b = Inr s) (b # bs)"
    and "evidence_verdict b = Inl e"
  shows "\<exists>res. run_once a ac nows inbox dec None w = Some res \<and> pr_receipts res = Inl e \<and> dq_empty (pr_inbox res) \<and> pr_decisions res = dec"
proof -
  obtain groups inbox' r s where g: "group_by_system (map VDict (b # bs)) = Inr groups" "dq_empty inbox'"
    "decide_groups a ac 0 (map snd groups) \<lparr>ps_out = [], ps_decisions = dec, ps_world = w\<rparr> = Some (r, s)"
    "run_once a ac nows inbox dec None w =
       Some \<lparr>pr_receipts = rbind r (\<lambda>_. Inr (ps_out s)), pr_inbox = inbox', pr_decisions = ps_decisions s, pr_suppressor = None, pr_world = ps_world s\<rparr>"
    by (rule run_once_drained [OF assms(1-3)])
  obtain sys where sys: "system_text b = Inr sys" using assms(3) by auto
  have wf: "dwf [(sys, [b])]" by (simp add: dwf_def)
  have "\<exists>g rest. groups = (sys, b # g) # rest"
    using group_all [OF _ wf, of bs] assms(3) g(1) sys by (auto simp: group_by_system_def add_to_group_def dgetdef_def)
  then obtain gr rest where first: "groups = (sys, b # gr) # rest" by blast
  have "decide_composed sha why fr t p (b # gr) = Inl e" for sha why fr t p
    using assms(4) by (simp add: decide_composed_def primary_beacon_def beacon_weight_def)
  then have "r = Inl e \<and> ps_decisions s = dec" using g(3) first by (auto simp: settle_group_def)
  with g(2,4) show ?thesis by simp
qed

lemma one_beacon_inbox:
  "dwf (snd (dq_put 5 ''u'' [] (VDict b)))" "dq_contents (snd (dq_put 5 ''u'' [] (VDict b))) = map (\<lambda>b. Inr (VDict b)) [b]"
  using puts_contents [of "[(5, ''u'', VDict b)]"] by simp_all

definition sample_args :: pass_args where
  "sample_args =
     \<lparr>pa_sha = id, pa_why = (\<lambda>r. []), pa_fresh = (\<lambda>n. sample_fresh), pa_decided_at = (\<lambda>n. ''t''), pa_ids = (\<lambda>n. (n, ''u'')),
      pa_policy = DEFAULT_POLICY, pa_execute = False\<rparr>"


theorem malformed_beacon_loses_batch_witness:
  "\<exists>res. run_once sample_args idle_actuators (\<lambda>n. 0) (snd (dq_put 5 ''u'' [] (VDict [(''evidence'', VStr ''x'')]))) [] None () = Some res \<and>
     pr_receipts res = Inl AttributeError \<and> dq_empty (pr_inbox res) \<and> pr_decisions res = []"
proof -
  let ?b = "[(''evidence'', VStr ''x'')]"
  have "list_all (\<lambda>b. \<exists>s. system_text b = Inr s) [?b]" "evidence_verdict ?b = Inl AttributeError"
    by (simp_all add: dgetdef_def evidence_verdict_def dict_or_empty_def)
  from malformed_beacon_loses_batch [OF one_beacon_inbox this] show ?thesis .
qed

end
