(* ===== verification/Propagation_Engine.thy ===== *)
theory Propagation_Engine
  imports Py_Values "HOL-Library.Multiset"
begin

text \<open>
  \<open>engines/propagation_engine.py\<close>: loading the dependency graph and the rules, the queries, the cascade
  of a change, and cycle detection. The parsed registry files are arguments, the edge packs with their
  names in sorted order. Repository names are lower-cased in ASCII. Of a rule the model keeps the fields
  that are read later, with the defaults of their later reading; of a reference edge its ends and type.
\<close>

section \<open>Names\<close>

definition lower_char :: "char \<Rightarrow> char" where
  "lower_char c = (if 65 \<le> (of_char c :: nat) \<and> of_char c \<le> (90 :: nat) then char_of ((of_char c :: nat) + 32) else c)"

definition norm_char :: "char \<Rightarrow> char" where
  "norm_char c = (if c = CHR ''_'' then CHR ''-'' else lower_char c)"

definition norm_text :: "string \<Rightarrow> string" where
  "norm_text s = map norm_char (strip s)"

definition normalize_repo_id :: "pyval \<Rightarrow> string option result" where
  "normalize_repo_id v = (if v = VNone then Inr None else rbind (v_text v) (\<lambda>s. Inr (Some (norm_text s))))"

text \<open>\<open>_normalize_repo_id(repo) or repo\<close> for a string.\<close>

definition norm_or_self :: "string \<Rightarrow> string" where
  "norm_or_self s = (if norm_text s = [] then s else norm_text s)"

section \<open>The graph\<close>

type_synonym adjacency = "(string, string list) dict"

record Target =
  tg_repo :: string
  tg_action :: pyval
  tg_message :: pyval
  tg_auto_pr :: pyval
  tg_pr_title :: pyval

record Rule =
  ru_trigger :: string
  ru_targets :: "Target list"
  ru_id :: pyval
  ru_max_cascade_depth :: pyval

record Engine =
  en_edges :: "(string \<times> string \<times> string) list"
  en_rules :: "Rule list"
  en_dep_levels :: "(string, int) dict"
  en_adjacency :: adjacency
  en_reverse_adjacency :: adjacency
  en_reference_edges :: "(string \<times> string \<times> string) list"
  en_ref_adjacency :: adjacency
  en_ref_reverse_adjacency :: adjacency

definition empty_engine :: Engine where
  "empty_engine =
     \<lparr>en_edges = [], en_rules = [], en_dep_levels = [], en_adjacency = [], en_reverse_adjacency = [], en_reference_edges = [],
      en_ref_adjacency = [], en_ref_reverse_adjacency = []\<rparr>"

definition link :: "string \<Rightarrow> string \<Rightarrow> adjacency \<Rightarrow> adjacency" where
  "link a b d = (if b \<in> set (dgetdef d a []) then d else dset d a (dgetdef d a [] @ [b]))"

definition add_edge :: "pyval \<Rightarrow> pyval \<Rightarrow> string \<Rightarrow> Engine \<Rightarrow> Engine result" where
  "add_edge src dst edge_type en =
     rbind (normalize_repo_id src) (\<lambda>a. rbind (normalize_repo_id dst) (\<lambda>b.
       case (a, b) of
         (Some (x # xs), Some (y # ys)) \<Rightarrow>
           Inr (en\<lparr>en_adjacency := link (x # xs) (y # ys) (en_adjacency en), en_reverse_adjacency := link (y # ys) (x # xs) (en_reverse_adjacency en),
                   en_edges := en_edges en @ [(x # xs, y # ys, edge_type)]\<rparr>)
       | _ \<Rightarrow> Inr en))"

definition load_edge :: "pyval \<Rightarrow> Engine \<Rightarrow> Engine result" where
  "load_edge v en =
     (case v of
        VDict d \<Rightarrow> rbind (v_text (dgetdef d ''type'' (VStr ''depends_on''))) (\<lambda>ty. add_edge (dgetdef d ''from'' VNone) (dgetdef d ''to'' VNone) ty en)
      | _ \<Rightarrow> Inr en)"

definition add_reference :: "string \<Rightarrow> string \<Rightarrow> string \<Rightarrow> Engine \<Rightarrow> Engine" where
  "add_reference src dst etype en =
     en\<lparr>en_ref_adjacency := link src dst (en_ref_adjacency en), en_ref_reverse_adjacency := link dst src (en_ref_reverse_adjacency en),
        en_reference_edges := en_reference_edges en @ [(src, dst, etype)]\<rparr>"

definition pack_edge :: "bool \<Rightarrow> (string, pyval) dict \<Rightarrow> string option \<Rightarrow> string option \<Rightarrow> Engine \<Rightarrow> Engine result" where
  "pack_edge as_dependency d src dst en =
     (if src = None \<or> src = Some [] \<or> dst = None \<or> dst = Some [] then Inr en
      else rbind (v_text (dgetdef d ''type'' (VStr ''depends_on''))) (\<lambda>etype.
        if as_dependency then add_edge (VStr (the src)) (VStr (the dst)) etype en
        else Inr (add_reference (the src) (the dst) etype en)))"

definition load_pack_edge :: "bool \<Rightarrow> pyval \<Rightarrow> Engine \<Rightarrow> Engine result" where
  "load_pack_edge as_dependency v en =
     (case v of
        VDict d \<Rightarrow>
          rbind (v_text (dgetdef d ''state'' (VStr ''active''))) (\<lambda>state.
          if map lower_char state \<notin> set [''active'', ''in_use''] then Inr en
          else rbind (normalize_repo_id (dgetdef d ''from'' VNone)) (\<lambda>src. rbind (normalize_repo_id (dgetdef d ''to'' VNone)) (\<lambda>dst.
            pack_edge as_dependency d src dst en)))
      | _ \<Rightarrow> Inr en)"

definition load_pack :: "pyval \<Rightarrow> Engine \<Rightarrow> Engine result" where
  "load_pack pack en =
     rbind (vget pack ''non_claims'' VNone) (\<lambda>nc.
     rbind (if truthy nc then v_iter nc else Inr []) (\<lambda>claims.
     if \<not> list_all v_hashable claims then Inl TypeError
     else rbind (rbind (vget pack ''edges'' (VList [])) v_iter) (\<lambda>edges.
       rfold (load_pack_edge (VStr ''does_not_create_runtime_dependency'' \<notin> set claims)) edges en)))"

text \<open>An entry of a dependency list: a mapping with a name and a type, or a bare name.\<close>

definition named_entry :: "string \<Rightarrow> pyval \<Rightarrow> (pyval \<times> string) result" where
  "named_entry dflt v =
     (case v of
        VDict d \<Rightarrow> rbind (v_text (dgetdef d ''type'' (VStr dflt))) (\<lambda>ty. Inr (dgetdef d ''name'' VNone, ty))
      | _ \<Rightarrow> Inr (v, dflt))"

definition load_dependencies :: "string \<times> pyval \<Rightarrow> Engine \<Rightarrow> Engine result" where
  "load_dependencies e en =
     (let repo = norm_text (fst e) in
      case snd e of
        VDict d \<Rightarrow>
          if repo = [] then Inr en
          else rbind (rbind (Inr (dgetdef d ''depends_on'' (VList []))) v_iter) (\<lambda>deps.
            rbind (rfold (\<lambda>v en. rbind (named_entry ''depends_on'' v) (\<lambda>(n, ty). add_edge (VStr repo) n ty en)) deps en) (\<lambda>en1.
            rbind (v_iter (dgetdef d ''dependents'' (VList []))) (\<lambda>outs.
              rfold (\<lambda>v en. rbind (named_entry ''dependent'' v) (\<lambda>(n, ty). add_edge n (VStr repo) ty en)) outs en1)))
      | _ \<Rightarrow> Inr en)"

definition set_level :: "int \<Rightarrow> pyval \<Rightarrow> Engine \<Rightarrow> Engine result" where
  "set_level level v en =
     rbind (normalize_repo_id v) (\<lambda>r. Inr (case r of Some (x # xs) \<Rightarrow> en\<lparr>en_dep_levels := dset (en_dep_levels en) (x # xs) level\<rparr> | _ \<Rightarrow> en))"

definition load_levels :: "string \<times> pyval \<Rightarrow> Engine \<Rightarrow> Engine result" where
  "load_levels e en =
     rbind (if fst e = ''archived'' then Inr (- 1) else int_of_str (fst e)) (\<lambda>level.
     rbind (v_iter (snd e)) (\<lambda>repos. rfold (set_level level) repos en))"

section \<open>Rules\<close>

definition some_text :: "string option \<Rightarrow> bool" where
  "some_text s \<longleftrightarrow> s \<noteq> None \<and> s \<noteq> Some []"

definition cascade_target :: "pyval \<Rightarrow> Target list \<Rightarrow> Target list result" where
  "cascade_target v ts =
     (case v of
        VDict d \<Rightarrow> rbind (normalize_repo_id (dgetdef d ''target'' VNone)) (\<lambda>t.
          Inr (if some_text t
               then ts @ [\<lparr>tg_repo = the t, tg_action = dgetdef d ''action'' (VStr ''notify''), tg_message = dgetdef d ''reason'' (VStr []),
                           tg_auto_pr = dgetdef d ''auto_pr'' (VBool False), tg_pr_title = dgetdef d ''pr_title'' (VStr [])\<rparr>]
               else ts))
      | _ \<Rightarrow> Inr ts)"

definition propagate_target :: "pyval \<Rightarrow> Target list \<Rightarrow> Target list result" where
  "propagate_target v ts =
     (case v of
        VDict d \<Rightarrow> rbind (normalize_repo_id (dgetdef d ''repo'' VNone)) (\<lambda>t.
          Inr (if some_text t
               then ts @ [\<lparr>tg_repo = the t, tg_action = dgetdef d ''action'' (VStr ''notify''), tg_message = dgetdef d ''message'' (VStr []),
                           tg_auto_pr = dgetdef d ''auto_pr'' (VBool False), tg_pr_title = dgetdef d ''pr_title'' (VStr [])\<rparr>]
               else ts))
      | _ \<Rightarrow> Inr ts)"

definition load_rule :: "pyval \<Rightarrow> Rule list \<Rightarrow> Rule list result" where
  "load_rule v rules =
     (case v of
        VDict d \<Rightarrow>
          rbind (vget (dgetdef d ''trigger'' (VDict [])) ''repo'' VNone) (\<lambda>t0.
          rbind (normalize_repo_id (if t0 = VNone then dgetdef d ''trigger_repo'' VNone else t0)) (\<lambda>trigger.
          if \<not> some_text trigger then Inr rules
          else rbind (if dgetdef d ''propagate_to'' VNone = VNone
                      then rbind (v_iter (dgetdef d ''cascades'' (VList []))) (\<lambda>cs. rfold cascade_target cs [])
                      else rbind (v_iter (dgetdef d ''propagate_to'' VNone)) (\<lambda>ps. rfold propagate_target ps [])) (\<lambda>targets.
            Inr (rules @ [\<lparr>ru_trigger = the trigger, ru_targets = targets, ru_id = dgetdef d ''id'' (VStr ''dependency_graph''),
                           ru_max_cascade_depth = dgetdef d ''max_cascade_depth'' VNone\<rparr>]))))
      | _ \<Rightarrow> Inr rules)"

definition legacy_target :: "pyval \<Rightarrow> pyval \<Rightarrow> pyval \<Rightarrow> Target list \<Rightarrow> Target list result" where
  "legacy_target action message v ts =
     rbind (normalize_repo_id v) (\<lambda>t.
       Inr (if some_text t
            then ts @ [\<lparr>tg_repo = the t, tg_action = action, tg_message = message, tg_auto_pr = VBool False, tg_pr_title = VStr []\<rparr>]
            else ts))"

definition legacy_action :: "pyval \<Rightarrow> pyval \<Rightarrow> Target list \<Rightarrow> Target list result" where
  "legacy_action message v ts =
     (case v of
        VDict d \<Rightarrow> rbind (v_iter (dgetdef d ''targets'' (VList []))) (\<lambda>vs.
          rfold (legacy_target (dgetdef d ''type'' (VStr ''notify'')) message) vs ts)
      | _ \<Rightarrow> Inr ts)"

definition load_legacy_rule :: "string \<times> pyval \<Rightarrow> Rule list \<Rightarrow> Rule list result" where
  "load_legacy_rule e rules =
     (case snd e of
        VDict d \<Rightarrow>
          (let trigger = norm_text (fst e) in
           case dgetdef d ''on_main_merge'' (VDict []) of
             VDict m \<Rightarrow>
               if trigger = [] then Inr rules
               else rbind (v_iter (dgetdef m ''automation'' (VList []))) (\<lambda>as.
                 rbind (rfold (legacy_action (dgetdef m ''trigger'' (VStr []))) as []) (\<lambda>targets.
                   Inr (rules @ [\<lparr>ru_trigger = trigger, ru_targets = targets, ru_id = VStr (''legacy-'' @ trigger),
                                  ru_max_cascade_depth = dgetdef m ''max_cascade_depth'' VNone\<rparr>])))
           | _ \<Rightarrow> Inr rules)
      | _ \<Rightarrow> Inr rules)"

fun v_items :: "pyval \<Rightarrow> (string \<times> pyval) list result" where
  "v_items (VDict d) = Inr d"
| "v_items _ = Inl AttributeError"

definition load :: "pyval \<Rightarrow> (string \<times> pyval) list \<Rightarrow> pyval \<Rightarrow> Engine result" where
  "load dep_raw packs rules_raw =
     rbind (rbind (vget dep_raw ''edges'' (VList [])) v_iter) (\<lambda>edges.
     rbind (rfold load_edge edges empty_engine) (\<lambda>en1.
     rbind (rfold (\<lambda>p. load_pack (snd p)) packs en1) (\<lambda>en2.
     rbind (rbind (vget dep_raw ''dependencies'' (VDict [])) v_items) (\<lambda>deps.
     rbind (rfold load_dependencies deps en2) (\<lambda>en3.
     rbind (rbind (vget dep_raw ''dependency_levels'' (VDict [])) v_items) (\<lambda>levels.
     rbind (rfold load_levels levels en3) (\<lambda>en4.
     rbind (rbind (vget rules_raw ''rules'' (VList [])) v_iter) (\<lambda>rs.
     rbind (rfold load_rule rs []) (\<lambda>rules1.
     rbind (rbind (vget rules_raw ''propagation_rules'' (VDict [])) v_items) (\<lambda>ls.
     rbind (rfold load_legacy_rule ls rules1) (\<lambda>rules2.
       Inr (en4\<lparr>en_rules := rules2\<rparr>))))))))))))"

section \<open>Queries\<close>

definition dependencies_of :: "Engine \<Rightarrow> string \<Rightarrow> string list" where
  "dependencies_of en r = dgetdef (en_adjacency en) (norm_or_self r) []"

definition dependents_of :: "Engine \<Rightarrow> string \<Rightarrow> string list" where
  "dependents_of en r = dgetdef (en_reverse_adjacency en) (norm_or_self r) []"

definition references_of :: "Engine \<Rightarrow> string \<Rightarrow> string list" where
  "references_of en r = dgetdef (en_ref_adjacency en) (norm_or_self r) []"

definition referrers_of :: "Engine \<Rightarrow> string \<Rightarrow> string list" where
  "referrers_of en r = dgetdef (en_ref_reverse_adjacency en) (norm_or_self r) []"

definition dependency_level :: "Engine \<Rightarrow> string \<Rightarrow> int option" where
  "dependency_level en r = dget (en_dep_levels en) (norm_or_self r)"

definition get_rule :: "Engine \<Rightarrow> string \<Rightarrow> Rule option" where
  "get_rule en r = List.find (\<lambda>rule. ru_trigger rule = norm_text r) (en_rules en)"

definition all_graph_nodes :: "Engine \<Rightarrow> string set" where
  "all_graph_nodes en = set (concat (map (\<lambda>(a, b, ty). [a, b]) (en_edges en)))"

definition merge_order :: "Engine \<Rightarrow> string list" where
  "merge_order en = map fst (filter (\<lambda>(r, level). 0 \<le> level) (sort_key snd (en_dep_levels en)))"

section \<open>The cascade\<close>

record Step =
  st_depth :: int
  st_repo :: string
  st_action :: pyval
  st_message :: pyval
  st_auto_pr :: pyval
  st_pr_title :: pyval
  st_source_rule :: pyval

type_synonym cascade_queue = "(string \<times> int \<times> pyval) list"
type_synonym cascade_state = "string list \<times> cascade_queue \<times> Step list"

definition seed_targets :: "Engine \<Rightarrow> string \<Rightarrow> Rule option \<Rightarrow> Target list" where
  "seed_targets en changed rule =
     (let explicit = (case rule of Some r \<Rightarrow> ru_targets r | None \<Rightarrow> []) in
      explicit @ map (\<lambda>dep. \<lparr>tg_repo = dep, tg_action = VStr ''notify'', tg_message = VStr (changed @ '' changed''), tg_auto_pr = VBool False,
                             tg_pr_title = VStr []\<rparr>)
        (filter (\<lambda>dep. dep \<notin> set (map tg_repo explicit)) (dependents_of en changed)))"

definition seed_step :: "pyval \<Rightarrow> Target \<Rightarrow> Step" where
  "seed_step rule_id t =
     \<lparr>st_depth = 1, st_repo = tg_repo t, st_action = tg_action t, st_message = tg_message t, st_auto_pr = tg_auto_pr t,
      st_pr_title = tg_pr_title t, st_source_rule = rule_id\<rparr>"

definition seed :: "pyval \<Rightarrow> Target \<Rightarrow> cascade_state \<Rightarrow> cascade_state" where
  "seed rule_id t = (\<lambda>(visited, queue, results).
     let repo = tg_repo t in
     if repo = [] \<or> repo \<in> set visited then (visited, queue, results)
     else (visited @ [repo], queue @ [(repo, 1, rule_id)], results @ [seed_step rule_id t]))"

definition derived_step :: "string \<Rightarrow> int \<Rightarrow> pyval \<Rightarrow> string \<Rightarrow> Step" where
  "derived_step current depth source_rule downstream =
     \<lparr>st_depth = depth + 1, st_repo = downstream, st_action = VStr ''notify'', st_message = VStr (''Cascade from '' @ current),
      st_auto_pr = VBool False, st_pr_title = VStr [], st_source_rule = source_rule\<rparr>"

definition visit :: "string \<Rightarrow> int \<Rightarrow> pyval \<Rightarrow> string \<Rightarrow> cascade_state \<Rightarrow> cascade_state" where
  "visit current depth source_rule downstream = (\<lambda>(visited, queue, results).
     if downstream \<in> set visited then (visited, queue, results)
     else (visited @ [downstream], queue @ [(downstream, depth + 1, source_rule)],
           results @ [derived_step current depth source_rule downstream]))"

lemma visit_simps [simp]:
  "x \<in> set V \<Longrightarrow> visit cur d src x (V, Q, R) = (V, Q, R)"
  "x \<notin> set V \<Longrightarrow> visit cur d src x (V, Q, R) = (V @ [x], Q @ [(x, d + 1, src)], R @ [derived_step cur d src x])"
  by (simp_all add: visit_def)

definition graph_targets :: "Engine \<Rightarrow> string set" where
  "graph_targets en = set (concat (map snd (en_reverse_adjacency en)))"

lemma dependents_in_graph: "set (dependents_of en r) \<subseteq> graph_targets en"
  using dget_Some_in [of "en_reverse_adjacency en"] by (force simp: dependents_of_def dgetdef_def graph_targets_def split: option.splits)

lemma visit_all_measure:
  assumes "set ds \<subseteq> U" "finite U" "fold (visit cur d src) ds (V, Q, R) = (V', Q', R')"
  shows "length Q' + 2 * card (U - set V') \<le> length Q + 2 * card (U - set V)"
  using assms(1,3)
proof (induction ds arbitrary: V Q R)
  case (Cons x ds)
  show ?case
  proof (cases "x \<in> set V")
    case True
    with Cons.IH [of V Q R] Cons.prems show ?thesis by simp
  next
    case False
    have "card (U - set (V @ [x])) < card (U - set V)"
      using False Cons.prems assms(2) by (intro psubset_card_mono) auto
    moreover from Cons.prems(2) False obtain R1 where "fold (visit cur d src) ds (V @ [x], Q @ [(x, d + 1, src)], R1) = (V', Q', R')"
      by simp
    with Cons.IH Cons.prems(1) have "length Q' + 2 * card (U - set V') \<le> length (Q @ [(x, d + 1, src)]) + 2 * card (U - set (V @ [x]))"
      by (metis insert_subset list.set(2))
    ultimately show ?thesis by simp
  qed
qed simp

function bfs :: "Engine \<Rightarrow> int \<Rightarrow> cascade_queue \<Rightarrow> string list \<Rightarrow> Step list \<Rightarrow> Step list" where
  "bfs en max_depth [] visited results = results"
| "bfs en max_depth ((current, depth, source_rule) # queue) visited results =
     (if depth \<ge> max_depth then bfs en max_depth queue visited results
      else case fold (visit current depth source_rule) (dependents_of en current) (visited, queue, results) of
        (visited', queue', results') \<Rightarrow> bfs en max_depth queue' visited' results')"
  by pat_completeness auto
termination
proof (relation "measure (\<lambda>(en, m, queue, visited, results). length queue + 2 * card (graph_targets en - set visited))", goal_cases)
  case (3 en m cur d src queue visited results V' y Q' R')
  have "finite (graph_targets en)" by (simp add: graph_targets_def)
  from visit_all_measure [OF dependents_in_graph this 3(2) [symmetric, unfolded 3(3) [symmetric]]] show ?case by simp
qed auto

declare bfs.simps(2) [simp del]

definition rule_limit :: "Rule option \<Rightarrow> int \<Rightarrow> int" where
  "rule_limit rule max_depth =
     (case rule of
        Some r \<Rightarrow> (case ru_max_cascade_depth r of VInt k \<Rightarrow> min max_depth k | VBool b \<Rightarrow> min max_depth (if b then 1 else 0) | _ \<Rightarrow> max_depth)
      | None \<Rightarrow> max_depth)"

definition compute_cascade :: "Engine \<Rightarrow> string \<Rightarrow> int \<Rightarrow> Step list" where
  "compute_cascade en changed0 max_depth =
     (let changed = norm_or_self changed0;
          rule = get_rule en changed;
          rule_id = (case rule of Some r \<Rightarrow> ru_id r | None \<Rightarrow> VStr ''dependency_graph'');
          (visited, queue, results) = fold (seed rule_id) (seed_targets en changed rule) ([changed], [], []) in
      sort_key st_depth (bfs en (rule_limit rule max_depth) queue visited results))"

section \<open>Cycles\<close>

record Dfs =
  ds_visited :: "string list"
  ds_stack :: "string list"
  ds_path :: "string list"
  ds_cycles :: "string list list"

definition enter :: "string \<Rightarrow> Dfs \<Rightarrow> Dfs" where
  "enter node s = s\<lparr>ds_visited := ds_visited s @ [node], ds_stack := node # ds_stack s, ds_path := ds_path s @ [node]\<rparr>"

definition leave :: "string \<Rightarrow> Dfs \<Rightarrow> Dfs" where
  "leave node s = s\<lparr>ds_stack := removeAll node (ds_stack s), ds_path := butlast (ds_path s)\<rparr>"

definition record_cycle :: "string \<Rightarrow> Dfs \<Rightarrow> Dfs" where
  "record_cycle n s =
     (let cycle = dropWhile (\<lambda>x. x \<noteq> n) (ds_path s) @ [n] in
      if cycle \<in> set (ds_cycles s) then s else s\<lparr>ds_cycles := ds_cycles s @ [cycle]\<rparr>)"

text \<open>
  The loop over the neighbours of the node on top of the path, with the recursive call for the ones not
  yet visited. The loop over all nodes is the same loop with an empty path.
\<close>

partial_function (option) dfs_all :: "adjacency \<Rightarrow> string list \<Rightarrow> Dfs \<Rightarrow> Dfs option" where
  "dfs_all adj ns s =
     (case ns of
        [] \<Rightarrow> Some s
      | n # rest \<Rightarrow>
          if n \<notin> set (ds_visited s) then
            Option.bind (dfs_all adj (dgetdef adj n []) (enter n s)) (\<lambda>s1. dfs_all adj rest (leave n s1))
          else if n \<in> set (ds_stack s) then dfs_all adj rest (record_cycle n s)
          else dfs_all adj rest s)"

definition detect_cycles :: "Engine \<Rightarrow> string list \<Rightarrow> string list list option" where
  "detect_cycles en nodes =
     map_option ds_cycles (dfs_all (en_adjacency en) nodes \<lparr>ds_visited = [], ds_stack = [], ds_path = [], ds_cycles = []\<rparr>)"

section \<open>Normalised names\<close>

definition name_ok :: "string \<Rightarrow> bool" where
  "name_ok s \<longleftrightarrow> s \<noteq> [] \<and> norm_text s = s"

lemma lower_char_idem [simp]: "lower_char (lower_char c) = lower_char c"
  by (auto simp: lower_char_def)

lemma norm_char_idem [simp]: "norm_char (norm_char c) = norm_char c"
proof -
  have "lower_char (CHR ''-'') = CHR ''-''" by (simp add: lower_char_def)
  moreover have "lower_char c \<noteq> CHR ''_''" if "c \<noteq> CHR ''_''"
  proof
    assume "lower_char c = CHR ''_''"
    with that have "65 \<le> (of_char c :: nat)" "(of_char c :: nat) \<le> 90" "char_of ((of_char c :: nat) + 32) = CHR ''_''"
      by (auto simp: lower_char_def split: if_splits)
    then have "of_char (char_of ((of_char c :: nat) + 32) :: char) = (95 :: nat)" by simp
    with \<open>(of_char c :: nat) \<le> 90\<close> \<open>65 \<le> (of_char c :: nat)\<close> show False by simp
  qed
  ultimately show ?thesis by (simp add: norm_char_def)
qed

lemma is_blank_norm_char [simp]: "is_blank (norm_char c) \<longleftrightarrow> is_blank c"
  by (auto simp: norm_char_def lower_char_def is_blank_def)

lemma strip_map: "(\<And>c. is_blank (f c) \<longleftrightarrow> is_blank c) \<Longrightarrow> strip (map f s) = map f (strip s)"
  by (simp add: strip_def dropWhile_map rev_map comp_def)

lemma dropWhile_dropWhile_rev:
  "dropWhile P (rev (dropWhile P (rev (dropWhile P s)))) = rev (dropWhile P (rev (dropWhile P s)))"
proof (cases "dropWhile P s")
  case (Cons x xs)
  then have "\<not> P x" using hd_dropWhile [of P s] by simp
  then have "dropWhile P (rev (x # xs)) \<noteq> []" "last (dropWhile P (rev (x # xs))) = x"
    by (simp_all add: dropWhile_append)
  then show ?thesis using Cons \<open>\<not> P x\<close> by (simp add: dropWhile_eq_self_iff hd_rev)
next
  case Nil
  show ?thesis unfolding Nil by simp
qed

lemma strip_idem: "strip (strip s) = strip s"
proof -
  have "dropWhile is_blank (strip s) = strip s"
    by (simp add: strip_def dropWhile_dropWhile_rev)
  then have "strip (strip s) = rev (dropWhile is_blank (rev (strip s)))" by (simp add: strip_def)
  also have "\<dots> = strip s" by (simp add: strip_def)
  finally show ?thesis .
qed

lemma norm_text_idem [simp]: "norm_text (norm_text s) = norm_text s"
  by (simp add: norm_text_def strip_map strip_idem comp_def)

lemma norm_or_self_ok: "name_ok s \<Longrightarrow> norm_or_self s = s"
  by (simp add: name_ok_def norm_or_self_def)

lemma norm_or_self_idem: "norm_or_self (norm_or_self s) = norm_or_self s"
  by (simp add: norm_or_self_def)

lemma normalize_ok: "normalize_repo_id v = Inr (Some s) \<Longrightarrow> s \<noteq> [] \<Longrightarrow> name_ok s"
  by (auto simp: normalize_repo_id_def name_ok_def split: if_splits elim!: rbindE)

section \<open>What loading keeps\<close>

text \<open>
  Both adjacency maps hold exactly the recorded edges, every name is normalised and every target of a
  rule is a name.
\<close>

definition wf_engine :: "Engine \<Rightarrow> bool" where
  "wf_engine en \<longleftrightarrow>
     (\<forall>a b. b \<in> set (dgetdef (en_adjacency en) a []) \<longleftrightarrow> (\<exists>ty. (a, b, ty) \<in> set (en_edges en))) \<and>
     (\<forall>a b. a \<in> set (dgetdef (en_reverse_adjacency en) b []) \<longleftrightarrow> (\<exists>ty. (a, b, ty) \<in> set (en_edges en))) \<and>
     (\<forall>(a, b, ty) \<in> set (en_edges en). name_ok a \<and> name_ok b)"

definition targets_ok :: "Target list \<Rightarrow> bool" where
  "targets_ok ts \<longleftrightarrow> (\<forall>t \<in> set ts. name_ok (tg_repo t))"

definition rules_ok :: "Rule list \<Rightarrow> bool" where
  "rules_ok rs \<longleftrightarrow> (\<forall>r \<in> set rs. targets_ok (ru_targets r))"

text \<open>A loop keeps what its body keeps.\<close>

definition kept :: "('s \<Rightarrow> bool) \<Rightarrow> ('a \<Rightarrow> 's \<Rightarrow> 's result) \<Rightarrow> bool" where
  "kept P f \<longleftrightarrow> (\<forall>x s s'. f x s = Inr s' \<longrightarrow> P s \<longrightarrow> P s')"

lemma rfold_kept: "rfold f xs s = Inr s' \<Longrightarrow> kept P f \<Longrightarrow> P s \<Longrightarrow> P s'"
  by (rule rfold_invariant [where I = "\<lambda>n. P"]) (auto simp: kept_def)

lemmas rfold_wf = rfold_kept [where P = wf_engine]
lemmas rfold_targets = rfold_kept [where P = targets_ok]

lemma in_link: "x \<in> set (dgetdef (link a b d) k []) \<longleftrightarrow> x \<in> set (dgetdef d k []) \<or> (k = a \<and> x = b)"
  by (auto simp: link_def dgetdef_def dict_simps)

lemma add_edge_keeps: "add_edge src dst ty en = Inr en' \<Longrightarrow> wf_engine en \<Longrightarrow> wf_engine en'"
proof -
  assume A: "add_edge src dst ty en = Inr en'" and W: "wf_engine en"
  from A obtain a b where ab: "normalize_repo_id src = Inr a" "normalize_repo_id dst = Inr b"
      and en': "(case (a, b) of
         (Some (x # xs), Some (y # ys)) \<Rightarrow>
           Inr (en\<lparr>en_adjacency := link (x # xs) (y # ys) (en_adjacency en), en_reverse_adjacency := link (y # ys) (x # xs) (en_reverse_adjacency en),
                   en_edges := en_edges en @ [(x # xs, y # ys, ty)]\<rparr>)
       | _ \<Rightarrow> Inr en) = (Inr en' :: Engine result)"
    unfolding add_edge_def by (elim rbindE) blast
  show "wf_engine en'"
  proof (cases "\<exists>x xs y ys. a = Some (x # xs) \<and> b = Some (y # ys)")
    case True
    then obtain x xs y ys where "a = Some (x # xs)" "b = Some (y # ys)" by blast
    with en' normalize_ok [OF ab(1) [unfolded this]] normalize_ok [OF ab(2) [unfolded this]] W show ?thesis
      by (auto simp: wf_engine_def in_link)
  next
    case False
    with en' W show ?thesis by (auto split: option.splits list.splits)
  qed
qed

lemma load_edge_keeps: "load_edge v en = Inr en' \<Longrightarrow> wf_engine en \<Longrightarrow> wf_engine en'"
  by (auto simp: load_edge_def split: pyval.splits elim!: rbindE intro: add_edge_keeps)

lemma load_edge_kept: "kept wf_engine load_edge"
  by (auto simp: kept_def intro: load_edge_keeps)

lemma add_reference_keeps: "wf_engine en \<Longrightarrow> wf_engine (add_reference a b ty en)"
  by (simp add: wf_engine_def add_reference_def)

lemma pack_edge_keeps: "pack_edge dep d a b en = Inr en' \<Longrightarrow> wf_engine en \<Longrightarrow> wf_engine en'"
  by (auto simp: pack_edge_def split: if_splits elim!: rbindE intro: add_edge_keeps add_reference_keeps)

lemma load_pack_edge_keeps: "load_pack_edge dep v en = Inr en' \<Longrightarrow> wf_engine en \<Longrightarrow> wf_engine en'"
  unfolding load_pack_edge_def
  by (cases v) (auto simp del: list.set split: if_split_asm elim!: rbindE intro: pack_edge_keeps)

lemma load_pack_edge_kept: "kept wf_engine (load_pack_edge dep)"
  by (auto simp: kept_def intro: load_pack_edge_keeps)

lemma load_pack_keeps: "load_pack p en = Inr en' \<Longrightarrow> wf_engine en \<Longrightarrow> wf_engine en'"
  unfolding load_pack_def
  by (auto split: if_split_asm elim!: rbindE) (erule rfold_wf [OF _ load_pack_edge_kept], assumption)+

lemma load_pack_kept: "kept wf_engine load_pack"
  by (auto simp: kept_def intro: load_pack_keeps)

lemma named_edges_keep:
  "rfold (\<lambda>v en. rbind (named_entry dflt v) (\<lambda>(n, ty). add_edge (f n) (g n) ty en)) vs en = Inr en' \<Longrightarrow> wf_engine en \<Longrightarrow> wf_engine en'"
  by (erule rfold_wf) (auto simp: kept_def elim!: rbindE intro: add_edge_keeps)

lemma load_dependencies_keeps: "load_dependencies e en = Inr en' \<Longrightarrow> wf_engine en \<Longrightarrow> wf_engine en'"
  unfolding load_dependencies_def Let_def
  by (cases "snd e", auto split: if_split_asm elim!: rbindE)
    (drule named_edges_keep [where g = "\<lambda>n. n" and f = "\<lambda>n. VStr (norm_text (fst e))"], assumption,
     erule (1) named_edges_keep [where f = "\<lambda>n. n" and g = "\<lambda>n. VStr (norm_text (fst e))"])

lemma load_dependencies_kept: "kept wf_engine load_dependencies"
  by (auto simp: kept_def intro: load_dependencies_keeps)

lemma set_level_keeps: "set_level l v en = Inr en' \<Longrightarrow> wf_engine en \<Longrightarrow> wf_engine en'"
  unfolding set_level_def by (auto simp: wf_engine_def split: option.splits list.splits elim!: rbindE)

lemma set_level_kept: "kept wf_engine (set_level l)"
  by (auto simp: kept_def intro: set_level_keeps)

lemma load_levels_keeps: "load_levels e en = Inr en' \<Longrightarrow> wf_engine en \<Longrightarrow> wf_engine en'"
  unfolding load_levels_def by (auto elim!: rbindE) (erule rfold_wf [OF _ set_level_kept], assumption)+

lemma load_levels_kept: "kept wf_engine load_levels"
  by (auto simp: kept_def intro: load_levels_keeps)

lemma targets_append: "targets_ok ts \<Longrightarrow> name_ok (tg_repo t) \<Longrightarrow> targets_ok (ts @ [t])"
  by (auto simp: targets_ok_def)

lemma some_text_ok: "normalize_repo_id v = Inr t \<Longrightarrow> some_text t \<Longrightarrow> name_ok (the t)"
  by (cases t) (simp_all add: some_text_def normalize_ok)

lemma cascade_target_keeps: "cascade_target v ts = Inr ts' \<Longrightarrow> targets_ok ts \<Longrightarrow> targets_ok ts'"
  unfolding cascade_target_def by (cases v, auto elim!: rbindE intro!: targets_append split: if_split_asm) (erule (1) some_text_ok)

lemma cascade_target_kept: "kept targets_ok cascade_target"
  by (auto simp: kept_def intro: cascade_target_keeps)

lemma propagate_target_keeps: "propagate_target v ts = Inr ts' \<Longrightarrow> targets_ok ts \<Longrightarrow> targets_ok ts'"
  unfolding propagate_target_def by (cases v, auto elim!: rbindE intro!: targets_append split: if_split_asm) (erule (1) some_text_ok)

lemma propagate_target_kept: "kept targets_ok propagate_target"
  by (auto simp: kept_def intro: propagate_target_keeps)

lemma legacy_target_keeps: "legacy_target a m v ts = Inr ts' \<Longrightarrow> targets_ok ts \<Longrightarrow> targets_ok ts'"
  unfolding legacy_target_def by (auto elim!: rbindE intro!: targets_append split: if_split_asm) (erule (1) some_text_ok)

lemma legacy_target_kept: "kept targets_ok (legacy_target a m)"
  by (auto simp: kept_def intro: legacy_target_keeps)

lemma legacy_action_keeps: "legacy_action m v ts = Inr ts' \<Longrightarrow> targets_ok ts \<Longrightarrow> targets_ok ts'"
  unfolding legacy_action_def by (cases v, auto elim!: rbindE) (erule rfold_targets [OF _ legacy_target_kept], assumption)

lemma legacy_action_kept: "kept targets_ok (legacy_action m)"
  by (auto simp: kept_def intro: legacy_action_keeps)

lemma targets_ok_Nil [simp]: "targets_ok []"
  by (simp add: targets_ok_def)

lemma rules_append: "rules_ok rs \<Longrightarrow> targets_ok (ru_targets r) \<Longrightarrow> rules_ok (rs @ [r])"
  by (auto simp: rules_ok_def)

lemma load_rule_keeps: "load_rule v rs = Inr rs' \<Longrightarrow> rules_ok rs \<Longrightarrow> rules_ok rs'"
  unfolding load_rule_def
  by (cases v, auto elim!: rbindE intro!: rules_append split: if_split_asm)
    (erule rfold_targets, simp add: cascade_target_kept propagate_target_kept, simp)+

lemma load_rule_kept: "kept rules_ok load_rule"
  by (auto simp: kept_def intro: load_rule_keeps)

lemma load_legacy_rule_keeps: "load_legacy_rule e rs = Inr rs' \<Longrightarrow> rules_ok rs \<Longrightarrow> rules_ok rs'"
  unfolding load_legacy_rule_def Let_def
  by (cases "snd e", auto elim!: rbindE intro!: rules_append split: if_split_asm pyval.splits)
    (erule rfold_targets, simp add: legacy_action_kept, simp)

lemma load_legacy_rule_kept: "kept rules_ok load_legacy_rule"
  by (auto simp: kept_def intro: load_legacy_rule_keeps)

lemma load_wf:
  assumes "load dep packs rules = Inr en"
  shows "wf_engine en" "rules_ok (en_rules en)"
proof -
  from assms obtain edges en1 en2 deps en3 levels en4 rs rules1 ls rules2 where
    1: "rfold load_edge edges empty_engine = Inr en1" and 2: "rfold (\<lambda>p. load_pack (snd p)) packs en1 = Inr en2"
    and 3: "rfold load_dependencies deps en2 = Inr en3" and 4: "rfold load_levels levels en3 = Inr en4"
    and 5: "rfold load_rule rs [] = Inr rules1" and 6: "rfold load_legacy_rule ls rules1 = Inr rules2"
    and en: "en = en4\<lparr>en_rules := rules2\<rparr>"
    unfolding load_def by (elim rbindE) (blast dest: sum.inject(2) [THEN iffD1, symmetric])
  have "wf_engine empty_engine" by (simp add: wf_engine_def empty_engine_def dgetdef_def)
  then have "wf_engine en1" by (rule rfold_kept [OF 1 load_edge_kept])
  then have "wf_engine en2" using load_pack_kept by (auto simp: kept_def intro: rfold_wf [OF 2])
  then have "wf_engine en3" by (rule rfold_kept [OF 3 load_dependencies_kept])
  then have "wf_engine en4" by (rule rfold_kept [OF 4 load_levels_kept])
  then show "wf_engine en" by (simp add: en wf_engine_def)
  have "rules_ok []" by (simp add: rules_ok_def)
  then have "rules_ok rules1" by (rule rfold_kept [OF 5 load_rule_kept])
  then have "rules_ok rules2" by (rule rfold_kept [OF 6 load_legacy_rule_kept])
  then show "rules_ok (en_rules en)" by (simp add: en)
qed

lemma dependents_edges: "wf_engine en \<Longrightarrow> name_ok r \<Longrightarrow> x \<in> set (dependents_of en r) \<longleftrightarrow> (\<exists>ty. (x, r, ty) \<in> set (en_edges en))"
  by (simp add: dependents_of_def norm_or_self_ok wf_engine_def)

lemma edge_names: "wf_engine en \<Longrightarrow> (a, b, ty) \<in> set (en_edges en) \<Longrightarrow> name_ok a \<and> name_ok b"
  by (auto simp: wf_engine_def)

section \<open>The order of merging\<close>

text \<open>Every repository that is not archived, in the order of the levels.\<close>

lemma merge_order_levels:
  assumes "dwf (en_dep_levels en)"
  shows "set (merge_order en) = {r. \<exists>l \<ge> 0. dget (en_dep_levels en) r = Some l}"
    "sorted (map (\<lambda>r. the (dget (en_dep_levels en) r)) (merge_order en))"
proof -
  let ?d = "en_dep_levels en" and ?f = "filter (\<lambda>(r, level). 0 \<le> level) (sort_key snd (en_dep_levels en))"
  have in_d: "dget ?d r = Some l \<longleftrightarrow> (r, l) \<in> set ?d" for r l
    using dget_in_dwf [OF assms] dget_Some_in by metis
  then show "set (merge_order en) = {r. \<exists>l \<ge> 0. dget ?d r = Some l}"
    unfolding merge_order_def by force
  have "map (\<lambda>r. the (dget ?d r)) (merge_order en) = map snd ?f"
    unfolding merge_order_def by (auto simp: in_d [THEN iffD2])
  moreover have "sorted (map snd ?f)" by (rule sorted_filter) simp
  ultimately show "sorted (map (\<lambda>r. the (dget ?d r)) (merge_order en))" by simp
qed

section \<open>A small graph\<close>

definition sample_dep :: pyval where
  "sample_dep = VDict [(''edges'', VList [
     VDict [(''from'', VStr ''App''), (''to'', VStr ''core_lib'')],
     VDict [(''from'', VStr ''site''), (''to'', VStr ''app'')],
     VDict [(''from'', VStr ''site''), (''to'', VStr ''core-lib'')]])]"

definition sample_engine :: Engine where
  "sample_engine = (case load sample_dep [] (VDict []) of Inl e \<Rightarrow> empty_engine | Inr en \<Rightarrow> en)"

lemma sample_loads: "load sample_dep [] (VDict []) = Inr sample_engine"
proof -
  have "\<not> isl (load sample_dep [] (VDict []))" by code_simp
  then show ?thesis by (auto simp: sample_engine_def split: sum.splits)
qed

end
