(* ===== verification/Propagation_Graph.thy ===== *)
theory Propagation_Graph
  imports Propagation_Engine
begin

text \<open>
  Correctness of the two graph searches of \<open>engines/propagation_engine.py\<close>: the cascade reports every
  repository at its shortest distance, and cycle detection finds a cycle exactly if there is one.
\<close>

section \<open>The cascade is the set of shortest distances\<close>

text \<open>The elements of a list that are not in \<open>V\<close>, each once, in the order of their first occurrence.\<close>

fun fresh :: "'a list \<Rightarrow> 'a list \<Rightarrow> 'a list" where
  "fresh V [] = []"
| "fresh V (x # xs) = (if x \<in> set V then fresh V xs else x # fresh (V @ [x]) xs)"

lemma set_fresh: "set (fresh V xs) = set xs - set V"
  by (induction V xs rule: fresh.induct) auto

lemma distinct_fresh: "distinct (fresh V xs)"
  by (induction V xs rule: fresh.induct) (auto simp: set_fresh)

lemma visit_all:
  "fold (visit c d r) xs (V, Q, R) =
     (V @ fresh V xs, Q @ map (\<lambda>x. (x, d + 1, r)) (fresh V xs), R @ map (derived_step c d r) (fresh V xs))"
  by (induction xs arbitrary: V Q R) auto

definition at_depth :: "int \<Rightarrow> pyval \<Rightarrow> string list \<Rightarrow> cascade_queue" where
  "at_depth d r xs = map (\<lambda>x. (x, d, r)) xs"

definition reported :: "Step list \<Rightarrow> (string \<times> int) set" where
  "reported R = (\<lambda>s. (st_repo s, st_depth s)) ` set R"

lemma reported_append: "reported (R @ R') = reported R \<union> reported R'"
  by (simp add: reported_def image_Un)

lemma bfs_stop: "m \<le> d \<Longrightarrow> bfs en m (at_depth d r xs) V R = R"
  by (induction xs) (simp_all add: at_depth_def bfs.simps(2))

lemma at_depth_Nil: "at_depth d r [] = []"
  by (simp add: at_depth_def)

text \<open>One round: the queue of one depth is replaced by the queue of the next.\<close>

lemma bfs_round:
  assumes "d < m"
  shows "\<exists>N' R'. bfs en m (at_depth d r L @ at_depth (d + 1) r N) V R = bfs en m (at_depth (d + 1) r (N @ N')) (V @ N') (R @ R') \<and>
    set N' = (\<Union>x \<in> set L. set (dependents_of en x)) - set V \<and> distinct N' \<and> map st_repo R' = N' \<and> (\<forall>s \<in> set R'. st_depth s = d + 1)"
proof (induction L arbitrary: N V R)
  case Nil
  show ?case by (intro exI [of _ "[]"]) (simp add: at_depth_def)
next
  case (Cons x L)
  let ?F = "fresh V (dependents_of en x)"
  have "bfs en m (at_depth d r (x # L) @ at_depth (d + 1) r N) V R =
      bfs en m (at_depth d r L @ at_depth (d + 1) r (N @ ?F)) (V @ ?F) (R @ map (derived_step x d r) ?F)"
    using assms by (simp add: at_depth_def bfs.simps(2) visit_all)
  moreover obtain N' R' where
    "bfs en m (at_depth d r L @ at_depth (d + 1) r (N @ ?F)) (V @ ?F) (R @ map (derived_step x d r) ?F) =
      bfs en m (at_depth (d + 1) r ((N @ ?F) @ N')) ((V @ ?F) @ N') ((R @ map (derived_step x d r) ?F) @ R')"
    and N': "set N' = (\<Union>x \<in> set L. set (dependents_of en x)) - set (V @ ?F)" "distinct N'" "map st_repo R' = N'" "\<forall>s \<in> set R'. st_depth s = d + 1"
    using Cons.IH [of "N @ ?F" "V @ ?F" "R @ map (derived_step x d r) ?F"] by (elim exE conjE)
  ultimately have "bfs en m (at_depth d r (x # L) @ at_depth (d + 1) r N) V R =
      bfs en m (at_depth (d + 1) r (N @ (?F @ N'))) (V @ (?F @ N')) (R @ (map (derived_step x d r) ?F @ R'))" by simp
  moreover have "set (?F @ N') = (\<Union>x \<in> set (x # L). set (dependents_of en x)) - set V"
    using N'(1) by (auto simp: set_fresh)
  moreover have "distinct (?F @ N')" using N'(1,2) by (auto simp: distinct_fresh)
  moreover have "map st_repo (map (derived_step x d r) ?F @ R') = ?F @ N'"
    using N'(3) by (simp add: derived_step_def comp_def)
  moreover have "\<forall>s \<in> set (map (derived_step x d r) ?F @ R'). st_depth s = d + 1"
    using N'(4) by (auto simp: derived_step_def)
  ultimately show ?case by (intro exI [of _ "?F @ N'"] exI [of _ "map (derived_step x d r) ?F @ R'"] conjI)
qed

text \<open>Repositories \<open>n\<close> dependency edges above a set, and those whose shortest distance is \<open>n\<close>.\<close>

fun hops :: "Engine \<Rightarrow> string set \<Rightarrow> nat \<Rightarrow> string set" where
  "hops en S 0 = S"
| "hops en S (Suc n) = {x. \<exists>y \<in> hops en S n. \<exists>ty. (x, y, ty) \<in> set (en_edges en)}"

definition at_distance :: "Engine \<Rightarrow> string set \<Rightarrow> nat \<Rightarrow> string set" where
  "at_distance en S n = hops en S n - (\<Union>k < n. hops en S k)"

lemma hops_at_distance: "x \<in> hops en S n \<Longrightarrow> \<exists>k \<le> n. x \<in> at_distance en S k"
proof -
  assume A: "x \<in> hops en S n"
  define k where "k = (LEAST k. x \<in> hops en S k)"
  have "x \<in> hops en S k" "k \<le> n" using A by (auto simp: k_def intro: LeastI Least_le)
  moreover have "x \<notin> hops en S j" if "j < k" for j using that not_less_Least unfolding k_def by blast
  ultimately show ?thesis by (auto simp: at_distance_def)
qed

lemma hops_names:
  assumes "wf_engine en" "\<forall>x \<in> S. name_ok x"
  shows "x \<in> hops en S n \<Longrightarrow> name_ok x"
proof (induction n arbitrary: x)
  case 0
  with assms(2) show ?case by simp
next
  case (Suc n)
  then show ?case using edge_names [OF assms(1)] by auto
qed

lemma next_distance:
  assumes wf: "wf_engine en" and S: "\<forall>x \<in> S. name_ok x" and c: "\<forall>x ty. (x, c, ty) \<in> set (en_edges en) \<longrightarrow> x \<in> S"
  shows "(\<Union>x \<in> at_distance en S n - {c}. set (dependents_of en x)) - insert c (\<Union>k \<le> n. at_distance en S k) =
    at_distance en S (Suc n) - {c}"
    (is "?lhs = ?rhs")
proof (rule set_eqI, rule iffI)
  fix x assume "x \<in> ?lhs"
  then obtain y where y: "y \<in> at_distance en S n" "x \<in> set (dependents_of en y)"
    and n: "x \<noteq> c" "\<forall>k \<le> n. x \<notin> at_distance en S k" by auto
  have "name_ok y" using y(1) hops_names [OF wf S] by (auto simp: at_distance_def)
  with y wf have "x \<in> hops en S (Suc n)" by (auto simp: dependents_edges at_distance_def)
  moreover have "x \<notin> hops en S k" if "k < Suc n" for k
    using hops_at_distance [of x en S k] n(2) that by (meson less_Suc_eq_le order_trans)
  ultimately show "x \<in> ?rhs" using n(1) by (auto simp: at_distance_def)
next
  fix x assume x: "x \<in> ?rhs"
  then have *: "x \<in> hops en S (Suc n)" "\<forall>k < Suc n. x \<notin> hops en S k" "x \<noteq> c" unfolding at_distance_def by blast+
  from *(1) obtain y ty where y: "y \<in> hops en S n" "(x, y, ty) \<in> set (en_edges en)" by auto
  have "y \<noteq> c" using y(2) c *(2) by (metis hops.simps(1) zero_less_Suc)
  moreover have "y \<notin> hops en S j" if "j < n" for j
  proof
    assume "y \<in> hops en S j"
    then have "x \<in> hops en S (Suc j)" using y(2) by auto
    with *(2) that show False by (simp del: hops.simps)
  qed
  ultimately have "y \<in> at_distance en S n - {c}" using y(1) by (auto simp: at_distance_def)
  moreover have "x \<in> set (dependents_of en y)"
    using y hops_names [OF wf S y(1)] wf by (auto simp: dependents_edges)
  moreover have "x \<notin> at_distance en S k" if "k \<le> n" for k
    using *(2) that by (auto simp: at_distance_def)
  ultimately show "x \<in> ?lhs" using *(3) by auto
qed

lemma bfs_distances:
  assumes wf: "wf_engine en" and S: "\<forall>x \<in> S. name_ok x" and c: "\<forall>x ty. (x, c, ty) \<in> set (en_edges en) \<longrightarrow> x \<in> S"
  shows "set L = at_distance en S n - {c} \<Longrightarrow> set V = insert c (\<Union>k \<le> n. at_distance en S k) \<Longrightarrow>
    reported R = {(x, int k + 1) | x k. k \<le> n \<and> x \<in> at_distance en S k - {c}} \<Longrightarrow> distinct (map st_repo R) \<Longrightarrow>
    reported (bfs en m (at_depth (int n + 1) r L) V R) =
      {(x, int k + 1) | x k. (k \<le> n \<or> int k + 1 \<le> m) \<and> x \<in> at_distance en S k - {c}} \<and>
    distinct (map st_repo (bfs en m (at_depth (int n + 1) r L) V R))"
proof (induction "nat (m - (int n + 1))" arbitrary: n L V R)
  case 0
  then have m: "m \<le> int n + 1" by simp
  then have "k \<le> n \<or> int k + 1 \<le> m \<longleftrightarrow> k \<le> n" for k by auto
  with 0(4,5) bfs_stop [OF m] show ?case by simp
next
  case (Suc j)
  then have "int n + 1 < m" by simp
  have e: "int (Suc n) + 1 = int n + 1 + 1" by simp
  from bfs_round [OF \<open>int n + 1 < m\<close>, of en r L "[]" V R] obtain L' R' where
    step: "bfs en m (at_depth (int n + 1) r L) V R = bfs en m (at_depth (int (Suc n) + 1) r L') (V @ L') (R @ R')"
    and L': "set L' = (\<Union>x \<in> set L. set (dependents_of en x)) - set V" "distinct L'" "map st_repo R' = L'" "\<forall>s \<in> set R'. st_depth s = int n + 1 + 1"
    unfolding e append_Nil at_depth_Nil append_Nil2 by (elim exE conjE)
  have d: "set L' = at_distance en S (Suc n) - {c}"
    using next_distance [OF wf S c, of n] Suc.prems(1,2) L'(1) by simp
  have V: "set (V @ L') = insert c (\<Union>k \<le> Suc n. at_distance en S k)"
    unfolding set_append Suc.prems(2) d atMost_Suc UN_insert by blast
  have "reported R' = (\<lambda>x. (x, int n + 1 + 1)) ` set L'"
    unfolding L'(3) [symmetric] using L'(4) by (auto simp: reported_def image_iff)
  then have "reported R' = (\<lambda>x. (x, int (Suc n) + 1)) ` (at_distance en S (Suc n) - {c})" unfolding d e .
  then have R: "reported (R @ R') = {(x, int k + 1) | x k. k \<le> Suc n \<and> x \<in> at_distance en S k - {c}}"
    unfolding reported_append Suc.prems(3) le_Suc_eq by blast
  have "st_repo s \<in> set V" if "s \<in> set R" for s
  proof -
    have "(st_repo s, st_depth s) \<in> reported R" using that by (simp add: reported_def)
    then show ?thesis unfolding Suc.prems(2,3) by auto
  qed
  then have "set (map st_repo R) \<inter> set L' = {}" using L'(1) by auto
  then have D: "distinct (map st_repo (R @ R'))"
    using Suc.prems(4) L'(2,3) by simp
  have "j = nat (m - (int (Suc n) + 1))" using Suc.hyps(2) by simp
  note IH = Suc.hyps(1) [OF this d V R D]
  have "k \<le> Suc n \<or> int k + 1 \<le> m \<longleftrightarrow> k \<le> n \<or> int k + 1 \<le> m" for k
    using \<open>int n + 1 < m\<close> by (auto simp: le_Suc_eq)
  with IH show ?case unfolding step by simp
qed

lemma seed_all:
  assumes "\<forall>t \<in> set ts. tg_repo t \<noteq> []"
  shows "\<exists>R'. fold (seed r) ts (V, Q, R) =
      (V @ fresh V (map tg_repo ts), Q @ at_depth 1 r (fresh V (map tg_repo ts)), R @ R') \<and>
    map st_repo R' = fresh V (map tg_repo ts) \<and> (\<forall>s \<in> set R'. st_depth s = 1)"
  using assms
proof (induction ts arbitrary: V Q R)
  case Nil
  then show ?case by (simp add: at_depth_def)
next
  case (Cons t ts)
  show ?case
  proof (cases "tg_repo t \<in> set V")
    case True
    then have "seed r t (V, Q, R) = (V, Q, R)" by (simp add: seed_def Let_def)
    with Cons.IH [of V Q R] Cons.prems True show ?thesis by simp
  next
    case False
    then have s: "seed r t (V, Q, R) = (V @ [tg_repo t], Q @ [(tg_repo t, 1, r)], R @ [seed_step r t])"
      using Cons.prems by (simp add: seed_def Let_def)
    have "\<forall>t \<in> set ts. tg_repo t \<noteq> []" using Cons.prems by simp
    from Cons.IH [OF this, of "V @ [tg_repo t]" "Q @ [(tg_repo t, 1, r)]" "R @ [seed_step r t]"] obtain R' where
      "fold (seed r) ts (V @ [tg_repo t], Q @ [(tg_repo t, 1, r)], R @ [seed_step r t]) =
        ((V @ [tg_repo t]) @ fresh (V @ [tg_repo t]) (map tg_repo ts),
         (Q @ [(tg_repo t, 1, r)]) @ at_depth 1 r (fresh (V @ [tg_repo t]) (map tg_repo ts)), (R @ [seed_step r t]) @ R')"
      "map st_repo R' = fresh (V @ [tg_repo t]) (map tg_repo ts)" "\<forall>s \<in> set R'. st_depth s = 1"
      by (elim exE conjE)
    with s False show ?thesis
      by (intro exI [of _ "seed_step r t # R'"]) (simp add: at_depth_def seed_step_def)
  qed
qed

text \<open>The repositories a change reaches directly: the targets of its rule and its dependents.\<close>

definition direct_targets :: "Engine \<Rightarrow> string \<Rightarrow> string set" where
  "direct_targets en c =
     (case get_rule en c of None \<Rightarrow> {} | Some r \<Rightarrow> tg_repo ` set (ru_targets r)) \<union> {x. \<exists>ty. (x, c, ty) \<in> set (en_edges en)}"

lemma dependents_of_changed:
  "wf_engine en \<Longrightarrow> x \<in> set (dependents_of en (norm_or_self c)) \<longleftrightarrow> (\<exists>ty. (x, norm_or_self c, ty) \<in> set (en_edges en))"
  by (simp add: dependents_of_def norm_or_self_idem wf_engine_def)

lemma seed_names:
  assumes "wf_engine en" "c = norm_or_self changed"
  shows "set (map tg_repo (seed_targets en c (get_rule en c))) = direct_targets en c"
  using dependents_of_changed [OF assms(1), of _ changed]
  by (auto simp: seed_targets_def direct_targets_def Let_def assms(2) image_iff split: option.splits)

lemma direct_names:
  assumes "wf_engine en" "rules_ok (en_rules en)"
  shows "\<forall>x \<in> direct_targets en c. name_ok x"
proof -
  have "name_ok (tg_repo t)" if "get_rule en c = Some r" "t \<in> set (ru_targets r)" for r t
    using that assms(2) by (auto simp: get_rule_def find_Some_iff rules_ok_def targets_ok_def)
  then show ?thesis
    using edge_names [OF assms(1)] by (auto simp: direct_targets_def split: option.splits)
qed

lemma reported_sort: "reported (sort_key f R) = reported R"
  by (simp add: reported_def)

lemma distinct_map_sort: "distinct (map g (sort_key f R)) = distinct (map g R)"
  by (rule mset_eq_imp_distinct_iff) simp

lemma cascade_distances:
  assumes wf: "wf_engine en" and ok: "rules_ok (en_rules en)" and c: "c = norm_or_self changed" and m: "m = rule_limit (get_rule en c) max_depth"
  shows "reported (compute_cascade en changed max_depth) =
      {(x, int n + 1) | x n. (n \<le> 0 \<or> int n + 1 \<le> m) \<and> x \<in> at_distance en (direct_targets en c) n - {c}}"
    and "distinct (map st_repo (compute_cascade en changed max_depth))"
proof -
  define ts where "ts = seed_targets en c (get_rule en c)"
  define r where "r = (case get_rule en c of Some r \<Rightarrow> ru_id r | None \<Rightarrow> VStr ''dependency_graph'')"
  define F where "F = fresh [c] (map tg_repo ts)"
  have ts: "set (map tg_repo ts) = direct_targets en c" using seed_names [OF wf c] by (simp add: ts_def)
  have names: "\<forall>x \<in> direct_targets en c. name_ok x" by (rule direct_names [OF wf ok])
  then have "\<forall>t \<in> set ts. tg_repo t \<noteq> []" using ts by (auto simp: name_ok_def)
  from seed_all [OF this, of r "[c]" "[]" "[]"] obtain R where
    fold: "fold (seed r) ts ([c], [], []) = ([c] @ F, at_depth 1 r F, R)" and R: "map st_repo R = F" "\<forall>s \<in> set R. st_depth s = 1"
    unfolding F_def append_Nil by (elim exE conjE)
  have cc: "compute_cascade en changed max_depth = sort_key st_depth (bfs en m (at_depth 1 r F) ([c] @ F) R)"
    using fold unfolding compute_cascade_def Let_def c [symmetric] m r_def ts_def by simp
  have F: "set F = at_distance en (direct_targets en c) 0 - {c}"
    unfolding F_def set_fresh ts by (simp add: at_distance_def)
  have "reported R = (\<lambda>x. (x, 1)) ` set F" unfolding R(1) [symmetric] using R(2) by (auto simp: reported_def image_iff)
  then have rep: "reported R = {(x, int k + 1) | x k. k \<le> 0 \<and> x \<in> at_distance en (direct_targets en c) k - {c}}"
    unfolding F by auto
  have V: "set ([c] @ F) = insert c (\<Union>k \<le> 0. at_distance en (direct_targets en c) k)" using F by auto
  have D: "distinct (map st_repo R)" unfolding R(1) F_def by (rule distinct_fresh)
  have into: "\<forall>x ty. (x, c, ty) \<in> set (en_edges en) \<longrightarrow> x \<in> direct_targets en c" by (auto simp: direct_targets_def)
  note B = bfs_distances [OF wf names into F V rep D, of m r]
  from B show "reported (compute_cascade en changed max_depth) =
      {(x, int n + 1) | x n. (n \<le> 0 \<or> int n + 1 \<le> m) \<and> x \<in> at_distance en (direct_targets en c) n - {c}}"
    unfolding cc reported_sort by simp
  from B show "distinct (map st_repo (compute_cascade en changed max_depth))"
    unfolding cc distinct_map_sort by simp
qed

section \<open>Cycle detection is exact\<close>

definition edge_rel :: "adjacency \<Rightarrow> (string \<times> string) set" where
  "edge_rel adj = {(a, b). b \<in> set (dgetdef adj a [])}"

fun walk :: "adjacency \<Rightarrow> string list \<Rightarrow> bool" where
  "walk adj (a # b # xs) \<longleftrightarrow> (a, b) \<in> edge_rel adj \<and> walk adj (b # xs)"
| "walk adj _ \<longleftrightarrow> True"

definition is_cycle :: "adjacency \<Rightarrow> string list \<Rightarrow> bool" where
  "is_cycle adj c \<longleftrightarrow> 2 \<le> length c \<and> hd c = last c \<and> walk adj c"

lemma walk_nth: "walk adj xs \<longleftrightarrow> (\<forall>i. Suc i < length xs \<longrightarrow> (xs ! i, xs ! Suc i) \<in> edge_rel adj)"
proof (induction adj xs rule: walk.induct)
  case (1 adj a b xs)
  then show ?case by (auto simp: nth_Cons' gr0_conv_Suc) (metis Suc_pred neq0_conv not_less_eq)
qed simp_all

lemma walk_snoc: "walk adj xs \<Longrightarrow> (xs \<noteq> [] \<Longrightarrow> (last xs, y) \<in> edge_rel adj) \<Longrightarrow> walk adj (xs @ [y])"
  by (induction adj xs rule: walk.induct) auto

lemma walk_tl: "walk adj (x # xs) \<Longrightarrow> walk adj xs"
  by (cases xs) auto

lemma walk_dropWhile: "walk adj xs \<Longrightarrow> walk adj (dropWhile P xs)"
  by (induction xs) (auto dest: walk_tl)

lemma last_dropWhile: "dropWhile P xs \<noteq> [] \<Longrightarrow> last (dropWhile P xs) = last xs"
  by (induction xs) (auto split: if_splits)

lemma walk_trancl: "walk adj (a # xs) \<Longrightarrow> xs \<noteq> [] \<Longrightarrow> (a, last xs) \<in> (edge_rel adj)\<^sup>+"
proof (induction xs arbitrary: a)
  case (Cons b xs)
  then show ?case by (cases "xs = []") (auto intro: trancl_into_trancl2)
qed simp

lemma cycle_not_acyclic: "is_cycle adj c \<Longrightarrow> \<not> acyclic (edge_rel adj)"
  using walk_trancl [of adj "hd c" "tl c"]
  by (cases c) (auto simp: is_cycle_def acyclic_def last_tl split: if_splits)

text \<open>Nodes in the order they were finished, the last one first: all neighbours were finished before.\<close>

fun finished :: "adjacency \<Rightarrow> string list \<Rightarrow> bool" where
  "finished adj [] \<longleftrightarrow> True"
| "finished adj (x # fs) \<longleftrightarrow> x \<notin> set fs \<and> set (dgetdef adj x []) \<subseteq> set fs \<and> finished adj fs"

lemma finished_closed: "finished adj fs \<Longrightarrow> a \<in> set fs \<Longrightarrow> (a, b) \<in> edge_rel adj \<Longrightarrow> b \<in> set fs"
  by (induction fs) (auto simp: edge_rel_def)

lemma finished_reach: "(a, b) \<in> (edge_rel adj)\<^sup>* \<Longrightarrow> finished adj fs \<Longrightarrow> a \<in> set fs \<Longrightarrow> b \<in> set fs"
  by (induction rule: rtrancl_induct) (auto intro: finished_closed)

lemma finished_no_loop: "finished adj fs \<Longrightarrow> a \<in> set fs \<Longrightarrow> (a, a) \<notin> (edge_rel adj)\<^sup>+"
proof (induction fs)
  case (Cons x fs)
  show ?case
  proof (cases "a = x")
    case True
    show ?thesis
    proof
      assume "(a, a) \<in> (edge_rel adj)\<^sup>+"
      then obtain y where "(a, y) \<in> edge_rel adj" "(y, a) \<in> (edge_rel adj)\<^sup>*" by (meson tranclD)
      with Cons.prems True have "a \<in> set fs" by (intro finished_reach [of y a]) (auto simp: edge_rel_def)
      with Cons.prems True show False by simp
    qed
  next
    case False
    with Cons show ?thesis by simp
  qed
qed simp

definition dfs_inv :: "adjacency \<Rightarrow> Dfs \<Rightarrow> bool" where
  "dfs_inv adj s \<longleftrightarrow>
     set (ds_stack s) = set (ds_path s) \<and> distinct (ds_path s) \<and> set (ds_path s) \<subseteq> set (ds_visited s) \<and> walk adj (ds_path s) \<and>
     (\<forall>c \<in> set (ds_cycles s). is_cycle adj c) \<and>
     (ds_cycles s = [] \<longrightarrow> (\<exists>fs. finished adj fs \<and> set fs = set (ds_visited s) - set (ds_path s)))"

definition dfs_done :: "adjacency \<Rightarrow> string list \<Rightarrow> Dfs \<Rightarrow> Dfs \<Rightarrow> bool" where
  "dfs_done adj ns s s' \<longleftrightarrow>
     dfs_inv adj s' \<and> ds_path s' = ds_path s \<and> set (ds_visited s) \<union> set ns \<subseteq> set (ds_visited s') \<and>
     (ds_cycles s' = [] \<longrightarrow> ds_cycles s = [] \<and> set ns \<inter> set (ds_path s) = {})"

lemma record_cycle_inv:
  assumes "dfs_inv adj s" "n \<in> set (ds_stack s)" "(last (ds_path s), n) \<in> edge_rel adj"
  shows "dfs_inv adj (record_cycle n s)" "ds_cycles (record_cycle n s) \<noteq> []"
    "ds_path (record_cycle n s) = ds_path s" "ds_visited (record_cycle n s) = ds_visited s"
proof -
  let ?d = "dropWhile (\<lambda>x. x \<noteq> n) (ds_path s)"
  have n: "n \<in> set (ds_path s)" using assms by (simp add: dfs_inv_def)
  then have d: "?d \<noteq> []" by (auto simp: dropWhile_eq_Nil_conv)
  then have hd: "hd ?d = n" using hd_dropWhile [of "\<lambda>x. x \<noteq> n" "ds_path s"] by simp
  have last: "last ?d = last (ds_path s)" using d by (rule last_dropWhile)
  have "walk adj (?d @ [n])"
    using assms by (intro walk_snoc walk_dropWhile) (simp_all add: dfs_inv_def last)
  then have "is_cycle adj (?d @ [n])" using d hd by (cases ?d) (simp_all add: is_cycle_def)
  with assms(1) show "dfs_inv adj (record_cycle n s)" by (auto simp: record_cycle_def dfs_inv_def Let_def)
  show "ds_cycles (record_cycle n s) \<noteq> []" "ds_path (record_cycle n s) = ds_path s" "ds_visited (record_cycle n s) = ds_visited s"
    by (auto simp: record_cycle_def Let_def)
qed

lemma enter_inv:
  assumes "dfs_inv adj s" "n \<notin> set (ds_visited s)" "ds_path s \<noteq> [] \<longrightarrow> (last (ds_path s), n) \<in> edge_rel adj"
  shows "dfs_inv adj (enter n s)"
proof -
  have "walk adj (ds_path s @ [n])" using assms by (intro walk_snoc) (auto simp: dfs_inv_def)
  moreover have "set (ds_visited s @ [n]) - set (ds_path s @ [n]) = set (ds_visited s) - set (ds_path s)"
    using assms by (auto simp: dfs_inv_def)
  ultimately show ?thesis using assms by (auto simp: dfs_inv_def enter_def)
qed

lemma leave_inv:
  assumes s: "dfs_inv adj s" and n: "n \<notin> set (ds_visited s)" and fin: "dfs_done adj (dgetdef adj n []) (enter n s) s1"
  shows "dfs_inv adj (leave n s1)" "ds_path (leave n s1) = ds_path s" "set (ds_visited s) \<union> {n} \<subseteq> set (ds_visited (leave n s1))"
    "ds_cycles (leave n s1) = ds_cycles s1" "ds_cycles s1 = [] \<longrightarrow> ds_cycles s = []"
proof -
  have p: "ds_path s1 = ds_path s @ [n]" and i: "dfs_inv adj s1" using fin by (simp_all add: dfs_done_def enter_def)
  have np: "n \<notin> set (ds_path s)" using s n by (auto simp: dfs_inv_def)
  have nv: "n \<in> set (ds_visited s1)" using fin by (simp add: dfs_done_def enter_def)
  have "\<exists>fs. finished adj fs \<and> set fs = set (ds_visited s1) - set (ds_path s)" if e: "ds_cycles s1 = []"
  proof -
    obtain fs where fs: "finished adj fs" "set fs = set (ds_visited s1) - set (ds_path s1)" using i e by (auto simp: dfs_inv_def)
    have "set (dgetdef adj n []) \<subseteq> set fs"
      using fin e p fs(2) by (auto simp: dfs_done_def enter_def)
    then have "finished adj (n # fs)" using fs p by simp
    moreover have "set (n # fs) = set (ds_visited s1) - set (ds_path s)" using fs(2) p nv np by auto
    ultimately show ?thesis by blast
  qed
  moreover have "walk adj (ds_path s)" using s by (simp add: dfs_inv_def)
  ultimately show "dfs_inv adj (leave n s1)" using i p np by (auto simp: dfs_inv_def leave_def)
  show "ds_path (leave n s1) = ds_path s" "ds_cycles (leave n s1) = ds_cycles s1" using p by (simp_all add: leave_def)
  show "set (ds_visited s) \<union> {n} \<subseteq> set (ds_visited (leave n s1))" "ds_cycles s1 = [] \<longrightarrow> ds_cycles s = []"
    using fin by (auto simp: dfs_done_def enter_def leave_def)
qed

lemma dfs_all_unfold:
  "dfs_all adj [] s = Some s"
  "n \<notin> set (ds_visited s) \<Longrightarrow>
     dfs_all adj (n # ns) s = Option.bind (dfs_all adj (dgetdef adj n []) (enter n s)) (\<lambda>s1. dfs_all adj ns (leave n s1))"
  "n \<in> set (ds_visited s) \<Longrightarrow> n \<in> set (ds_stack s) \<Longrightarrow> dfs_all adj (n # ns) s = dfs_all adj ns (record_cycle n s)"
  "n \<in> set (ds_visited s) \<Longrightarrow> n \<notin> set (ds_stack s) \<Longrightarrow> dfs_all adj (n # ns) s = dfs_all adj ns s"
  by (simp_all add: dfs_all.simps [of adj "[]"] dfs_all.simps [of adj "n # ns"])

lemma dfs_done_step:
  assumes "dfs_done adj ns s1 s'" "ds_path s1 = ds_path s" "set (ds_visited s) \<union> {n} \<subseteq> set (ds_visited s1)"
    "ds_cycles s1 = [] \<longrightarrow> ds_cycles s = [] \<and> n \<notin> set (ds_path s)"
  shows "dfs_done adj (n # ns) s s'"
  using assms unfolding dfs_done_def by auto

text \<open>The search returns, and what it returns.\<close>

lemma dfs_all_correct:
  assumes U: "finite U" "\<forall>n. set (dgetdef adj n []) \<subseteq> U"
  shows "dfs_inv adj s \<Longrightarrow> set ns \<subseteq> U \<Longrightarrow> (ds_path s \<noteq> [] \<longrightarrow> set ns \<subseteq> set (dgetdef adj (last (ds_path s)) [])) \<Longrightarrow>
    \<exists>s'. dfs_all adj ns s = Some s' \<and> dfs_done adj ns s s'"
proof (induction "card (U - set (ds_visited s))" arbitrary: ns s rule: less_induct)
  case less
  have "\<exists>s'. dfs_all adj ms t = Some s' \<and> dfs_done adj ms t s'"
    if "dfs_inv adj t" "set ms \<subseteq> U" "ds_path t \<noteq> [] \<longrightarrow> set ms \<subseteq> set (dgetdef adj (last (ds_path t)) [])" "set (ds_visited s) \<subseteq> set (ds_visited t)" for ms t
    using that
  proof (induction ms arbitrary: t)
    case Nil
    then show ?case by (simp add: dfs_all_unfold dfs_done_def)
  next
    case (Cons n ms)
    have ms: "set ms \<subseteq> U" "ds_path t \<noteq> [] \<longrightarrow> set ms \<subseteq> set (dgetdef adj (last (ds_path t)) [])"
      and e: "ds_path t \<noteq> [] \<longrightarrow> (last (ds_path t), n) \<in> edge_rel adj" using Cons.prems by (auto simp: edge_rel_def)
    consider (new) "n \<notin> set (ds_visited t)" | (loop) "n \<in> set (ds_visited t)" "n \<in> set (ds_stack t)" | (old) "n \<in> set (ds_visited t)" "n \<notin> set (ds_stack t)"
      by blast
    then show ?case
    proof cases
      case new
      have "U - set (ds_visited (enter n t)) \<subset> U - set (ds_visited s)"
        using new Cons.prems(2,4) by (auto simp: enter_def)
      then have "card (U - set (ds_visited (enter n t))) < card (U - set (ds_visited s))"
        using U(1) by (intro psubset_card_mono) auto
      have path: "ds_path (enter n t) \<noteq> [] \<longrightarrow> set (dgetdef adj n []) \<subseteq> set (dgetdef adj (last (ds_path (enter n t))) [])"
        by (simp add: enter_def)
      from less.hyps [OF \<open>card _ < card _\<close> enter_inv [OF Cons.prems(1) new e] spec [OF U(2)] path]
      obtain s1 where s1: "dfs_all adj (dgetdef adj n []) (enter n t) = Some s1" "dfs_done adj (dgetdef adj n []) (enter n t) s1"
        by (elim exE conjE)
      note l = leave_inv [OF Cons.prems(1) new s1(2)]
      have "set (ds_visited s) \<subseteq> set (ds_visited (leave n s1))" using l(3) Cons.prems(4) by blast
      from Cons.IH [OF l(1) ms(1) _ this] ms(2) l(2)
      obtain s' where s': "dfs_all adj ms (leave n s1) = Some s'" "dfs_done adj ms (leave n s1) s'" by auto
      have "n \<notin> set (ds_path t)" using new Cons.prems(1) by (auto simp: dfs_inv_def)
      then have "dfs_done adj (n # ms) t s'" using l by (intro dfs_done_step [OF s'(2)]) simp_all
      with s1(1) s'(1) new show ?thesis by (simp add: dfs_all_unfold)
    next
      case loop
      have "ds_path t \<noteq> []" using loop(2) Cons.prems(1) by (auto simp: dfs_inv_def)
      with e have e': "(last (ds_path t), n) \<in> edge_rel adj" by simp
      note r = record_cycle_inv [OF Cons.prems(1) loop(2) e']
      from Cons.IH [OF r(1) ms(1)] ms(2) Cons.prems(4) r(3,4)
      obtain s' where s': "dfs_all adj ms (record_cycle n t) = Some s'" "dfs_done adj ms (record_cycle n t) s'" by auto
      have "dfs_done adj (n # ms) t s'" using r loop(1) by (intro dfs_done_step [OF s'(2)]) simp_all
      with s'(1) loop show ?thesis by (simp add: dfs_all_unfold)
    next
      case old
      from Cons.IH [OF Cons.prems(1) ms(1)] ms(2) Cons.prems(4)
      obtain s' where s': "dfs_all adj ms t = Some s'" "dfs_done adj ms t s'" by auto
      have "n \<notin> set (ds_path t)" using old(2) Cons.prems(1) by (simp add: dfs_inv_def)
      then have "dfs_done adj (n # ms) t s'" using old(1) by (intro dfs_done_step [OF s'(2)]) simp_all
      with s'(1) old show ?thesis by (simp add: dfs_all_unfold)
    qed
  qed
  from this [OF less.prems] show ?case by simp
qed

lemma detect_cycles_correct:
  assumes src: "\<forall>a b. (a, b) \<in> edge_rel (en_adjacency en) \<longrightarrow> a \<in> set nodes \<and> b \<in> set nodes"
  shows "\<exists>cs. detect_cycles en nodes = Some cs \<and> (\<forall>c \<in> set cs. is_cycle (en_adjacency en) c) \<and> (cs = [] \<longleftrightarrow> acyclic (edge_rel (en_adjacency en)))"
proof -
  let ?adj = "en_adjacency en" and ?s = "\<lparr>ds_visited = [], ds_stack = [], ds_path = [], ds_cycles = []\<rparr>"
  have "dfs_inv ?adj ?s" by (auto simp: dfs_inv_def intro: exI [of _ "[]"])
  moreover have "\<forall>n. set (dgetdef ?adj n []) \<subseteq> set nodes" using src by (auto simp: edge_rel_def)
  ultimately obtain s' where s': "dfs_all ?adj nodes ?s = Some s'" "dfs_done ?adj nodes ?s s'"
    using dfs_all_correct [of "set nodes" ?adj ?s nodes] by auto
  have "acyclic (edge_rel ?adj)" if e: "ds_cycles s' = []"
  proof -
    obtain fs where fs: "finished ?adj fs" "set nodes \<subseteq> set fs"
      using s'(2) e by (auto simp: dfs_done_def dfs_inv_def)
    show ?thesis
    proof (rule acyclicI, rule allI, rule notI)
      fix x assume x: "(x, x) \<in> (edge_rel ?adj)\<^sup>+"
      then have "x \<in> set nodes" using src by (meson tranclD)
      with finished_no_loop [OF fs(1), of x] fs(2) x show False by blast
    qed
  qed
  moreover have "\<forall>c \<in> set (ds_cycles s'). is_cycle ?adj c" using s'(2) by (simp add: dfs_done_def dfs_inv_def)
  moreover have "\<not> acyclic (edge_rel ?adj)" if "ds_cycles s' \<noteq> []"
    using that calculation(2) cycle_not_acyclic by (metis list.set_intros(1) neq_Nil_conv)
  ultimately show ?thesis using s'(1) by (auto simp: detect_cycles_def)
qed

section \<open>Properties\<close>

definition depends_on :: "Engine \<Rightarrow> (string \<times> string) set" where
  "depends_on en = {(a, b). \<exists>ty. (a, b, ty) \<in> set (en_edges en)}"

text \<open>
  C37: The cascade reports every affected repository once, at its shortest distance. For a loaded graph, the
  result lists, in the order of their depths and without repetition, exactly the repositories other than
  the changed one whose shortest distance over dependency edges from the direct targets is one less than
  the depth, up to the depth limit of the call and of the rule; direct targets are always listed.
\<close>

theorem cascade_reports_shortest_distances:
  assumes "load dep_raw packs rules_raw = Inr en" "c = norm_or_self changed" "limit = rule_limit (get_rule en c) max_depth"
  shows "reported (compute_cascade en changed max_depth) =
      {(x, int n + 1) | x n. (n = 0 \<or> int n + 1 \<le> limit) \<and> x \<noteq> c \<and> x \<in> at_distance en (direct_targets en c) n} \<and>
    distinct (map st_repo (compute_cascade en changed max_depth)) \<and> sorted (map st_depth (compute_cascade en changed max_depth))"
proof (intro conjI)
  show "reported (compute_cascade en changed max_depth) =
      {(x, int n + 1) | x n. (n = 0 \<or> int n + 1 \<le> limit) \<and> x \<noteq> c \<and> x \<in> at_distance en (direct_targets en c) n}"
    unfolding cascade_distances(1) [OF load_wf [OF assms(1)] assms(2,3)] by auto
  show "distinct (map st_repo (compute_cascade en changed max_depth))"
    by (rule cascade_distances(2) [OF load_wf [OF assms(1)] assms(2,3)])
  show "sorted (map st_depth (compute_cascade en changed max_depth))"
    by (simp add: compute_cascade_def Let_def split: prod.splits)
qed

theorem cascade_reports_shortest_distances_witness:
  "reported (compute_cascade sample_engine ''Core_Lib'' 3) =
     {(x, int n + 1) | x n. (n = 0 \<or> int n + 1 \<le> rule_limit (get_rule sample_engine (norm_or_self ''Core_Lib'')) 3) \<and>
       x \<noteq> norm_or_self ''Core_Lib'' \<and> x \<in> at_distance sample_engine (direct_targets sample_engine (norm_or_self ''Core_Lib'')) n} \<and>
   reported (compute_cascade sample_engine ''Core_Lib'' 3) = {(''app'', 1), (''site'', 1)}"
proof
  show "reported (compute_cascade sample_engine ''Core_Lib'' 3) =
     {(x, int n + 1) | x n. (n = 0 \<or> int n + 1 \<le> rule_limit (get_rule sample_engine (norm_or_self ''Core_Lib'')) 3) \<and>
       x \<noteq> norm_or_self ''Core_Lib'' \<and> x \<in> at_distance sample_engine (direct_targets sample_engine (norm_or_self ''Core_Lib'')) n}"
    by (rule cascade_reports_shortest_distances [OF sample_loads refl refl, THEN conjunct1])
  show "reported (compute_cascade sample_engine ''Core_Lib'' 3) = {(''app'', 1), (''site'', 1)}" by code_simp
qed

text \<open>
  C38: Cycle detection is exact and returns. For a loaded graph and whatever order its nodes are visited in,
  the search ends; every list it reports is a closed walk along dependency edges; and it reports none
  exactly if the dependency relation is acyclic.
\<close>

theorem cycle_detection_exact:
  assumes "load dep_raw packs rules_raw = Inr en" "set nodes = all_graph_nodes en"
  shows "\<exists>cycles. detect_cycles en nodes = Some cycles \<and>
    (\<forall>c \<in> set cycles. 2 \<le> length c \<and> hd c = last c \<and> (\<forall>i. Suc i < length c \<longrightarrow> (c ! i, c ! Suc i) \<in> depends_on en)) \<and>
    (cycles = [] \<longleftrightarrow> acyclic (depends_on en))"
proof -
  have rel: "edge_rel (en_adjacency en) = depends_on en"
    using load_wf(1) [OF assms(1)] by (auto simp: edge_rel_def depends_on_def wf_engine_def)
  have "\<forall>a b. (a, b) \<in> edge_rel (en_adjacency en) \<longrightarrow> a \<in> set nodes \<and> b \<in> set nodes"
    unfolding rel assms(2) by (force simp: depends_on_def all_graph_nodes_def)
  from detect_cycles_correct [OF this] show ?thesis
    unfolding is_cycle_def walk_nth rel by blast
qed

theorem cycle_detection_exact_witness:
  "\<exists>cycles. detect_cycles sample_engine [''app'', ''core-lib'', ''site''] = Some cycles \<and> (cycles = [] \<longleftrightarrow> acyclic (depends_on sample_engine))"
proof -
  have "set [''app'', ''core-lib'', ''site''] = all_graph_nodes sample_engine" by code_simp
  from cycle_detection_exact [OF sample_loads this] show ?thesis by blast
qed

end
