(* ===== verification/Propagation_Dispatch.thy ===== *)
theory Propagation_Dispatch
  imports Propagation_Engine Durable_Queue
begin

text \<open>
  The fan-out of \<open>engines/propagation_engine.py\<close>: acting on the steps of a cascade, and the dry run. The
  calls of the hosting service are arguments that act on a world of any type: the listing of at most so
  many open issues (a return code, and the titles unless the output is blank or does not parse), the
  creation of an issue and the dispatch event. The title of an issue is the pair of its source and its
  rule, its body is rendered from the step. The event that is logged is returned here, without its time
  stamp.
\<close>

section \<open>The code\<close>

type_synonym title = "string \<times> pyval"

record 'w Scm =
  scm_list :: "string \<Rightarrow> nat \<Rightarrow> 'w \<Rightarrow> (int \<times> title list option) \<times> 'w"
  scm_create_issue :: "string \<Rightarrow> title \<Rightarrow> Step \<Rightarrow> string \<Rightarrow> 'w \<Rightarrow> (int \<times> string) \<times> 'w"
  scm_dispatch :: "string \<Rightarrow> title \<Rightarrow> string \<Rightarrow> 'w \<Rightarrow> (int \<times> string) \<times> 'w"

definition scm_open_issue_titles :: "'w Scm \<Rightarrow> string \<Rightarrow> 'w \<Rightarrow> title list option \<times> 'w" where
  "scm_open_issue_titles scm repo w =
     (case scm_list scm repo 50 w of ((rc, titles), w') \<Rightarrow> (if rc \<noteq> 0 then None else titles, w'))"

definition existing_issue :: "'w Scm \<Rightarrow> string \<Rightarrow> title \<Rightarrow> 'w \<Rightarrow> string option \<times> 'w" where
  "existing_issue scm target t w =
     (case scm_open_issue_titles scm target w of
        (None, w') \<Rightarrow> (Some ''unknown'', w')
      | (Some titles, w') \<Rightarrow> (if t \<in> set titles then Some ''duplicate'' else None, w'))"

datatype action_status =
    blocked_no_dispatch | dispatched | failed | skipped_lookup_failed | already_open | notified | computed_not_sent | simulated

record Action =
  pa_repo :: string
  pa_action :: pyval
  pa_rule :: pyval
  pa_depth :: int
  pa_status :: action_status
  pa_output :: string

definition action_of :: "Step \<Rightarrow> action_status \<Rightarrow> string \<Rightarrow> Action" where
  "action_of step status out =
     \<lparr>pa_repo = st_repo step, pa_action = st_action step, pa_rule = st_source_rule step, pa_depth = st_depth step, pa_status = status, pa_output = out\<rparr>"

definition dispatch :: "'w Scm \<Rightarrow> bool \<Rightarrow> Step \<Rightarrow> string \<Rightarrow> string \<Rightarrow> 'w \<Rightarrow> Action \<times> 'w" where
  "dispatch scm allow_dispatch step source ref w =
     (let target = st_repo step; t = (source, st_source_rule step) in
      if st_action step = VStr ''trigger_ci'' then
        if \<not> allow_dispatch then (action_of step blocked_no_dispatch [], w)
        else case scm_dispatch scm target t ref w of
          ((rc, out), w') \<Rightarrow> (if rc = 0 then action_of step dispatched [] else action_of step failed out, w')
      else case existing_issue scm target t w of
        (existing, w1) \<Rightarrow>
          if existing = Some ''unknown'' then (action_of step skipped_lookup_failed [], w1)
          else if existing \<noteq> None then (action_of step already_open [], w1)
          else case scm_create_issue scm target t step ref w1 of
            ((rc, out), w2) \<Rightarrow> (action_of step (if rc = 0 then notified else failed) out, w2))"

definition simulate_automation :: "Step \<Rightarrow> Action" where
  "simulate_automation step = action_of step simulated []"

definition act_step :: "'w Scm \<Rightarrow> bool \<Rightarrow> bool \<Rightarrow> int \<Rightarrow> string \<Rightarrow> string \<Rightarrow> Step \<Rightarrow> 'w \<Rightarrow> Action \<times> 'w" where
  "act_step scm allow_dispatch execute dispatch_depth source ref step w =
     (if st_depth step > dispatch_depth then (action_of step computed_not_sent [], w)
      else if execute then dispatch scm allow_dispatch step source ref w
      else if st_action step = VStr ''trigger_ci'' \<and> \<not> allow_dispatch then (action_of step blocked_no_dispatch [], w)
      else (simulate_automation step, w))"

fun act_steps :: "('a \<Rightarrow> 'w \<Rightarrow> 'b \<times> 'w) \<Rightarrow> 'a list \<Rightarrow> 'w \<Rightarrow> 'b list \<times> 'w" where
  "act_steps act [] w = ([], w)"
| "act_steps act (s # ss) w = (case act s w of (a, w1) \<Rightarrow> case act_steps act ss w1 of (as, w2) \<Rightarrow> (a # as, w2))"

definition dependent_name :: "pyval \<Rightarrow> pyval list \<Rightarrow> pyval list result" where
  "dependent_name v result =
     rbind (case v of VDict d \<Rightarrow> Inr (dgetdef d ''name'' VNone) | _ \<Rightarrow> rbind (v_text v) (\<lambda>s. Inr (VStr s))) (\<lambda>name.
       Inr (if truthy name \<and> name \<noteq> VStr ''all-repos'' then result @ [name] else result))"

definition get_dependents :: "string \<Rightarrow> pyval \<Rightarrow> pyval list result" where
  "get_dependents repo_name dep_graph =
     rbind (vget dep_graph ''dependencies'' (VDict [])) (\<lambda>deps.
     rbind (vget deps repo_name (VDict [])) (\<lambda>entry.
     rbind (rbind (vget entry ''dependents'' (VList [])) v_iter) (\<lambda>ds. rfold dependent_name ds [])))"

definition get_propagation_rules :: "string \<Rightarrow> pyval \<Rightarrow> pyval result" where
  "get_propagation_rules repo_name rules =
     rbind (vget rules ''propagation_rules'' (VDict [])) (\<lambda>ps.
     rbind (vget ps repo_name (VDict [])) (\<lambda>p. vget p ''on_main_merge'' (VDict [])))"

datatype event_status = no_rule | event_failed | executed | dry_run

record Event =
  ev_repo :: string
  ev_ref :: string
  ev_dependents :: "pyval list"
  ev_references :: "string list"
  ev_cascade_steps :: nat
  ev_executed :: bool
  ev_actions_triggered :: "Action list"
  ev_status :: event_status

definition DEFAULT_DISPATCH_DEPTH :: int where "DEFAULT_DISPATCH_DEPTH = 1"

definition max_notification_depth :: "pyval \<Rightarrow> int result" where
  "max_notification_depth rules_raw =
     rbind (vget rules_raw ''cascade_policy'' VNone) (\<lambda>p.
     rbind (vget (v_or p (VDict [])) ''max_notification_depth'' (VInt 3)) v_int)"

text \<open>The exit code and the logged event; no event for a branch other than main.\<close>

definition propagate ::
  "'w Scm \<Rightarrow> bool \<Rightarrow> pyval \<Rightarrow> (string \<times> pyval) list \<Rightarrow> pyval \<Rightarrow> bool \<Rightarrow> int \<Rightarrow> string \<Rightarrow> string \<Rightarrow> 'w \<Rightarrow> (int \<times> Event option) result \<times> 'w" where
  "propagate scm allow_dispatch dep_raw packs rules_raw execute dispatch_depth repo_name ref w =
     (if \<not> endswith ref ''/main'' then (Inr (0, None), w)
      else case rbind (get_dependents repo_name dep_raw) (\<lambda>dependents.
                rbind (load dep_raw packs rules_raw) (\<lambda>en.
                rbind (max_notification_depth rules_raw) (\<lambda>max_depth. Inr (dependents, en, compute_cascade en repo_name max_depth)))) of
        Inl e \<Rightarrow> (Inl e, w)
      | Inr (dependents, en, steps) \<Rightarrow>
          let event = \<lambda>actions status.
                \<lparr>ev_repo = repo_name, ev_ref = ref, ev_dependents = dependents, ev_references = referrers_of en repo_name,
                 ev_cascade_steps = length steps, ev_executed = execute, ev_actions_triggered = actions, ev_status = status\<rparr> in
          if steps = [] then (Inr (0, Some (event [] no_rule)), w)
          else case act_steps (act_step scm allow_dispatch execute dispatch_depth repo_name ref) steps w of
            (actions, w') \<Rightarrow>
              (let bad = \<exists>a \<in> set actions. pa_status a = failed in
               (Inr (if bad then 1 else 0, Some (event actions (if bad then event_failed else if execute then executed else dry_run))), w')))"

section \<open>The dry run\<close>


lemma act_steps_all2:
  assumes "\<And>s w w'. R (fst (act s w)) (fst (act' s w'))"
  shows "list_all2 R (fst (act_steps act ss w)) (fst (act_steps act' ss w'))"
  by (induction ss arbitrary: w w') (simp_all add: assms split_beta)


lemma dispatch_fields:
  "pa_repo (fst (dispatch scm allow step source ref w)) = st_repo step"
  "pa_action (fst (dispatch scm allow step source ref w)) = st_action step"
  "pa_depth (fst (dispatch scm allow step source ref w)) = st_depth step"
  by (auto simp: dispatch_def action_of_def Let_def split: prod.splits)








section \<open>Repeated runs\<close>

text \<open>
  What is relied on of the hosting service, where \<open>opens\<close> are the titles of the open issues of a
  repository, newest first: a listing changes nothing and fails or gives the newest ones up to its limit;
  a creation that succeeds opens one issue; a dispatch event opens none.
\<close>

definition tracker :: "'w Scm \<Rightarrow> ('w \<Rightarrow> string \<Rightarrow> title list) \<Rightarrow> bool" where
  "tracker scm opens \<longleftrightarrow>
     (\<forall>repo limit w. snd (scm_list scm repo limit w) = w \<and>
        (fst (fst (scm_list scm repo limit w)) \<noteq> 0 \<or> snd (fst (scm_list scm repo limit w)) = None \<or>
         snd (fst (scm_list scm repo limit w)) = Some (take limit (opens w repo)))) \<and>
     (\<forall>repo t step ref w. opens (snd (scm_create_issue scm repo t step ref w)) =
        (if fst (fst (scm_create_issue scm repo t step ref w)) = 0 then (opens w)(repo := t # opens w repo) else opens w)) \<and>
     (\<forall>repo t ref w. opens (snd (scm_dispatch scm repo t ref w)) = opens w)"

definition grows :: "('w \<Rightarrow> string \<Rightarrow> title list) \<Rightarrow> 'w \<Rightarrow> 'w \<Rightarrow> bool" where
  "grows opens w w' \<longleftrightarrow> (\<forall>r. set (opens w r) \<subseteq> set (opens w' r) \<and> length (opens w r) \<le> length (opens w' r))"

lemma existing_issue_tracker:
  assumes "tracker scm opens"
  shows "snd (existing_issue scm repo t w) = w"
    "fst (existing_issue scm repo t w) = Some ''unknown'' \<or>
     fst (existing_issue scm repo t w) = (if t \<in> set (take 50 (opens w repo)) then Some ''duplicate'' else None)"
proof -
  have "snd (scm_list scm repo 50 w) = w \<and>
      (fst (fst (scm_list scm repo 50 w)) \<noteq> 0 \<or> snd (fst (scm_list scm repo 50 w)) = None \<or>
       snd (fst (scm_list scm repo 50 w)) = Some (take 50 (opens w repo)))"
    using assms unfolding tracker_def by blast
  then obtain rc q where "scm_list scm repo 50 w = ((rc, q), w)" "rc \<noteq> 0 \<or> q = None \<or> q = Some (take 50 (opens w repo))"
    by (metis prod.collapse)
  then show "snd (existing_issue scm repo t w) = w"
    "fst (existing_issue scm repo t w) = Some ''unknown'' \<or>
     fst (existing_issue scm repo t w) = (if t \<in> set (take 50 (opens w repo)) then Some ''duplicate'' else None)"
    unfolding existing_issue_def scm_open_issue_titles_def by auto
qed

lemma dispatch_tracker:
  assumes "tracker scm opens" "dispatch scm allow s source ref w = (a, w')"
  shows "grows opens w w'"
    "pa_status a = notified \<Longrightarrow> st_action s \<noteq> VStr ''trigger_ci'' \<and> (source, st_source_rule s) \<in> set (opens w' (st_repo s))"
    "st_action s \<noteq> VStr ''trigger_ci'' \<Longrightarrow> (source, st_source_rule s) \<in> set (take 50 (opens w (st_repo s))) \<Longrightarrow>
       pa_status a \<in> {already_open, skipped_lookup_failed}"
proof -
  let ?t = "(source, st_source_rule s)"
  have create: "grows opens w w2 \<and> (rc = 0 \<longrightarrow> ?t \<in> set (opens w2 (st_repo s)))"
    if "scm_create_issue scm (st_repo s) ?t s ref w = ((rc, out), w2)" for rc out w2
  proof -
    have "opens (snd (scm_create_issue scm (st_repo s) ?t s ref w)) =
        (if fst (fst (scm_create_issue scm (st_repo s) ?t s ref w)) = 0 then (opens w)(st_repo s := ?t # opens w (st_repo s)) else opens w)"
      using assms(1) unfolding tracker_def by blast
    with that have "opens w2 = (if rc = 0 then (opens w)(st_repo s := ?t # opens w (st_repo s)) else opens w)" by simp
    then show ?thesis by (auto simp: grows_def)
  qed
  have event: "grows opens w w2" if "scm_dispatch scm (st_repo s) ?t ref w = (q, w2)" for q w2
  proof -
    have "opens (snd (scm_dispatch scm (st_repo s) ?t ref w)) = opens w" using assms(1) unfolding tracker_def by blast
    with that show ?thesis by (simp add: grows_def)
  qed
  obtain ex where ex: "existing_issue scm (st_repo s) ?t w = (ex, w)"
    "ex = Some ''unknown'' \<or> ex = (if ?t \<in> set (take 50 (opens w (st_repo s))) then Some ''duplicate'' else None)"
    using existing_issue_tracker [OF assms(1), of "st_repo s" ?t w] by (metis prod.collapse)
  have refl: "grows opens w w" by (simp add: grows_def)
  show "grows opens w w'"
    using assms(2) create event ex(1) refl by (auto simp: dispatch_def Let_def split: if_splits prod.splits)
  show "st_action s \<noteq> VStr ''trigger_ci'' \<and> ?t \<in> set (opens w' (st_repo s))" if "pa_status a = notified"
    using assms(2) create ex(1) that by (auto simp: dispatch_def action_of_def Let_def split: if_splits prod.splits)
  show "pa_status a \<in> {already_open, skipped_lookup_failed}"
    if "st_action s \<noteq> VStr ''trigger_ci''" "?t \<in> set (take 50 (opens w (st_repo s)))"
    using assms(2) ex that by (auto simp: dispatch_def action_of_def Let_def split: if_splits prod.splits)
qed

text \<open>A step that is sent as a notification.\<close>

definition sent :: "int \<Rightarrow> Step \<Rightarrow> bool" where
  "sent n s \<longleftrightarrow> st_depth s \<le> n \<and> st_action s \<noteq> VStr ''trigger_ci''"

lemma act_step_tracker:
  assumes "tracker scm opens" "act_step scm allow True n source ref s w = (a, w')"
  shows "grows opens w w'" "pa_status a = notified \<Longrightarrow> sent n s \<and> (source, st_source_rule s) \<in> set (opens w' (st_repo s))"
    "sent n s \<Longrightarrow> (source, st_source_rule s) \<in> set (take 50 (opens w (st_repo s))) \<Longrightarrow> pa_status a \<in> {already_open, skipped_lookup_failed}"
  using assms(2) dispatch_tracker [OF assms(1), of allow s source ref w a w']
  by (auto simp: act_step_def sent_def action_of_def grows_def split: if_splits)

lemma grows_trans: "grows opens a b \<Longrightarrow> grows opens b c \<Longrightarrow> grows opens a c"
  unfolding grows_def by (meson order_trans)

lemma act_steps_grows:
  assumes "tracker scm opens"
  shows "act_steps (act_step scm allow True n source ref) ss w = (as, w') \<Longrightarrow> grows opens w w'"
proof (induction ss arbitrary: w as)
  case Nil
  then show ?case by (simp add: grows_def)
next
  case (Cons s ss)
  then obtain a w1 as' where "act_step scm allow True n source ref s w = (a, w1)" "act_steps (act_step scm allow True n source ref) ss w1 = (as', w')"
    by (auto split: prod.splits)
  with Cons.IH act_step_tracker(1) [OF assms] show ?case by (blast intro: grows_trans)
qed

lemma notified_is_open:
  assumes "tracker scm opens"
  shows "act_steps (act_step scm allow True n source ref) ss w = (as, w') \<Longrightarrow>
    list_all2 (\<lambda>s a. pa_status a = notified \<longrightarrow> sent n s \<and> (source, st_source_rule s) \<in> set (opens w' (st_repo s))) ss as"
proof (induction ss arbitrary: w as)
  case (Cons s ss)
  then obtain a w1 as' where 1: "act_step scm allow True n source ref s w = (a, w1)"
    and 2: "act_steps (act_step scm allow True n source ref) ss w1 = (as', w')" and "as = a # as'"
    by (auto split: prod.splits)
  moreover have "grows opens w1 w'" by (rule act_steps_grows [OF assms 2])
  ultimately show ?case
    using Cons.IH [OF 2] act_step_tracker(2) [OF assms 1] by (auto simp: grows_def)
qed simp

lemma open_not_repeated:
  assumes "tracker scm opens"
  shows "act_steps (act_step scm allow True n source ref) ss w = (as, w') \<Longrightarrow> \<forall>r. length (opens w' r) \<le> 50 \<Longrightarrow>
    list_all2 (\<lambda>s a. sent n s \<longrightarrow> (source, st_source_rule s) \<in> set (opens w (st_repo s)) \<longrightarrow> pa_status a \<in> {already_open, skipped_lookup_failed}) ss as"
proof (induction ss arbitrary: w as)
  case (Cons s ss)
  then obtain a w1 as' where 1: "act_step scm allow True n source ref s w = (a, w1)"
    and 2: "act_steps (act_step scm allow True n source ref) ss w1 = (as', w')" and as: "as = a # as'"
    by (auto split: prod.splits)
  have g: "grows opens w w1" "grows opens w1 w'" by (rule act_step_tracker(1) [OF assms 1]) (rule act_steps_grows [OF assms 2])
  then have "length (opens w r) \<le> 50" for r using Cons.prems(2) unfolding grows_def by (meson order_trans)
  then have "take 50 (opens w r) = opens w r" for r by simp
  with act_step_tracker(3) [OF assms 1]
  have "sent n s \<longrightarrow> (source, st_source_rule s) \<in> set (opens w (st_repo s)) \<longrightarrow> pa_status a \<in> {already_open, skipped_lookup_failed}"
    by simp
  moreover have "list_all2 (\<lambda>s a. sent n s \<longrightarrow> (source, st_source_rule s) \<in> set (opens w (st_repo s)) \<longrightarrow>
      pa_status a \<in> {already_open, skipped_lookup_failed}) ss as'"
    using Cons.IH [OF 2 Cons.prems(2)] by (rule list_all2_mono) (use g(1) in \<open>auto simp: grows_def\<close>)
  ultimately show ?case unfolding as by simp
qed simp

definition not_repeated :: "Action \<Rightarrow> Action \<Rightarrow> bool" where
  "not_repeated a b \<longleftrightarrow>
     pa_repo b = pa_repo a \<and> (pa_status a = notified \<longrightarrow> pa_status b = already_open \<or> pa_status b = skipped_lookup_failed)"

lemma propagate_actions:
  assumes "propagate scm allow dep_raw packs rules_raw execute n repo ref w = (Inr (rc, Some e), w')"
  obtains en max_depth where "load dep_raw packs rules_raw = Inr en" "max_notification_depth rules_raw = Inr max_depth"
    "act_steps (act_step scm allow execute n repo ref) (compute_cascade en repo max_depth) w = (ev_actions_triggered e, w')"
proof -
  define pre where "pre = rbind (get_dependents repo dep_raw) (\<lambda>dependents. rbind (load dep_raw packs rules_raw) (\<lambda>en.
    rbind (max_notification_depth rules_raw) (\<lambda>max_depth. Inr (dependents, en, compute_cascade en repo max_depth))))"
  from assms have "endswith ref ''/main''" by (auto simp: propagate_def split: if_splits)
  with assms obtain dependents en steps where t: "pre = Inr (dependents, en, steps)"
    by (cases pre) (auto simp: propagate_def pre_def [symmetric])
  then obtain m where l: "load dep_raw packs rules_raw = Inr en" "max_notification_depth rules_raw = Inr m" and st: "steps = compute_cascade en repo m"
    unfolding pre_def by (auto elim!: rbindE)
  have "act_steps (act_step scm allow execute n repo ref) (compute_cascade en repo m) w = (ev_actions_triggered e, w')"
    using assms t \<open>endswith ref ''/main''\<close> st
    by (cases "steps = []") (auto simp: propagate_def pre_def [symmetric] Let_def split: prod.splits)
  with l show ?thesis by (rule that)
qed

text \<open>
  C40: No notification is sent twice. If the hosting service lists the open issues of a repository whenever
  the lookup succeeds, and no repository has more than 50 of them, then a repository notified by one
  execution is not notified again by the next one for the same change: the open issue is found, or the
  lookup failed and the step is skipped.
\<close>

theorem notified_once:
  assumes "tracker scm opens"
    "propagate scm allow dep_raw packs rules_raw True n repo ref w = (Inr (rc1, Some e1), w1)"
    "propagate scm allow dep_raw packs rules_raw True n repo ref w1 = (Inr (rc2, Some e2), w2)"
    "\<forall>r. length (opens w2 r) \<le> 50"
  shows "list_all2 not_repeated (ev_actions_triggered e1) (ev_actions_triggered e2)"
proof -
  from assms(2) obtain en m where 1: "load dep_raw packs rules_raw = Inr en" "max_notification_depth rules_raw = Inr m"
    "act_steps (act_step scm allow True n repo ref) (compute_cascade en repo m) w = (ev_actions_triggered e1, w1)" by (rule propagate_actions)
  from assms(3) obtain en' m' where 2: "load dep_raw packs rules_raw = Inr en'" "max_notification_depth rules_raw = Inr m'"
    "act_steps (act_step scm allow True n repo ref) (compute_cascade en' repo m') w1 = (ev_actions_triggered e2, w2)" by (rule propagate_actions)
  have eq: "en' = en" "m' = m" using 1 2 by simp_all
  have "list_all2 (\<lambda>a b. pa_repo b = pa_repo a) (ev_actions_triggered e1) (ev_actions_triggered e2)"
    using act_steps_all2 [of "\<lambda>a b. pa_repo b = pa_repo a" "act_step scm allow True n repo ref" "act_step scm allow True n repo ref"
        "compute_cascade en repo m" w w1] 1(3) 2(3) eq
    by (simp add: act_step_def dispatch_fields action_of_def)
  moreover note notified_is_open [OF assms(1) 1(3)] open_not_repeated [OF assms(1) 2(3) assms(4)]
  ultimately show ?thesis unfolding eq list_all2_conv_all_nth not_repeated_def by auto
qed

text \<open>A hosting service that keeps its issues in a dictionary.\<close>

definition memory_scm :: "(string, title list) dict Scm" where
  "memory_scm =
     \<lparr>scm_list = (\<lambda>repo limit w. ((0, Some (take limit (dgetdef w repo []))), w)),
      scm_create_issue = (\<lambda>repo t step ref w. ((0, []), dset w repo (t # dgetdef w repo []))),
      scm_dispatch = (\<lambda>repo t ref w. ((0, []), w))\<rparr>"

lemma memory_tracker: "tracker memory_scm (\<lambda>w r. dgetdef w r [])"
  by (auto simp: tracker_def memory_scm_def dgetdef_def fun_eq_iff)

lemma memory_room: "list_all (\<lambda>p. length (snd p) \<le> 50) w \<Longrightarrow> length (dgetdef w r []) \<le> 50"
  using dget_Some_in [of w r] by (force simp: dgetdef_def list_all_iff split: option.splits)

definition pair_dep :: pyval where
  "pair_dep = VDict [(''edges'', VList [VDict [(''from'', VStr ''b''), (''to'', VStr ''a'')]])]"

definition sample_run :: "bool \<Rightarrow> (string, title list) dict \<Rightarrow> (int \<times> Event option) result \<times> (string, title list) dict" where
  "sample_run execute w = propagate memory_scm False pair_dep [] (VDict []) execute DEFAULT_DISPATCH_DEPTH ''a'' ''refs/heads/main'' w"

definition run_actions :: "(int \<times> Event option) result \<times> (string, title list) dict \<Rightarrow> Action list" where
  "run_actions p = (case fst p of Inr (rc, Some e) \<Rightarrow> ev_actions_triggered e | _ \<Rightarrow> [])"

lemma sample_actions:
  "map pa_status (run_actions (sample_run False [])) = [simulated]"
  "map pa_status (run_actions (sample_run True [])) = [notified]"
  by code_simp+

lemma run_actions_Some: "run_actions p \<noteq> [] \<Longrightarrow> \<exists>rc e. p = (Inr (rc, Some e), snd p) \<and> ev_actions_triggered e = run_actions p"
  by (cases p) (auto simp: run_actions_def split: sum.splits option.splits)


theorem notified_once_witness:
  "map pa_status (run_actions (sample_run True [])) = [notified] \<and>
   list_all2 not_repeated (run_actions (sample_run True [])) (run_actions (sample_run True (snd (sample_run True []))))"
proof -
  let ?w = "snd (sample_run True [])"
  have again: "run_actions (sample_run True ?w) \<noteq> []" and room: "list_all (\<lambda>p. length (snd p) \<le> 50) (snd (sample_run True ?w))"
    by code_simp+
  from run_actions_Some [OF again] obtain rc2 e2 where
    2: "sample_run True ?w = (Inr (rc2, Some e2), snd (sample_run True ?w))" "ev_actions_triggered e2 = run_actions (sample_run True ?w)" by blast
  obtain rc1 e1 where 1: "sample_run True [] = (Inr (rc1, Some e1), ?w)" "ev_actions_triggered e1 = run_actions (sample_run True [])"
    using run_actions_Some [of "sample_run True []"] sample_actions(2) by fastforce
  have "\<forall>r. length (dgetdef (snd (sample_run True ?w)) r []) \<le> 50" using memory_room [OF room] by simp
  from notified_once [OF memory_tracker 1(1) [unfolded sample_run_def] 2(1) [unfolded sample_run_def], folded sample_run_def, OF this]
  show ?thesis using 1(2) 2(2) sample_actions(2) by simp
qed

text \<open>
  The listing is cut at 50: where 50 newer issues are open, the open notification is not seen and the next
  execution sends it again.
\<close>

lemma crowded_repo_notified_again:
  assumes "st_depth s \<le> n" "st_action s \<noteq> VStr ''trigger_ci''" "length newer = 50" "(source, st_source_rule s) \<notin> set newer"
    "dgetdef w (st_repo s) [] = newer @ (source, st_source_rule s) # older"
  shows "pa_status (fst (act_step memory_scm allow True n source ref s w)) = notified"
  using assms by (simp add: act_step_def dispatch_def existing_issue_def scm_open_issue_titles_def memory_scm_def action_of_def Let_def)

end
