(* ===== verification/Spec2Isabelle.thy ===== *)
theory Spec2Isabelle
  imports Mesh_Sync Vantage_Reports Macro_Triad Triad_Rotation Rate_Limiter Durable_Queue Session_Quarantine
    Semantic_Algebra Gbrg_Mcp Responder Propagation_Graph Propagation_Dispatch
begin

text \<open>
  \<^bold>\<open>The program.\<close> The repository holds the automation of an estate of repositories: a storage mesh that
  disperses files over many backends, a threat and rotation layer over the mesh's masters, a self-healing
  loop that turns detected failures into bounded actions, a governance gate with a hash-chained ledger,
  and an engine that tells dependent repositories about a change. Each theory models the modules it
  names, in the order of the code, and proves what they promise.

  \<^bold>\<open>Conventions.\<close> \<open>Prelude\<close> has the exceptions (\<open>exn\<close>), results that are an exception or a value with
  their sequencing (\<open>rbind\<close>, \<open>rmap\<close>, \<open>rfold\<close>), dictionaries in insertion order as association lists, and the
  shared list lemmas. \<open>Py_Text\<close>, \<open>Py_Values\<close>, \<open>Json_Text\<close> and \<open>Json_Canonical\<close> model what the modules use of
  the language: numerals, UTF-8, dynamically typed values with their conversions and exceptions, JSON
  text with its parser, and the canonical form that is hashed. Floats are exact rationals with the
  infinities and NaN. The hash function, clocks, random identifiers, parsed files, network calls and
  subprocesses are arguments of the definitions; where a theorem relies on them, it says how.

  \<^bold>\<open>The storage mesh\<close> (\<open>src/automation\<close>).
  \<^item> \<open>GF256\<close>, \<open>Poly_Interpolation\<close>, \<open>Holographic_IDA\<close>: \<open>holographic_ida.py\<close>. The table arithmetic is the
    field of AES; any k of the n fragments give the leaf back.
  \<^item> \<open>Mesh_Topology\<close>: \<open>mesh_topology.py\<close>. The ternary tree is total, balanced and order preserving, every
    backend leads within a turn, and two healthy sets of backends intersect.
  \<^item> \<open>Storage_Resilience\<close>, \<open>Storage_Placement\<close>: \<open>storage_resilience.py\<close>, \<open>storage_placement.py\<close>. The exact
    number of seizures a placement survives; a runtime posture never selects an unvalidated placement.
  \<^item> \<open>Mesh_Store\<close>: \<open>mesh_fs_store.py\<close>, \<open>mesh_http_store.py\<close> and the in-memory store, as interpretations of
    the locales \<open>frag_store\<close> and \<open>mesh_store\<close>, whose laws the clients use.
  \<^item> \<open>Leaf_Propagation\<close>, \<open>Manifest_Store\<close>, \<open>Mesh_Namespace\<close>, \<open>Mesh_Sync\<close>: \<open>leaf_propagation.py\<close>,
    \<open>manifest_store.py\<close>, \<open>mesh_namespace.py\<close>, \<open>mesh_sync.py\<close> and \<open>continuity.py\<close>. Fetched bytes match their
    commitment whatever the store returns, a leaf survives a bounded seizure, manifests and files
    round-trip, the newest name pointer is found.

  \<^bold>\<open>Threat and rotation\<close> (\<open>src/automation\<close>).
  \<^item> \<open>Mesh_Threat\<close>, \<open>Vantage_Reports\<close>: \<open>mesh_threat.py\<close>, \<open>vantage_reports.py\<close>. A lying minority cannot move
    the signal out of the honest range; a level is lowered only after its dwell.
  \<^item> \<open>Lazerus\<close>, \<open>Macro_Triad\<close>, \<open>Triad_Rotation\<close>: \<open>lazerus.py\<close>, \<open>macro_triad.py\<close>, \<open>triad_receipts.py\<close>,
    \<open>triad_rotation.py\<close>. The receipt linter, quorums over receipts, the rotation of roles.

  \<^bold>\<open>Self-healing\<close> (\<open>src/automation\<close>, and the kernel under \<open>src/third_party/procyber/semantic\<close>).
  \<^item> \<open>Rate_Limiter\<close>, \<open>Durable_Queue\<close>, \<open>Session_Quarantine\<close>: \<open>rate_limiter.py\<close>, \<open>durable_queue.py\<close>,
    \<open>session_quarantine.py\<close>, with step relations for their interleavings. The quota holds, every item is
    delivered exactly once (the locale \<open>event_queue\<close> is the contract its clients use), every orphan gets
    at most one receipt.
  \<^item> \<open>Semantic_Algebra\<close>: \<open>semantic_algebra.py\<close>, the terms, their distance and the verdict lattice.
  \<^item> \<open>Response_Policy\<close>: \<open>policy.py\<close>, \<open>suppression.py\<close>, \<open>learning.py\<close>. A loaded policy is well typed, the
    file-backed suppressor refines a map of decision times, learning only demotes.
  \<^item> \<open>Control_Loop\<close>: \<open>control_loop.py\<close>, \<open>self_heal.py\<close>. The loop returns within its bound, reports convergence
    exactly when it holds, and opens at most one pull request.
  \<^item> \<open>Envelope\<close>, \<open>Responder\<close>: \<open>envelope.py\<close>, \<open>responder.py\<close>. The whole pass: drain the inbox, group by
    subject, decide, execute, record. It acts only within law and evidence and escalates what it did not
    resolve; values that are not numbers pass its gates, and one malformed beacon loses a batch.

  \<^bold>\<open>Governance\<close> (\<open>src/gbrg\<close>). \<open>Gbrg_Ledger\<close>, \<open>Gbrg_Gate\<close>, \<open>Gbrg_Mcp\<close>: \<open>governance/ledger.py\<close>,
  \<open>governance/gate.py\<close>, \<open>mcp/mcp_gate.py\<close>. Inclusion needs content and authority, every decision and every
  tool call is recorded, a pinned head pins the ledger; which deletions go unseen and how a mixed ledger
  breaks is proved too.

  \<^bold>\<open>Change propagation\<close> (\<open>src/engines/propagation_engine.py\<close>). \<open>Propagation_Engine\<close> has the loading of the
  graph and the rules, the queries, the cascade and the cycle search, and that a loaded graph is
  well formed. \<open>Propagation_Graph\<close> proves that the cascade lists each repository once at its shortest
  distance and that cycle detection ends and is exact. \<open>Propagation_Dispatch\<close> has the fan-out: a dry run
  predicts the execution, and a repeated execution sends nothing twice while a repository has at most
  50 open issues.

  \<^bold>\<open>Termination and bounds.\<close> Loops are structural recursion or \<open>function\<close> with a measure; the cascade's
  measure is the queue length plus twice the number of repositories not yet visited. The control loop and
  the cycle search are \<open>partial_function (option)\<close>, and that they return is proved. Only
  the JSON parser has fuel, the length of its text, which is proved to be enough for every printed value.
  The budget of 500 subsets in \<open>fetch\<close>, the listing limit of 50 issues and the bounds of the control
  loop are those of the code.

  \<^bold>\<open>Not modelled.\<close> Of the modelled modules: the text of messages and log lines, command lines, locking
  (a locked method is one step), the atomic replacement of a file (one step), HTTP transport errors
  beyond a failed call, and Python's recursion limit. Of the repository:
  \<^item> \<open>executors.py\<close>, \<open>detectors.py\<close>, \<open>beacon_producers.py\<close>, \<open>pr_opener.py\<close>, \<open>open_recorded_proposals.py\<close>,
    \<open>post_graph_upserts.py\<close>, \<open>crystal_atlas.py\<close>: readings and writings of working trees, version control
    and remote services; the responder takes them as arguments.
  \<^item> \<open>scheduler.py\<close>, \<open>webhooks.py\<close>, \<open>healthz.py\<close>, \<open>telemetry.py\<close>, \<open>liveness.py\<close>, the orchestrators, handlers
    and metric collectors: wiring of a scheduler, a web server and counters around the modelled modules.
  \<^item> the other engines and \<open>reconstruction_bridge.py\<close>, \<open>wordops.py\<close>, \<open>reasoning\<close>: reports over registry
    files and calls of external programs.
  \<^item> the risk scoring under \<open>gbrg/governance\<close>, the Rust crates, the adapters and the benchmark of \<open>gbrg\<close>:
    numerical scoring with declared weights, and a separate analysis engine in another language that the
    gate calls as a program.
  \<^item> \<open>tools\<close>, \<open>scripts\<close>, \<open>cli\<close>, \<open>apps\<close>, \<open>adapters\<close>, \<open>caps\<close>, \<open>standards\<close>, \<open>telemetry\<close>, \<open>webhooks\<close>: validators
    of single documents, shell wrappers and user interfaces with no state shared with the modelled parts;
    \<open>tests\<close> and \<open>docs\<close>.
\<close>

end
